(* ===== verification/Prelude.thy ===== *)
theory Prelude
  imports Main "HOL-Library.Word" "HOL-Library.Monad_Syntax" "HOL-Library.Sublist"
begin

text \<open>
  Shared ground of the development: the machine integer types of the C code, the
  fact collections that the component theories feed, and generic lemmas on words,
  lists and the option monad.  Programs are written in the option monad of
  \<open>Monad_Syntax\<close> with the state passed explicitly: \<open>None\<close> means that the code
  never gets past that point (a bus read that never retires, or a loop that never ends).
\<close>

unbundle bit_operations_syntax

section \<open>Machine integers\<close>

type_synonym u8 = "8 word"
type_synonym u16 = "16 word"
type_synonym u32 = "32 word"

text \<open>Errno values that the modelled functions return (Linux, MIPS o32).\<close>

abbreviation (input) EIO :: int where "EIO \<equiv> 5"
abbreviation (input) ENOMEM :: int where "ENOMEM \<equiv> 12"
abbreviation (input) ENODEV :: int where "ENODEV \<equiv> 19"
abbreviation (input) EINVAL :: int where "EINVAL \<equiv> 22"
abbreviation (input) ETIMEDOUT :: int where "ETIMEDOUT \<equiv> 145"

text \<open>
  \<open>time_before (a, b)\<close> and \<open>time_after (a, b)\<close> of the kernel compare two jiffies values
  by the sign of their wrapped difference.
\<close>

definition time_before :: "u32 \<Rightarrow> u32 \<Rightarrow> bool" where
  "time_before a b \<longleftrightarrow> sint (a - b) < 0"

definition time_after :: "u32 \<Rightarrow> u32 \<Rightarrow> bool" where
  "time_after a b \<longleftrightarrow> time_before b a"

section \<open>Fact collections\<close>

named_theorems bus_simps \<open>how each bus operation changes the log and the state\<close>
named_theorems mon_simps \<open>how the log monitors read the newest events\<close>
named_theorems frame_simps \<open>fields an operation leaves alone\<close>

section \<open>The option monad\<close>

lemmas bind_Some_iff = bind_eq_Some_conv

lemma bind_SomeE:
  assumes "Option.bind m f = Some r"
  obtains x where "m = Some x" and "f x = Some r"
  using assms by (cases m) auto

lemma bind_not_None:
  "m \<noteq> None \<Longrightarrow> (\<And>x. m = Some x \<Longrightarrow> f x \<noteq> None) \<Longrightarrow> Option.bind m f \<noteq> None"
  by (cases m) auto

section \<open>Words\<close>

lemma unat_and_le: "unat (a AND b :: 'a::len word) \<le> unat b"
  by (metis word_and_le1 word_le_nat_alt)

lemma unat_and_mask_less:
  assumes "b = mask n"
  shows "unat (a AND b :: 'a::len word) < 2 ^ n"
proof -
  have "a AND b = take_bit n a"
    by (simp add: assms take_bit_eq_mask)
  then show ?thesis
    by (simp add: unsigned_take_bit_eq)
qed

lemma unat_and_3 [simp]: "unat ((a :: u8) AND 3) < 4"
  using unat_and_le [of a 3] by simp

lemma unat_and_1f [simp]: "unat ((a :: u8) AND 0x1f) < 32"
  using unat_and_le [of a "0x1f"] by simp

section \<open>Small ranges\<close>

lemma less_8_cases:
  "c < (8::nat) \<Longrightarrow> c = 0 \<or> c = 1 \<or> c = 2 \<or> c = 3 \<or> c = 4 \<or> c = 5 \<or> c = 6 \<or> c = 7"
  by arith

lemma less_4_cases: "c < (4::nat) \<Longrightarrow> c = 0 \<or> c = 1 \<or> c = 2 \<or> c = 3"
  by arith

lemma mod_1024_cases: "(x::nat) < 2048 \<Longrightarrow> x mod 1024 = (if x < 1024 then x else x - 1024)"
  by (simp add: le_mod_geq)

section \<open>Lists\<close>

lemma take_Suc_conv_snoc: "n < length xs \<Longrightarrow> take (Suc n) xs = take n xs @ [xs ! n]"
  by (rule take_Suc_conv_app_nth)

lemma append_single: "(@) [x] = (#) x"
  by (rule ext) simp

lemma upt_map_cong: "(\<And>k. k < n \<Longrightarrow> f k = g k) \<Longrightarrow> map f [0..<n] = map g [0..<n]"
  by simp

lemma nth_list_update_other [simp]: "i \<noteq> j \<Longrightarrow> xs[i := v] ! j = xs ! j"
  by simp

end
