(* ===== verification/Interfaces.thy ===== *)
theory Interfaces
  imports Prelude
begin

text \<open>
  The contracts between components, as locales: a bounded byte queue, a byte stuffing
  code, a bank of maskable sources and a service routine that a polling loop drains.
  Each is interpreted, in the theory of the component that provides it, on the
  definitions that model the code.
\<close>

section \<open>A bounded queue\<close>

locale bounded_queue =
  fixes inv :: "'q \<Rightarrow> bool"
    and content :: "'q \<Rightarrow> 'a list"
    and space :: "'q \<Rightarrow> nat"
    and put :: "'q \<Rightarrow> 'a \<Rightarrow> 'q"
    and front :: "'q \<Rightarrow> 'a"
    and pop :: "'q \<Rightarrow> 'q"
    and capacity :: nat
  assumes space_content: "inv q \<Longrightarrow> space q + length (content q) = capacity"
    and inv_put: "inv q \<Longrightarrow> inv (put q c)"
    and content_put: "inv q \<Longrightarrow> 0 < space q \<Longrightarrow> content (put q c) = content q @ [c]"
    and inv_pop: "inv q \<Longrightarrow> inv (pop q)"
    and content_pop: "inv q \<Longrightarrow> content q \<noteq> [] \<Longrightarrow> content q = front q # content (pop q)"
begin

lemma space_put: "inv q \<Longrightarrow> 0 < space q \<Longrightarrow> space (put q c) = space q - 1"
  using space_content [of q] space_content [of "put q c"] inv_put [of q c] content_put [of q c]
  by simp

lemma length_content_le: "inv q \<Longrightarrow> length (content q) \<le> capacity"
  using space_content by fastforce

lemma put_list:
  "inv q \<Longrightarrow> length cs \<le> space q \<Longrightarrow>
     inv (foldl put q cs) \<and> content (foldl put q cs) = content q @ cs"
proof (induction cs arbitrary: q)
  case Nil
  then show ?case by simp
next
  case (Cons c cs)
  then have "0 < space q" by simp
  with Cons.prems have "inv (put q c)" and "length cs \<le> space (put q c)"
    by (simp_all add: inv_put space_put)
  from Cons.IH [OF this] Cons.prems \<open>0 < space q\<close> show ?case
    by (simp add: content_put)
qed

lemma pop_length: "inv q \<Longrightarrow> content q \<noteq> [] \<Longrightarrow> length (content (pop q)) < length (content q)"
  using content_pop [of q] by (metis length_Cons lessI)

end

section \<open>Byte stuffing: an escape byte is sent twice\<close>

text \<open>
  Both byte streams of the program that reserve a byte double it when it is data: telnet
  doubles IAC (0xFF), the CD2481 transmit stream with embedded commands doubles NUL.
\<close>

fun stuff :: "'a \<Rightarrow> 'a list \<Rightarrow> 'a list" where
  "stuff x [] = []"
| "stuff x (b # bs) = (if b = x then x # x # stuff x bs else b # stuff x bs)"

lemma stuff_append [simp]: "stuff x (as @ bs) = stuff x as @ stuff x bs"
  by (induction as) auto

lemma length_stuff: "length (stuff x bs) = length bs + count_list bs x"
  by (induction bs) auto

lemma stuff_id: "x \<notin> set bs \<Longrightarrow> stuff x bs = bs"
  by (induction bs) auto

locale stuffing =
  fixes esc :: "'a"
    and unstuff :: "'a list \<Rightarrow> 'a list"
  assumes unstuff_Nil: "unstuff [] = []"
    and unstuff_plain: "b \<noteq> esc \<Longrightarrow> unstuff (b # bs) = b # unstuff bs"
    and unstuff_pair: "unstuff (esc # esc # bs) = esc # unstuff bs"
begin

lemma unstuff_stuff: "unstuff (stuff esc bs) = bs"
  by (induction bs) (simp_all add: unstuff_Nil unstuff_plain unstuff_pair)

lemma unstuff_stuff_append: "unstuff (stuff esc bs @ cs) = bs @ unstuff cs"
  by (induction bs) (simp_all add: unstuff_plain unstuff_pair)

lemma stuff_inject: "stuff esc as = stuff esc bs \<longleftrightarrow> as = bs"
  by (metis unstuff_stuff)

end

section \<open>A bank of maskable sources\<close>

locale maskable =
  fixes enabled :: "'s \<Rightarrow> nat \<Rightarrow> bool"
    and mask_src :: "'s \<Rightarrow> nat \<Rightarrow> 's"
    and count :: nat
  assumes mask_src_enabled:
    "i < count \<Longrightarrow> j < count \<Longrightarrow> enabled (mask_src s i) j \<longleftrightarrow> enabled s j \<and> j \<noteq> i"
begin

definition sources_on :: "'s \<Rightarrow> nat set" where
  "sources_on s = {j. j < count \<and> enabled s j}"

lemma finite_sources_on [simp]: "finite (sources_on s)"
  by (simp add: sources_on_def)

lemma sources_on_mask: "i < count \<Longrightarrow> sources_on (mask_src s i) = sources_on s - {i}"
  by (auto simp: sources_on_def mask_src_enabled)

lemma masked_off: "i < count \<Longrightarrow> \<not> enabled (mask_src s i) i"
  by (simp add: mask_src_enabled)

lemma card_mask_less:
  "i < count \<Longrightarrow> enabled s i \<Longrightarrow> card (sources_on (mask_src s i)) < card (sources_on s)"
  unfolding sources_on_mask by (rule card_Diff1_less) (simp_all add: sources_on_def)

lemma card_sources_on_le: "card (sources_on s) \<le> count"
  using card_mono [of "{..<count}" "sources_on s"] by (auto simp: sources_on_def)

lemma mask_all:
  "set is \<subseteq> {..<count} \<Longrightarrow> sources_on (foldl mask_src s is) = sources_on s - set is"
  by (induction "is" arbitrary: s) (auto simp: sources_on_mask)

end

section \<open>A service routine drained by a polling loop\<close>

locale drained_service =
  fixes serve :: "'s \<Rightarrow> (bool \<times> 's) option"
    and good :: "'s \<Rightarrow> bool"
    and rel :: "'s \<Rightarrow> 's \<Rightarrow> bool"
  assumes serve_good: "good s \<Longrightarrow> serve s = Some (b, s') \<Longrightarrow> good s'"
    and serve_rel: "good s \<Longrightarrow> serve s = Some (b, s') \<Longrightarrow> rel s s'"
    and rel_refl: "rel s s"
    and rel_trans: "rel s t \<Longrightarrow> rel t u \<Longrightarrow> rel s u"
begin

text \<open>At most \<open>n\<close> services, until one finds nothing to do; the flag says whether any did.\<close>

fun drain :: "nat \<Rightarrow> 's \<Rightarrow> (bool \<times> 's) option" where
  "drain 0 s = Some (False, s)"
| "drain (Suc n) s = Option.bind (serve s) (\<lambda>(more, s).
     if \<not> more then Some (False, s) else Option.bind (drain n s) (\<lambda>(_, s). Some (True, s)))"

lemma drain_spec:
  assumes "drain n s = Some (b, s')" and "good s"
  shows "good s' \<and> rel s s'"
  using assms
proof (induction n arbitrary: s b)
  case 0
  then show ?case by (simp add: rel_refl)
next
  case (Suc n)
  from Suc.prems(1) obtain more s1 where r: "serve s = Some (more, s1)"
    by (cases "serve s") auto
  note S = serve_good [OF Suc.prems(2) r] serve_rel [OF Suc.prems(2) r]
  show ?case
  proof (cases more)
    case True
    with Suc.prems(1) r obtain b2 where "drain n s1 = Some (b2, s')"
      by (cases "drain n s1") auto
    from Suc.IH [OF this S(1)] S(2) show ?thesis using rel_trans by blast
  next
    case False
    with Suc.prems(1) r S show ?thesis by simp
  qed
qed

end

end
