(* ===== verification/Cd2481.thy ===== *)
theory Cd2481
  imports Prelude
begin

text \<open>
  The NM-32A card as the driver \<open>kernel/cisco2811/nm32a.c\<close> sees it: eight CD2481 register
  windows and a few card-level addresses in BAR0, reached by byte reads and writes.

  The card, the timer and the printk rate limiter are not code of the repository.  They are
  one parameter, a record of functions of the access history (newest event first): what a
  byte read of a BAR offset returns (\<open>None\<close>: the bus cycle never retires and the machine
  stops there), what \<open>jiffies\<close> reads, whether the rate limiter lets a message through.
  Every theorem that does not constrain the record holds for every behaviour of the hardware.

  The second half of the theory defines monitors: functions of the history that say which
  interrupt context the CD2481 is in, which channel its registers address, whether
  \<open>hw_lock\<close> is held, and whether each access of a history was legal when it was made.
\<close>

section \<open>Register addresses (Motorola column)\<close>

abbreviation (input) AIRL :: nat where "AIRL \<equiv> 0xF2"
abbreviation (input) AIRM :: nat where "AIRM \<equiv> 0xF3"
abbreviation (input) AIRH :: nat where "AIRH \<equiv> 0xF0"
abbreviation (input) MTCR :: nat where "MTCR \<equiv> 0xF1"
abbreviation (input) BTCR :: nat where "BTCR \<equiv> 0xF6"
abbreviation (input) GFRCR :: nat where "GFRCR \<equiv> 0x81"
abbreviation (input) CAR :: nat where "CAR \<equiv> 0xEE"
abbreviation (input) TPR :: nat where "TPR \<equiv> 0xDA"
abbreviation (input) RTPRh :: nat where "RTPRh \<equiv> 0x24"
abbreviation (input) RTPRl :: nat where "RTPRl \<equiv> 0x25"
abbreviation (input) CMR :: nat where "CMR \<equiv> 0x1B"
abbreviation (input) COR1 :: nat where "COR1 \<equiv> 0x10"
abbreviation (input) COR2 :: nat where "COR2 \<equiv> 0x17"
abbreviation (input) COR3 :: nat where "COR3 \<equiv> 0x16"
abbreviation (input) COR4 :: nat where "COR4 \<equiv> 0x15"
abbreviation (input) COR5 :: nat where "COR5 \<equiv> 0x14"
abbreviation (input) COR6 :: nat where "COR6 \<equiv> 0x18"
abbreviation (input) COR7 :: nat where "COR7 \<equiv> 0x07"
abbreviation (input) STCR :: nat where "STCR \<equiv> 0x12"
abbreviation (input) CCR :: nat where "CCR \<equiv> 0x13"
abbreviation (input) CSR :: nat where "CSR \<equiv> 0x1A"
abbreviation (input) LIVR :: nat where "LIVR \<equiv> 0x09"
abbreviation (input) IER :: nat where "IER \<equiv> 0x11"
abbreviation (input) TCOR :: nat where "TCOR \<equiv> 0xC0"
abbreviation (input) TBPR :: nat where "TBPR \<equiv> 0xC3"
abbreviation (input) RCOR :: nat where "RCOR \<equiv> 0xC8"
abbreviation (input) RBPR :: nat where "RBPR \<equiv> 0xCB"
abbreviation (input) DMR :: nat where "DMR \<equiv> 0xF6"
abbreviation (input) ARBADRU :: nat where "ARBADRU \<equiv> 0x40"
abbreviation (input) ARBADRL :: nat where "ARBADRL \<equiv> 0x42"
abbreviation (input) ARBCNT :: nat where "ARBCNT \<equiv> 0x4A"
abbreviation (input) ARBSTS :: nat where "ARBSTS \<equiv> 0x4F"
abbreviation (input) RPILR :: nat where "RPILR \<equiv> 0xE1"
abbreviation (input) TPILR :: nat where "TPILR \<equiv> 0xE0"
abbreviation (input) MPILR :: nat where "MPILR \<equiv> 0xE3"
abbreviation (input) STK :: nat where "STK \<equiv> 0xE2"
abbreviation (input) TISR :: nat where "TISR \<equiv> 0x8A"
abbreviation (input) TFTC :: nat where "TFTC \<equiv> 0x80"
abbreviation (input) RFOC :: nat where "RFOC \<equiv> 0x30"
abbreviation (input) RIR :: nat where "RIR \<equiv> 0xED"
abbreviation (input) RDR :: nat where "RDR \<equiv> 0xF8"
abbreviation (input) TDR :: nat where "TDR \<equiv> 0xF8"
abbreviation (input) RISRl :: nat where "RISRl \<equiv> 0x89"
abbreviation (input) MSVR_RTS :: nat where "MSVR_RTS \<equiv> 0xDE"
abbreviation (input) MSVR_DTR :: nat where "MSVR_DTR \<equiv> 0xDF"
abbreviation (input) TIR :: nat where "TIR \<equiv> 0xEC"
abbreviation (input) REOIR :: nat where "REOIR \<equiv> 0x84"
abbreviation (input) TEOIR :: nat where "TEOIR \<equiv> 0x85"
abbreviation (input) ATBADRU :: nat where "ATBADRU \<equiv> 0x50"
abbreviation (input) ATBADRL :: nat where "ATBADRL \<equiv> 0x52"
abbreviation (input) ATBCNT :: nat where "ATBCNT \<equiv> 0x5A"
abbreviation (input) ATBSTS :: nat where "ATBSTS \<equiv> 0x5F"

abbreviation (input) CCR_INITCH :: u8 where "CCR_INITCH \<equiv> 0x20"
abbreviation (input) CCR_RSTALL :: u8 where "CCR_RSTALL \<equiv> 0x10"
abbreviation (input) CCR_ENTX :: u8 where "CCR_ENTX \<equiv> 0x08"
abbreviation (input) CCR_ENRX :: u8 where "CCR_ENRX \<equiv> 0x02"

abbreviation (input) NM32A_CHIPS :: nat where "NM32A_CHIPS \<equiv> 8"
abbreviation (input) NM32A_PORTS_N :: nat where "NM32A_PORTS_N \<equiv> 32"
abbreviation (input) NM32A_PORTS :: nat where "NM32A_PORTS \<equiv> 0x800"
abbreviation (input) NM32A_CTL :: nat where "NM32A_CTL \<equiv> 0x812"

text \<open>The chip windows in BAR0 (IOS's own table, not a uniform stride).\<close>

definition chip_off :: "nat list" where
  "chip_off = [0x400, 0x500, 0x600, 0x700, 0x900, 0xA00, 0xB00, 0xC00]"

text \<open>An address of the card: a register of a chip, or a card-level BAR offset.\<close>

datatype addr = Reg nat nat | Bar nat

fun bar_offset :: "addr \<Rightarrow> nat" where
  "bar_offset (Reg chip reg) = chip_off ! chip + reg"
| "bar_offset (Bar a) = a"

text \<open>
  The windows are disjoint and leave the acknowledge addresses and the card registers
  alone: different registers of different chips are different bus addresses.
\<close>

lemma length_chip_off [simp]: "length chip_off = 8"
  by (simp add: chip_off_def)

lemma chip_off_mod: "c < 8 \<Longrightarrow> chip_off ! c mod 256 = 0"
  by (drule less_8_cases) (elim disjE, simp_all add: chip_off_def)

lemma distinct_chip_pages: "distinct (map (\<lambda>a. a div 256) chip_off)"
  by (simp add: chip_off_def)

lemma chip_off_div_inj: "c < 8 \<Longrightarrow> d < 8 \<Longrightarrow> chip_off ! c div 256 = chip_off ! d div 256 \<longleftrightarrow> c = d"
  using nth_eq_iff_index_eq [OF distinct_chip_pages, of c d] by simp

section \<open>Events and the environment\<close>

text \<open>
  \<open>Lk\<close>/\<open>Ulk\<close> are \<open>mutex_lock\<close>/\<open>mutex_unlock\<close> of \<open>hw_lock\<close>; \<open>Flip i bs\<close> is
  \<open>tty_insert_flip_string\<close> followed by \<open>tty_flip_buffer_push\<close> on port \<open>i\<close>; \<open>Udelay\<close>
  and \<open>Msleep\<close> are the waits of the poll thread.  \<open>Io\<close> is what only the bring-up tests do: bytes of the
  DMA scratch memory, half-words of the BAR, bytes of the I/O BAR, and the time read in microseconds.
\<close>

datatype hostev = DmaRd nat u8 | DmaWr nat u8 | BarRdW nat u16 | InB nat u8 | ClockUs int

datatype cev =
    RdB addr u8
  | WrB addr u8
  | Lk
  | Ulk
  | Flip nat "u8 list"
  | Udelay int
  | Msleep int
  | Io hostev

record hwenv =
  dev :: "cev list \<Rightarrow> nat \<Rightarrow> u8 option"
  jif :: "cev list \<Rightarrow> u32"
  lim :: "cev list \<Rightarrow> bool"
  hz :: nat

section \<open>Monitors over the history (newest event first)\<close>

fun hw_locked :: "cev list \<Rightarrow> bool" where
  "hw_locked [] = False"
| "hw_locked (Lk # h) = True"
| "hw_locked (Ulk # h) = False"
| "hw_locked (_ # h) = hw_locked h"

text \<open>
  The interrupt context.  An acknowledge cycle (a card-level read) grants a service; the
  chip then shows which one in RIR and TIR: receive reads \<open>(RIR & 0xC0) == 0x40\<close>,
  transmit \<open>(TIR & 0xC0) == 0x40\<close>, and bits 1:0 name the channel (datasheet 9.5.2.2,
  9.5.3.2, quoted at the code).  The end-of-interrupt write closes it.
\<close>

datatype ctx = NoCtx | RxCtx nat nat | TxCtx nat nat | RxEnd nat nat | TxEnd nat nat

fun end_ctx :: "ctx \<Rightarrow> ctx" where
  "end_ctx (RxCtx c ch) = RxEnd c ch"
| "end_ctx (TxCtx c ch) = TxEnd c ch"
| "end_ctx x = x"

fun grant :: "nat \<Rightarrow> u8 \<Rightarrow> u8 \<Rightarrow> ctx" where
  "grant c tir rir =
     (if rir AND 0xC0 = 0x40 then RxCtx c (unat (rir AND 3))
      else if tir AND 0xC0 = 0x40 then TxCtx c (unat (tir AND 3))
      else NoCtx)"

fun is_ack :: "cev \<Rightarrow> bool" where
  "is_ack (RdB (Bar a) v) = True"
| "is_ack _ = False"

fun reg_read :: "cev \<Rightarrow> (nat \<times> nat \<times> u8) option" where
  "reg_read (RdB (Reg c r) v) = Some (c, r, v)"
| "reg_read _ = None"

definition just_acked :: "nat \<Rightarrow> cev list \<Rightarrow> u8 option" where
  "just_acked c h = (case h of
     e1 # e2 # _ \<Rightarrow>
       (case reg_read e1 of
          Some (c', r, tir) \<Rightarrow> if c' = c \<and> r = TIR \<and> is_ack e2 then Some tir else None
        | None \<Rightarrow> None)
   | _ \<Rightarrow> None)"

fun open_ctx :: "cev list \<Rightarrow> ctx" where
  "open_ctx [] = NoCtx"
| "open_ctx (RdB (Reg c r) v # h) =
     (if r = RIR then
        (case just_acked c h of Some tir \<Rightarrow> grant c tir v | None \<Rightarrow> open_ctx h)
      else open_ctx h)"
| "open_ctx (WrB (Reg c r) v # h) =
     (if r = REOIR \<or> r = TEOIR then end_ctx (open_ctx h) else open_ctx h)"
| "open_ctx (_ # h) = open_ctx h"

text \<open>The channel that an access to a channel register of chip \<open>c\<close> reaches.\<close>

fun car_of :: "nat \<Rightarrow> cev list \<Rightarrow> nat option" where
  "car_of c [] = None"
| "car_of c (WrB (Reg c' r) v # h) =
     (if c' = c \<and> r = CAR then Some (unat (v AND 3)) else car_of c h)"
| "car_of c (_ # h) = car_of c h"

definition sel_chan :: "nat \<Rightarrow> cev list \<Rightarrow> nat option" where
  "sel_chan c h = (case open_ctx h of
     RxCtx c' ch \<Rightarrow> if c' = c then Some ch else car_of c h
   | TxCtx c' ch \<Rightarrow> if c' = c then Some ch else car_of c h
   | _ \<Rightarrow> car_of c h)"

text \<open>The last value written to channel register \<open>r\<close> of channel \<open>ch\<close> of chip \<open>c\<close>.\<close>

fun chan_reg :: "nat \<Rightarrow> nat \<Rightarrow> nat \<Rightarrow> cev list \<Rightarrow> u8 option" where
  "chan_reg c ch r [] = None"
| "chan_reg c ch r (WrB (Reg c' r') v # h) =
     (if c' = c \<and> r' = r \<and> sel_chan c h = Some ch then Some v else chan_reg c ch r h)"
| "chan_reg c ch r (_ # h) = chan_reg c ch r h"

text \<open>
  A request is confirmed when the last four accesses are two rounds of TIR, RIR reads of one
  chip and both rounds show a request (bit 7).
\<close>

definition confirmed :: "cev list \<Rightarrow> bool" where
  "confirmed h = (case map reg_read (take 4 h) of
     [Some (c1, r1, rirc), Some (c2, r2, tirc), Some (c3, r3, rir0), Some (c4, r4, tir0)] \<Rightarrow>
       c2 = c1 \<and> c3 = c1 \<and> c4 = c1 \<and> r1 = RIR \<and> r2 = TIR \<and> r3 = RIR \<and> r4 = TIR \<and>
       (tir0 OR rir0) AND (tirc OR rirc) AND 0x80 \<noteq> 0
   | _ \<Rightarrow> False)"

fun legal :: "cev \<Rightarrow> cev list \<Rightarrow> bool" where
  "legal (RdB (Reg c r) v) h =
     (hw_locked h \<and> (r = RDR \<longrightarrow> (\<exists>ch < 4. open_ctx h = RxCtx c ch)))"
| "legal (RdB (Bar a) v) h = (hw_locked h \<and> confirmed h)"
| "legal (WrB (Reg c r) v) h =
     (hw_locked h \<and>
      (r = TDR \<longrightarrow> (\<exists>ch < 4. open_ctx h = TxCtx c ch)) \<and>
      (r = REOIR \<longrightarrow> (\<exists>ch < 4. open_ctx h = RxCtx c ch \<or> open_ctx h = RxEnd c ch)) \<and>
      (r = TEOIR \<longrightarrow> (\<exists>ch < 4. open_ctx h = TxCtx c ch \<or> open_ctx h = TxEnd c ch)))"
| "legal (WrB (Bar a) v) h = False"
| "legal Lk h = (\<not> hw_locked h)"
| "legal Ulk h = (hw_locked h \<and> end_ctx (open_ctx h) = open_ctx h)"
| "legal _ h = True"

fun legal_log :: "cev list \<Rightarrow> bool" where
  "legal_log [] = True"
| "legal_log (e # h) = (legal e h \<and> legal_log h)"

text \<open>Bytes handed to the transmitter of one channel, oldest first.\<close>

fun tx_sent :: "nat \<Rightarrow> nat \<Rightarrow> cev list \<Rightarrow> u8 list" where
  "tx_sent c ch [] = []"
| "tx_sent c ch (WrB (Reg c' r) v # h) =
     (if c' = c \<and> r = TDR \<and> open_ctx h = TxCtx c ch then tx_sent c ch h @ [v]
      else tx_sent c ch h)"
| "tx_sent c ch (_ # h) = tx_sent c ch h"

text \<open>Bytes taken from the receiver of one channel, and bytes given to a tty, oldest first.\<close>

fun rx_taken :: "nat \<Rightarrow> nat \<Rightarrow> cev list \<Rightarrow> u8 list" where
  "rx_taken c ch [] = []"
| "rx_taken c ch (RdB (Reg c' r) v # h) =
     (if c' = c \<and> r = RDR \<and> open_ctx h = RxCtx c ch then rx_taken c ch h @ [v]
      else rx_taken c ch h)"
| "rx_taken c ch (_ # h) = rx_taken c ch h"

fun flipped :: "nat \<Rightarrow> cev list \<Rightarrow> u8 list" where
  "flipped i [] = []"
| "flipped i (Flip j bs # h) = (if j = i then flipped i h @ bs else flipped i h)"
| "flipped i (_ # h) = flipped i h"

lemma end_ctx_idem [simp]: "end_ctx (end_ctx x) = end_ctx x"
  by (cases x) auto

section \<open>Plain accesses\<close>

text \<open>
  Accesses that neither move data nor enter or leave a service, and the stretches of a log
  that consist of reads only.
\<close>

fun plain :: "cev \<Rightarrow> bool" where
  "plain (RdB (Reg c r) v) = (r \<noteq> RDR \<and> r \<noteq> RIR)"
| "plain (WrB (Reg c r) v) = (r \<noteq> TDR \<and> r \<noteq> REOIR \<and> r \<noteq> TEOIR)"
| "plain (Udelay d) = True"
| "plain (Msleep d) = True"
| "plain _ = False"

fun plain_read :: "nat \<Rightarrow> cev \<Rightarrow> bool" where
  "plain_read c (RdB (Reg c' r) v) = (c' = c \<and> r \<noteq> RDR \<and> r \<noteq> RIR)"
| "plain_read c _ = False"

lemma plain_read_plain: "plain_read c e \<Longrightarrow> plain e"
  by (induction c e rule: plain_read.induct) auto

lemma plain_reads_plain: "list_all (plain_read c) pre \<Longrightarrow> list_all plain pre"
  by (auto simp: list_all_iff intro: plain_read_plain)

lemma plain_event:
  assumes "plain e"
  shows "hw_locked (e # h) = hw_locked h" and "open_ctx (e # h) = open_ctx h"
    and "tx_sent c ch (e # h) = tx_sent c ch h" and "rx_taken c ch (e # h) = rx_taken c ch h"
    and "flipped i (e # h) = flipped i h" and "legal e h = (hw_locked h \<or> (\<exists>d. e = Udelay d \<or> e = Msleep d))"
  using assms by (induction e rule: plain.induct; simp)+

lemma plain_log:
  assumes "list_all plain pre"
  shows "hw_locked (pre @ h) = hw_locked h" and "open_ctx (pre @ h) = open_ctx h"
    and "tx_sent c ch (pre @ h) = tx_sent c ch h" and "rx_taken c ch (pre @ h) = rx_taken c ch h"
    and "flipped i (pre @ h) = flipped i h"
  using assms by (induction pre) (simp_all add: plain_event)

lemma plain_log_legal:
  assumes "list_all plain pre" and "hw_locked h"
  shows "legal_log (pre @ h) = legal_log h"
  using assms by (induction pre) (simp_all add: plain_event plain_log)

lemma reads_regs:
  assumes "list_all (plain_read c') pre"
  shows "car_of c (pre @ h) = car_of c h" and "sel_chan c (pre @ h) = sel_chan c h"
    and "chan_reg c ch r (pre @ h) = chan_reg c ch r h"
proof -
  have p: "list_all plain pre" using assms by (rule plain_reads_plain)
  show car: "car_of c (pre @ h) = car_of c h"
    using assms by (induction pre) (auto elim!: plain_read.elims)
  show "sel_chan c (pre @ h) = sel_chan c h"
    by (simp add: sel_chan_def plain_log(2) [OF p] car split: ctx.split)
  show "chan_reg c ch r (pre @ h) = chan_reg c ch r h"
    using assms by (induction pre) (auto elim!: plain_read.elims)
qed

text \<open>With no service open, the channel register file follows CAR.\<close>

lemma sel_chan_closed: "end_ctx (open_ctx h) = open_ctx h \<Longrightarrow> sel_chan c h = car_of c h"
  by (auto simp: sel_chan_def split: ctx.splits)

text \<open>A write to chip \<open>c\<close> while channel \<open>ch\<close> is selected, seen from the register file.\<close>

lemma chan_reg_write:
  "sel_chan c h = Some ch \<Longrightarrow> chan_reg c ch' r' (WrB (Reg c r) v # h) =
     (if ch' = ch \<and> r' = r then Some v else chan_reg c ch' r' h)"
  by auto

lemma sel_chan_write:
  "r \<noteq> CAR \<Longrightarrow> r \<noteq> REOIR \<Longrightarrow> r \<noteq> TEOIR \<Longrightarrow> sel_chan c (WrB (Reg c' r) v # h) = sel_chan c h"
  by (simp add: sel_chan_def split: ctx.split)

lemma sel_chan_car:
  "end_ctx (open_ctx h) = open_ctx h \<Longrightarrow> sel_chan c (WrB (Reg c CAR) v # h) = Some (unat (v AND 3))"
  by (auto simp: sel_chan_def split: ctx.splits)

text \<open>A stretch of writes to chip \<open>c\<close> that leaves CAR alone.\<close>

fun on_chip :: "nat \<Rightarrow> cev \<Rightarrow> bool" where
  "on_chip c (RdB (Reg c' r) v) = (c' = c)"
| "on_chip c (WrB (Reg c' r) v) = (c' = c \<and> r \<noteq> CAR)"
| "on_chip c _ = False"

lemma chan_regs_other:
  assumes "list_all plain pre" and "list_all (on_chip c) pre" and "sel_chan c h = Some ch"
  shows "sel_chan c (pre @ h) = Some ch \<and> (ch' \<noteq> ch \<longrightarrow> chan_reg c ch' r (pre @ h) = chan_reg c ch' r h)"
  using assms
proof (induction pre)
  case Nil
  then show ?case by simp
next
  case (Cons e pre)
  then have IH: "sel_chan c (pre @ h) = Some ch"
      "ch' \<noteq> ch \<longrightarrow> chan_reg c ch' r (pre @ h) = chan_reg c ch' r h"
    by simp_all
  from Cons.prems consider
      (rd) r1 v where "e = RdB (Reg c r1) v" "r1 \<noteq> RIR"
    | (wr) r1 v where "e = WrB (Reg c r1) v" "r1 \<noteq> CAR" "r1 \<noteq> REOIR" "r1 \<noteq> TEOIR"
    by (cases "(c, e)" rule: on_chip.cases) auto
  then show ?case
  proof cases
    case rd
    with IH show ?thesis by (simp add: sel_chan_def split: ctx.splits if_splits)
  next
    case wr
    with IH show ?thesis by (simp add: sel_chan_write)
  qed
qed

fun of_chip :: "nat \<Rightarrow> cev \<Rightarrow> bool" where
  "of_chip c (RdB (Reg c' r) v) = (c' = c)"
| "of_chip c (WrB (Reg c' r) v) = (c' = c)"
| "of_chip c _ = False"

lemma plain_read_of_chip: "plain_read c e \<Longrightarrow> plain e \<and> of_chip c e"
  by (induction c e rule: plain_read.induct) auto

lemma chan_regs_other_chip:
  assumes "list_all (of_chip c) pre" and "c' \<noteq> c"
  shows "car_of c' (pre @ h) = car_of c' h" and "chan_reg c' ch r (pre @ h) = chan_reg c' ch r h"
proof -
  show "car_of c' (pre @ h) = car_of c' h"
    using assms
  proof (induction pre)
    case (Cons e pre)
    then show ?case by (cases "(c, e)" rule: of_chip.cases) auto
  qed simp
  show "chan_reg c' ch r (pre @ h) = chan_reg c' ch r h"
    using assms
  proof (induction pre)
    case (Cons e pre)
    then show ?case by (cases "(c, e)" rule: of_chip.cases) auto
  qed simp
qed

definition closed :: "cev list \<Rightarrow> bool" where
  "closed h \<longleftrightarrow> end_ctx (open_ctx h) = open_ctx h"

lemma closed_plain: "list_all plain pre \<Longrightarrow> closed (pre @ h) = closed h"
  by (simp add: closed_def plain_log)

end
