(* ===== verification/Cd2481_Regs.thy ===== *)
theory Cd2481_Regs
  imports Cd2481
begin

text \<open>
  The register names of the CD2481, which the driver, the downloader and the loopback tool each spell out in a table of their own:
  the three tables agree, and in the card's address space every register of every chip has an address of
  its own, away from the acknowledge addresses and from the registers of the card.
\<close>

section \<open>The tables\<close>

text \<open>\<open>nm32a.c\<close>: download, global, per channel, DMA descriptors, interrupt service.\<close>

definition nm32a_registers :: "(string \<times> nat) list" where
  "nm32a_registers =
    [(''AIRL'', AIRL), (''AIRM'', AIRM), (''AIRH'', AIRH), (''MTCR'', MTCR), (''BTCR'', BTCR),
     (''GFRCR'', GFRCR), (''CAR'', CAR), (''TPR'', TPR), (''RTPRh'', RTPRh), (''RTPRl'', RTPRl),
     (''CMR'', CMR), (''COR1'', COR1), (''COR2'', COR2), (''COR3'', COR3), (''COR4'', COR4), (''COR5'', COR5),
     (''COR6'', COR6), (''COR7'', COR7), (''STCR'', STCR), (''CCR'', CCR), (''CSR'', CSR), (''LIVR'', LIVR),
     (''IER'', IER), (''TCOR'', TCOR), (''TBPR'', TBPR), (''RCOR'', RCOR), (''RBPR'', RBPR), (''DMR'', DMR),
     (''ARBADRU'', ARBADRU), (''ARBADRL'', ARBADRL), (''ARBCNT'', ARBCNT), (''ARBSTS'', ARBSTS),
     (''RPILR'', RPILR), (''TPILR'', TPILR), (''MPILR'', MPILR), (''STK'', STK), (''TISR'', TISR), (''TFTC'', TFTC),
     (''RFOC'', RFOC), (''RIR'', RIR), (''RDR'', RDR), (''TDR'', TDR), (''RISRl'', RISRl),
     (''MSVR_RTS'', MSVR_RTS), (''MSVR_DTR'', MSVR_DTR), (''TIR'', TIR), (''REOIR'', REOIR), (''TEOIR'', TEOIR),
     (''ATBADRU'', ATBADRU), (''ATBADRL'', ATBADRL), (''ATBCNT'', ATBCNT), (''ATBSTS'', ATBSTS)]"

text \<open>\<open>chan.c\<close>.\<close>

definition chan_registers :: "(string \<times> nat) list" where
  "chan_registers =
    [(''GFRCR'', 0x81), (''CAR'', 0xEE), (''TPR'', 0xDA), (''CMR'', 0x1B), (''COR1'', 0x10), (''COR2'', 0x17),
     (''COR3'', 0x16), (''COR4'', 0x15), (''COR5'', 0x14), (''CCR'', 0x13), (''CSR'', 0x1A), (''LIVR'', 0x09),
     (''IER'', 0x11), (''TCOR'', 0xC0), (''TBPR'', 0xC3), (''RCOR'', 0xC8), (''RBPR'', 0xCB), (''MSVR_RTS'', 0xDE),
     (''MSVR_DTR'', 0xDF), (''TDR'', 0xF8), (''RDR'', 0xF8), (''TFTC'', 0x80), (''RFOC'', 0x30), (''RIR'', 0xED),
     (''TIR'', 0xEC), (''RISRl'', 0x89), (''TISR'', 0x8A), (''REOIR'', 0x84), (''TEOIR'', 0x85)]"

text \<open>\<open>ucode.c\<close>, with its own copy of the chip windows.\<close>

definition ucode_registers :: "(string \<times> nat) list" where
  "ucode_registers =
    [(''AIRL'', 0xF2), (''AIRM'', 0xF3), (''AIRH'', 0xF0), (''MTCR'', 0xF1), (''BTCR'', 0xF6), (''GFRCR'', 0x81),
     (''CCR'', 0x13)]"

definition ucode_chip_off :: "nat list" where
  "ucode_chip_off = [0x400, 0x500, 0x600, 0x700, 0x900, 0xA00, 0xB00, 0xC00]"

definition chan_chip_off :: "nat list" where
  "chan_chip_off = [0x400, 0x500, 0x600, 0x700, 0x900, 0xA00, 0xB00, 0xC00]"

section \<open>One map\<close>

lemma tables_agree:
  "list_all (\<lambda>(n, a). map_of nm32a_registers n = Some a) (chan_registers @ ucode_registers) \<and>
   distinct (map fst nm32a_registers) \<and> ucode_chip_off = chip_off \<and> chan_chip_off = chip_off"
  by (simp add: nm32a_registers_def chan_registers_def ucode_registers_def ucode_chip_off_def chan_chip_off_def chip_off_def)

text \<open>Two names stand for one register in two places: the data register, and the one at 0xF6.\<close>

lemma register_aliases:
  "distinct (map snd (filter (\<lambda>(n, a). n \<noteq> ''DMR'' \<and> n \<noteq> ''TDR'') nm32a_registers)) \<and>
   map_of nm32a_registers ''DMR'' = map_of nm32a_registers ''BTCR'' \<and>
   map_of nm32a_registers ''TDR'' = map_of nm32a_registers ''RDR''"
  by (simp add: nm32a_registers_def)

lemma register_byte: "(n, a) \<in> set nm32a_registers \<Longrightarrow> a < 256"
proof -
  have "list_all (\<lambda>(n, a). a < 256) nm32a_registers" by (simp add: nm32a_registers_def)
  then show "(n, a) \<in> set nm32a_registers \<Longrightarrow> a < 256" by (auto simp: list_all_iff)
qed

lemma register_addresses:
  assumes "(n, a) \<in> set nm32a_registers" and "(m, b) \<in> set nm32a_registers" and "c < NM32A_CHIPS" and "d < NM32A_CHIPS"
  shows "bar_offset (Reg c a) = bar_offset (Reg d b) \<longleftrightarrow> c = d \<and> a = b"
    and "256 \<le> bar_offset (Reg c a)" and "bar_offset (Reg c a) < 0xD00"
    and "bar_offset (Reg c a) \<noteq> NM32A_PORTS" and "bar_offset (Reg c a) \<noteq> NM32A_CTL"
proof -
  have r: "a < 256" "b < 256" using assms(1,2) register_byte by blast+
  have p: "bar_offset (Reg e x) div 256 = chip_off ! e div 256" if "e < 8" "x < 256" for e x
    using chip_off_mod [OF that(1)] that(2) by (simp add: div_add1_eq)
  show "bar_offset (Reg c a) = bar_offset (Reg d b) \<longleftrightarrow> c = d \<and> a = b"
    using p [OF assms(3) r(1)] p [OF assms(4) r(2)] chip_off_div_inj [OF assms(3,4)] by auto
  have k: "chip_off ! c \<in> {0x400, 0x500, 0x600, 0x700, 0x900, 0xA00, 0xB00, 0xC00}"
    using assms(3) by (drule_tac less_8_cases) (elim disjE, simp_all add: chip_off_def)
  with r(1) show "256 \<le> bar_offset (Reg c a)" "bar_offset (Reg c a) < 0xD00"
    "bar_offset (Reg c a) \<noteq> NM32A_PORTS" "bar_offset (Reg c a) \<noteq> NM32A_CTL"
    by auto
qed

end
