(* ===== verification/Nm32a_State.thy ===== *)
theory Nm32a_State
  imports Cd2481
begin

text \<open>
  The state of the driver \<open>nm32a.c\<close>: one record per port (\<open>struct nm32a_port\<close>), the card
  (\<open>struct nm32a\<close>), the module parameters and the counters, and the log of card accesses.
  The bus operations \<open>crd\<close>, \<open>cwr\<close>, \<open>cwr16\<close> and the kernel services the driver calls
  (mutex, delays, tty flip buffer, jiffies) append to the log.

  Printing is not modelled, but the register reads that sit in the arguments of a message are
  (in the order they are written), including those behind the rate limiter.
\<close>

section \<open>Ports, parameters, card\<close>

abbreviation (input) NM32A_TXBUF :: nat where "NM32A_TXBUF \<equiv> 1024"

record nport =
  chip :: nat
  chan :: nat
  popen :: bool
  txb :: "u8 list"
  head :: u32
  tail :: u32
  err_win :: u32
  err_cnt :: u32
  rx_off :: bool

text \<open>Module parameters (C \<open>int\<close>s, written through sysfs).\<close>

record params =
  pilr :: int
  fsel :: int
  fbpr :: int
  frsel :: int
  frbpr :: int
  llm :: int
  rxthresh :: int
  polldelay :: int
  eoiretry :: int
  rdrus :: int
  burst :: int

definition default_params :: params where
  "default_params =
     \<lparr>pilr = 0, fsel = -1, fbpr = -1, frsel = -1, frbpr = -1, llm = 0, rxthresh = 1,
      polldelay = 50, eoiretry = 1, rdrus = 1, burst = 32\<rparr>"

record nm32a =
  hw :: hwenv
  par :: params
  evs :: "cev list"
  ports :: "nport list"
  trace :: int
  st_good :: u32
  st_bytes :: u32
  st_overrun :: u32
  st_break :: u32
  st_timeout :: u32
  st_misgrant :: u32
  st_nogrant :: u32

text \<open>\<open>&p->ports[chip * 4 + chan]\<close>, and its update in place.\<close>

abbreviation (input) pidx :: "nat \<Rightarrow> nat \<Rightarrow> nat" where "pidx c ch \<equiv> c * 4 + ch"

definition port :: "nat \<Rightarrow> nm32a \<Rightarrow> nport" where
  "port i s = ports s ! i"

definition set_port :: "nat \<Rightarrow> nport \<Rightarrow> nm32a \<Rightarrow> nm32a" where
  "set_port i np s = s\<lparr>ports := (ports s)[i := np]\<rparr>"

text \<open>The interrupt acknowledge addresses.\<close>

definition NM32A_ACK_TX :: "nm32a \<Rightarrow> nat" where
  "NM32A_ACK_TX s = (if pilr (par s) \<noteq> 0 then 0x001 else 0x000)"

definition NM32A_ACK_RX :: "nm32a \<Rightarrow> nat" where
  "NM32A_ACK_RX s = (if pilr (par s) \<noteq> 0 then 0x002 else 0x000)"

definition NM32A_ACK_MD :: "nm32a \<Rightarrow> nat" where
  "NM32A_ACK_MD s = (if pilr (par s) \<noteq> 0 then 0x003 else 0x000)"

section \<open>Bus and kernel services\<close>

definition ev :: "cev \<Rightarrow> nm32a \<Rightarrow> nm32a" where
  "ev e s = s\<lparr>evs := e # evs s\<rparr>"

definition rdb :: "addr \<Rightarrow> nm32a \<Rightarrow> (u8 \<times> nm32a) option" where
  "rdb a s = (case dev (hw s) (evs s) (bar_offset a) of
     None \<Rightarrow> None
   | Some v \<Rightarrow> Some (v, ev (RdB a v) s))"

definition crd :: "nat \<Rightarrow> nat \<Rightarrow> nm32a \<Rightarrow> (u8 \<times> nm32a) option" where
  "crd c reg s = rdb (Reg c reg) s"

definition cwr :: "nat \<Rightarrow> nat \<Rightarrow> u8 \<Rightarrow> nm32a \<Rightarrow> nm32a" where
  "cwr c reg v s = ev (WrB (Reg c reg) v) s"

definition cwr16 :: "nat \<Rightarrow> nat \<Rightarrow> u16 \<Rightarrow> nm32a \<Rightarrow> nm32a" where
  "cwr16 c reg v s = cwr c (reg + 1) (ucast (v AND 0xff)) (cwr c reg (ucast (drop_bit 8 v)) s)"

definition jiffies :: "nm32a \<Rightarrow> u32" where
  "jiffies s = jif (hw s) (evs s)"

definition ratelimit :: "nm32a \<Rightarrow> bool" where
  "ratelimit s = lim (hw s) (evs s)"

definition mutex_lock :: "nm32a \<Rightarrow> nm32a" where
  "mutex_lock s = ev Lk s"

definition mutex_unlock :: "nm32a \<Rightarrow> nm32a" where
  "mutex_unlock s = ev Ulk s"

definition tty_flip :: "nat \<Rightarrow> u8 list \<Rightarrow> nm32a \<Rightarrow> nm32a" where
  "tty_flip i bs s = ev (Flip i bs) s"

text \<open>Every read of the card retires.\<close>

definition responsive :: "hwenv \<Rightarrow> bool" where
  "responsive h \<longleftrightarrow> (\<forall>l a. dev h l a \<noteq> None)"

section \<open>Reasoning about the operations\<close>

lemma ev_fields [simp]:
  "evs (ev e s) = e # evs s" "ports (ev e s) = ports s" "hw (ev e s) = hw s"
  "par (ev e s) = par s" "trace (ev e s) = trace s"
  "st_good (ev e s) = st_good s" "st_bytes (ev e s) = st_bytes s"
  "st_overrun (ev e s) = st_overrun s" "st_break (ev e s) = st_break s"
  "st_timeout (ev e s) = st_timeout s" "st_misgrant (ev e s) = st_misgrant s"
  "st_nogrant (ev e s) = st_nogrant s"
  by (simp_all add: ev_def)

lemma rdb_Some [bus_simps]:
  "rdb a s = Some (v, s') \<longleftrightarrow>
     dev (hw s) (evs s) (bar_offset a) = Some v \<and> s' = ev (RdB a v) s"
  by (auto simp: rdb_def split: option.splits)

lemma crd_Some [bus_simps]:
  "crd c r s = Some (v, s') \<longleftrightarrow>
     dev (hw s) (evs s) (chip_off ! c + r) = Some v \<and> s' = ev (RdB (Reg c r) v) s"
  by (simp add: crd_def rdb_Some)

lemma rdb_responsive: "responsive (hw s) \<Longrightarrow> \<exists>v. rdb a s = Some (v, ev (RdB a v) s)"
  by (auto simp: rdb_def responsive_def split: option.splits)

lemma crd_responsive: "responsive (hw s) \<Longrightarrow> \<exists>v. crd c r s = Some (v, ev (RdB (Reg c r) v) s)"
  unfolding crd_def by (rule rdb_responsive)

lemmas wr_defs = cwr_def cwr16_def mutex_lock_def mutex_unlock_def tty_flip_def

lemma port_ev [simp]: "port i (ev e s) = port i s"
  by (simp add: port_def)

lemma set_port_fields [simp]:
  "evs (set_port i np s) = evs s" "hw (set_port i np s) = hw s" "par (set_port i np s) = par s"
  "trace (set_port i np s) = trace s"
  "ports (set_port i np s) = (ports s)[i := np]"
  by (simp_all add: set_port_def)

lemma port_set_port: "i < length (ports s) \<Longrightarrow> port j (set_port i np s) = (if i = j then np else port j s)"
  by (simp add: port_def set_port_def)

lemma port_set_same [simp]: "i < length (ports s) \<Longrightarrow> port i (set_port i np s) = np"
  by (simp add: port_set_port)

lemma port_set_other [simp]: "i \<noteq> j \<Longrightarrow> port j (set_port i np s) = port j s"
  by (simp add: port_def set_port_def)

lemma hw_locked_ev [mon_simps]:
  "hw_locked (Lk # h)" "\<not> hw_locked (Ulk # h)" "hw_locked (RdB a v # h) = hw_locked h"
  "hw_locked (WrB a v # h) = hw_locked h" "hw_locked (Flip i bs # h) = hw_locked h"
  "hw_locked (Udelay d # h) = hw_locked h" "hw_locked (Msleep d # h) = hw_locked h"
  by simp_all

section \<open>Operations that only append to the log\<close>

text \<open>\<open>grows P s s'\<close>: from \<open>s\<close> to \<open>s'\<close> only the log changed, by accesses that satisfy \<open>P\<close>.\<close>

definition grows :: "(cev \<Rightarrow> bool) \<Rightarrow> nm32a \<Rightarrow> nm32a \<Rightarrow> bool" where
  "grows P s s' \<longleftrightarrow> (\<exists>pre. s' = s\<lparr>evs := pre @ evs s\<rparr> \<and> list_all P pre)"

lemma growsE:
  assumes "grows P s s'"
  obtains pre where "evs s' = pre @ evs s" and "list_all P pre" and "s' = s\<lparr>evs := pre @ evs s\<rparr>"
  using assms by (auto simp: grows_def)

lemma grows_refl [simp, intro]: "grows P s s"
  unfolding grows_def by (rule exI [of _ "[]"]) simp

lemma grows_ev: "P e \<Longrightarrow> grows P s (ev e s)"
  unfolding grows_def by (rule exI [of _ "[e]"]) (simp add: ev_def)

lemma grows_trans [trans]: "grows P s t \<Longrightarrow> grows P t u \<Longrightarrow> grows P s u"
proof -
  assume "grows P s t" and "grows P t u"
  then obtain a b where "t = s\<lparr>evs := a @ evs s\<rparr>" "list_all P a"
      "u = t\<lparr>evs := b @ evs t\<rparr>" "list_all P b"
    by (auto simp: grows_def)
  then show ?thesis
    unfolding grows_def by (intro exI [of _ "b @ a"]) simp
qed

lemma grows_mono: "grows P s t \<Longrightarrow> (\<And>e. P e \<Longrightarrow> Q e) \<Longrightarrow> grows Q s t"
  by (auto simp: grows_def list_all_iff)

lemma grows_conj:
  assumes "grows P s t" and "grows Q s t"
  shows "grows (\<lambda>e. P e \<and> Q e) s t"
proof -
  obtain a where a: "evs t = a @ evs s" "list_all P a" "t = s\<lparr>evs := a @ evs s\<rparr>"
    using assms(1) by (rule growsE)
  obtain b where b: "evs t = b @ evs s" "list_all Q b"
    using assms(2) by (rule growsE)
  from a(1) b(1) have "a = b" by simp
  with a b show ?thesis
    unfolding grows_def by (auto simp: list_all_iff)
qed

lemma grows_crd: "crd c r s = Some (v, s') \<Longrightarrow> P (RdB (Reg c r) v) \<Longrightarrow> grows P s s'"
  by (auto simp: crd_Some intro: grows_ev)

lemma grows_cwr: "P (WrB (Reg c r) v) \<Longrightarrow> grows P s (cwr c r v s)"
  by (simp add: cwr_def grows_ev)

lemma grows_fields:
  assumes "grows P s s'"
  shows "ports s' = ports s" and "hw s' = hw s" and "par s' = par s" and "port i s' = port i s"
    and "trace s' = trace s"
  using assms by (auto simp: grows_def port_def)

lemma grows_plain_mon:
  assumes "grows plain s s'"
  shows "hw_locked (evs s') = hw_locked (evs s)" and "open_ctx (evs s') = open_ctx (evs s)"
    and "tx_sent c ch (evs s') = tx_sent c ch (evs s)"
    and "rx_taken c ch (evs s') = rx_taken c ch (evs s)"
    and "flipped i (evs s') = flipped i (evs s)"
    and "hw_locked (evs s) \<Longrightarrow> legal_log (evs s') = legal_log (evs s)"
  using assms by (auto elim!: growsE simp: plain_log plain_log_legal)

lemma grows_of_chip:
  assumes "grows (of_chip c) s s'" and "c' \<noteq> c"
  shows "chan_reg c' ch r (evs s') = chan_reg c' ch r (evs s)" and "car_of c' (evs s') = car_of c' (evs s)"
  using assms by (auto elim!: growsE simp: chan_regs_other_chip)

lemma grows_reads_mon:
  assumes "grows (plain_read c') s s'"
  shows "hw_locked (evs s') = hw_locked (evs s)" and "open_ctx (evs s') = open_ctx (evs s)"
    and "car_of c (evs s') = car_of c (evs s)" and "sel_chan c (evs s') = sel_chan c (evs s)"
    and "chan_reg c ch r (evs s') = chan_reg c ch r (evs s)"
  using assms by (auto elim!: growsE simp: reads_regs plain_log [OF plain_reads_plain])

section \<open>The card as probe allocates it\<close>

text \<open>\<open>devm_kzalloc\<close> in \<open>nm32a_probe\<close>.\<close>

definition zero_port :: nport where
  "zero_port = \<lparr>chip = 0, chan = 0, popen = False, txb = replicate 1024 0, head = 0, tail = 0,
     err_win = 0, err_cnt = 0, rx_off = False\<rparr>"

definition kzalloc_card :: "hwenv \<Rightarrow> params \<Rightarrow> nm32a" where
  "kzalloc_card h p = \<lparr>hw = h, par = p, evs = [], ports = replicate NM32A_PORTS_N zero_port, trace = 0,
     st_good = 0, st_bytes = 0, st_overrun = 0, st_break = 0, st_timeout = 0, st_misgrant = 0,
     st_nogrant = 0\<rparr>"

text \<open>
  A card for the concrete runs of the witnesses: channel 0 of chip 0 always asks to transmit, the
  acknowledge grants that, its transmit FIFO is always empty, and every channel command completes at
  once.  The clock advances with every access.
\<close>

definition demo_dev :: "cev list \<Rightarrow> nat \<Rightarrow> u8 option" where
  "demo_dev h a =
     Some (if a = 0x4EC then (case h of e # _ \<Rightarrow> if is_ack e then 0x40 else 0x80 | [] \<Rightarrow> 0x80)
           else if a = 0x480 then 16 else 0)"

definition demo_hw :: hwenv where
  "demo_hw = \<lparr>dev = demo_dev, jif = (\<lambda>h. word_of_nat (length h)), lim = (\<lambda>h. False), hz = 250\<rparr>"

lemma demo_crd:
  assumes "hw s = demo_hw"
  shows "crd 0 r s = Some (the (demo_dev (evs s) (0x400 + r)), ev (RdB (Reg 0 r) (the (demo_dev (evs s) (0x400 + r)))) s)"
    "rdb (Bar 0) s = Some (0, ev (RdB (Bar 0) 0) s)"
  using assms by (simp_all add: crd_def rdb_def demo_hw_def demo_dev_def chip_off_def)

lemma demo_fields [simp]:
  "hw (kzalloc_card h p) = h" "par (kzalloc_card h p) = p" "evs (kzalloc_card h p) = []"
  "length (ports (kzalloc_card h p)) = 32" "i < 32 \<Longrightarrow> port i (kzalloc_card h p) = zero_port"
  by (simp_all add: kzalloc_card_def port_def del: upt_rec_numeral)

end
