(* ===== verification/Nm32a_Ring.thy ===== *)
theory Nm32a_Ring
  imports Nm32a_State Interfaces
begin

text \<open>
  The transmit ring of a port (\<open>nm32a_tx_space\<close>, \<open>nm32a_tx_put\<close>) and the tty entry points
  that only touch the ring: \<open>nm32a_tty_write\<close>, \<open>nm32a_tty_write_room\<close>, \<open>nm32a_break_ctl\<close>.
  They run under the port's spinlock, so each is one atomic step.

  The ring refines a bounded FIFO of 1023 bytes (\<open>ring_content\<close>); it is an
  \<open>bounded_queue\<close> of the interfaces.
\<close>

section \<open>The ring\<close>

definition nm32a_tx_space :: "nport \<Rightarrow> u32" where
  "nm32a_tx_space np =
     (let used = (head np - tail np + 1024) mod 1024 in 1024 - 1 - used)"

definition nm32a_tx_put :: "nport \<Rightarrow> u8 \<Rightarrow> nport" where
  "nm32a_tx_put np c =
     np\<lparr>txb := (txb np)[unat (head np) := c], head := (head np + 1) mod 1024\<rparr>"

text \<open>The consumer side, in the transmit branch of the service routine.\<close>

definition tx_empty :: "nport \<Rightarrow> bool" where
  "tx_empty np \<longleftrightarrow> head np = tail np"

definition tx_front :: "nport \<Rightarrow> u8" where
  "tx_front np = txb np ! unat (tail np)"

definition tx_pop :: "nport \<Rightarrow> nport" where
  "tx_pop np = np\<lparr>tail := (tail np + 1) mod 1024\<rparr>"

section \<open>Entry points\<close>

text \<open>\<open>nm32a_tty_write\<close>: the loop over the caller's buffer, then the function.\<close>

fun tty_write_loop :: "nport \<Rightarrow> u8 list \<Rightarrow> nat \<times> nport" where
  "tty_write_loop np [] = (0, np)"
| "tty_write_loop np (b # bs) =
     (let need = (if b \<noteq> 0 then 1 else 2) in
      if nm32a_tx_space np < need then (0, np)
      else
        let np = nm32a_tx_put np b;
            np = (if b = 0 then nm32a_tx_put np 0x00 else np);
            (i, np) = tty_write_loop np bs
        in (Suc i, np))"

text \<open>\<open>tty->driver_data\<close> is the port's index, or \<open>None\<close> for NULL.\<close>

definition nm32a_tty_write :: "nat option \<Rightarrow> u8 list \<Rightarrow> nm32a \<Rightarrow> int \<times> nm32a" where
  "nm32a_tty_write dd buf s = (case dd of
     None \<Rightarrow> (- ENODEV, s)
   | Some i \<Rightarrow> (let (n, np) = tty_write_loop (port i s) buf in (int n, set_port i np s)))"

definition nm32a_tty_write_room :: "nat option \<Rightarrow> nm32a \<Rightarrow> u32" where
  "nm32a_tty_write_room dd s = (case dd of
     None \<Rightarrow> 0
   | Some i \<Rightarrow>
       (let np = port i s; used = (head np - tail np + 1024) mod 1024 in 1024 - 1 - used))"

definition break_put :: "nport \<Rightarrow> bool \<Rightarrow> nport" where
  "break_put np state =
     (if nm32a_tx_space np \<ge> 2
      then nm32a_tx_put (nm32a_tx_put np 0x00) (if state then 0x81 else 0x83)
      else np)"

definition nm32a_break_ctl :: "nat option \<Rightarrow> bool \<Rightarrow> nm32a \<Rightarrow> int \<times> nm32a" where
  "nm32a_break_ctl dd state s = (case dd of
     None \<Rightarrow> (- ENODEV, s)
   | Some i \<Rightarrow> (0, set_port i (break_put (port i s) state) s))"

section \<open>The ring as a FIFO\<close>

definition ring_inv :: "nport \<Rightarrow> bool" where
  "ring_inv np \<longleftrightarrow> length (txb np) = 1024 \<and> unat (head np) < 1024 \<and> unat (tail np) < 1024"

definition ring_used :: "nport \<Rightarrow> nat" where
  "ring_used np = (unat (head np) + 1024 - unat (tail np)) mod 1024"

definition ring_content :: "nport \<Rightarrow> u8 list" where
  "ring_content np = map (\<lambda>k. txb np ! ((unat (tail np) + k) mod 1024)) [0..<ring_used np]"

lemma length_ring_content [simp]: "length (ring_content np) = ring_used np"
  by (simp add: ring_content_def)

lemma ring_used_less: "ring_used np < 1024"
  by (simp add: ring_used_def)

lemma unat_mod_1024: "unat (x mod 1024 :: u32) = unat x mod 1024"
  by (simp add: unat_mod_distrib)

lemma unat_inc_mod:
  assumes "unat (x :: u32) < 1024"
  shows "unat ((x + 1) mod 1024) = (unat x + 1) mod 1024"
proof -
  have "unat (x + 1) = unat x + 1"
    using assms by (simp add: unat_word_ariths)
  then show ?thesis by (simp add: unat_mod_1024)
qed

lemma unat_used:
  assumes "unat (h :: u32) < 1024" and "unat t < 1024"
  shows "unat ((h - t + 1024) mod 1024) = (unat h + 1024 - unat t) mod 1024"
proof -
  have eq: "h - t + 1024 = (h + 1024) - t" by simp
  have h: "unat (h + 1024) = unat h + 1024"
    using assms by (simp add: unat_word_ariths)
  then have "t \<le> h + 1024"
    using assms by (simp add: word_le_nat_alt)
  then have "unat ((h + 1024) - t) = unat h + 1024 - unat t"
    by (simp add: unat_sub h)
  then show ?thesis by (simp only: eq unat_mod_1024)
qed

lemma unat_tx_space:
  assumes "ring_inv np"
  shows "unat (nm32a_tx_space np) = 1023 - ring_used np"
proof -
  let ?u = "(head np - tail np + 1024) mod 1024"
  have u: "unat ?u = ring_used np"
    using assms by (simp add: ring_inv_def ring_used_def unat_used)
  have "?u \<le> 1023"
    using ring_used_less [of np] u by (simp add: word_le_nat_alt)
  then have "unat (1023 - ?u) = 1023 - unat ?u"
    by (simp add: unat_sub)
  then show ?thesis
    by (simp add: nm32a_tx_space_def Let_def u)
qed

lemma ring_used_cases:
  assumes "ring_inv np"
  shows "ring_used np = (if unat (tail np) \<le> unat (head np) then unat (head np) - unat (tail np)
           else unat (head np) + 1024 - unat (tail np))"
  using assms by (auto simp: ring_inv_def ring_used_def mod_1024_cases)

lemma ring_slot_head:
  assumes "ring_inv np"
  shows "(unat (tail np) + ring_used np) mod 1024 = unat (head np)"
  using assms by (auto simp: ring_used_cases ring_inv_def mod_1024_cases)

lemma ring_slot_not_head:
  assumes "ring_inv np" and "k < ring_used np"
  shows "(unat (tail np) + k) mod 1024 \<noteq> unat (head np)"
  using assms by (auto simp: ring_used_cases ring_inv_def mod_1024_cases split: if_splits)

lemma ring_inv_put [simp]: "ring_inv np \<Longrightarrow> ring_inv (nm32a_tx_put np c)"
  by (simp add: ring_inv_def nm32a_tx_put_def unat_inc_mod)

lemma ring_inv_pop [simp]: "ring_inv np \<Longrightarrow> ring_inv (tx_pop np)"
  by (simp add: ring_inv_def tx_pop_def unat_inc_mod)

lemma ring_used_put:
  assumes "ring_inv np" and "ring_used np < 1023"
  shows "ring_used (nm32a_tx_put np c) = Suc (ring_used np)"
proof -
  let ?h = "unat (head np)" and ?t = "unat (tail np)"
  have lt: "?h < 1024" "?t < 1024" and h': "unat (head (nm32a_tx_put np c)) = (?h + 1) mod 1024"
    using assms(1) by (simp_all add: ring_inv_def nm32a_tx_put_def unat_inc_mod)
  have t': "tail (nm32a_tx_put np c) = tail np" by (simp add: nm32a_tx_put_def)
  have "((?h + 1) mod 1024 + 1024 - ?t) mod 1024 = Suc ((?h + 1024 - ?t) mod 1024)"
    using lt assms(2) unfolding ring_used_def by (cases "?h = 1023") (simp_all add: mod_1024_cases split: if_splits, arith+)
  then show ?thesis by (simp add: ring_used_def h' t')
qed

lemma ring_content_put:
  assumes "ring_inv np" and "ring_used np < 1023"
  shows "ring_content (nm32a_tx_put np c) = ring_content np @ [c]"
proof -
  let ?slot = "\<lambda>k. (unat (tail np) + k) mod 1024"
  have old: "(txb np)[unat (head np) := c] ! ?slot k = txb np ! ?slot k" if "k < ring_used np" for k
    using ring_slot_not_head [OF assms(1) that] by (metis nth_list_update_neq)
  have new: "(txb np)[unat (head np) := c] ! ?slot (ring_used np) = c"
    using assms(1) ring_slot_head [OF assms(1)] by (simp add: ring_inv_def)
  have "ring_content (nm32a_tx_put np c) =
      map (\<lambda>k. (txb np)[unat (head np) := c] ! ?slot k) ([0..<ring_used np] @ [ring_used np])"
    by (simp add: ring_content_def ring_used_put [OF assms]) (simp add: nm32a_tx_put_def)
  also have "\<dots> = ring_content np @ [c]"
    by (simp add: ring_content_def new old)
  finally show ?thesis .
qed

lemma ring_empty_iff: "ring_inv np \<Longrightarrow> tx_empty np \<longleftrightarrow> ring_used np = 0"
  by (auto simp: tx_empty_def ring_used_cases ring_inv_def unsigned_word_eqI split: if_splits)

lemma ring_used_pop:
  assumes "ring_inv np" and "0 < ring_used np"
  shows "ring_used np = Suc (ring_used (tx_pop np))"
proof -
  let ?h = "unat (head np)" and ?t = "unat (tail np)"
  have lt: "?h < 1024" "?t < 1024" and t': "unat (tail (tx_pop np)) = (?t + 1) mod 1024"
    using assms(1) by (simp_all add: ring_inv_def tx_pop_def unat_inc_mod)
  have h': "head (tx_pop np) = head np" by (simp add: tx_pop_def)
  have "(?h + 1024 - ?t) mod 1024 = Suc ((?h + 1024 - (?t + 1) mod 1024) mod 1024)"
    using lt assms(2) unfolding ring_used_def by (cases "?t = 1023") (simp_all add: mod_1024_cases split: if_splits, arith+)
  then show ?thesis by (simp add: ring_used_def h' t')
qed

lemma ring_content_pop:
  assumes "ring_inv np" and "0 < ring_used np"
  shows "ring_content np = tx_front np # ring_content (tx_pop np)"
proof -
  have "ring_content np =
      map (\<lambda>k. txb np ! ((unat (tail np) + k) mod 1024)) (0 # map Suc [0..<ring_used (tx_pop np)])"
    using ring_used_pop [OF assms] 
    by (simp add: ring_content_def upt_conv_Cons map_Suc_upt del: upt_Suc)
  also have "\<dots> = tx_front np # ring_content (tx_pop np)"
    using assms(1)
    by (simp add: ring_content_def tx_front_def tx_pop_def ring_inv_def unat_inc_mod mod_simps)
  finally show ?thesis .
qed

text \<open>The ring meets the queue contract.\<close>

interpretation rq: bounded_queue ring_inv ring_content "\<lambda>np. 1023 - ring_used np"
  nm32a_tx_put tx_front tx_pop 1023
proof unfold_locales
  fix np c
  assume inv: "ring_inv np"
  show "1023 - ring_used np + length (ring_content np) = 1023"
    using ring_used_less [of np] by simp
  show "ring_inv (nm32a_tx_put np c)" and "ring_inv (tx_pop np)"
    using inv by simp_all
  show "ring_content (nm32a_tx_put np c) = ring_content np @ [c]" if "0 < 1023 - ring_used np"
    using inv that by (simp add: ring_content_put)
  show "ring_content np = tx_front np # ring_content (tx_pop np)" if "ring_content np \<noteq> []"
    using ring_content_pop [OF inv] that by (metis length_greater_0_conv length_ring_content)
qed

section \<open>What the writers do to the FIFO\<close>

text \<open>The bytes one character of the caller becomes: NUL is sent as an escape pair.\<close>

definition etc_enc :: "u8 \<Rightarrow> u8 list" where
  "etc_enc b = stuff 0 [b]"

lemma stuff_Cons_enc: "stuff 0 (b # bs) = etc_enc b @ stuff 0 bs"
  by (simp add: etc_enc_def)

definition need :: "u8 \<Rightarrow> nat" where
  "need b = (if b \<noteq> 0 then 1 else 2)"

lemma length_etc_enc [simp]: "length (etc_enc b) = need b"
  by (simp add: etc_enc_def need_def)

definition put_char :: "nport \<Rightarrow> u8 \<Rightarrow> nport" where
  "put_char np b = foldl nm32a_tx_put np (etc_enc b)"

lemma space_less_need:
  "ring_inv np \<Longrightarrow>
     nm32a_tx_space np < (if b \<noteq> 0 then 1 else 2) \<longleftrightarrow> 1023 - ring_used np < need b"
  by (simp add: word_less_nat_alt unat_tx_space need_def)

lemma tty_write_loop_Cons:
  assumes "ring_inv np"
  shows "tty_write_loop np (b # bs) =
    (if 1023 - ring_used np < need b then (0, np)
     else (let (i, np') = tty_write_loop (put_char np b) bs in (Suc i, np')))"
  using space_less_need [OF assms, of b]
  by (simp add: Let_def put_char_def etc_enc_def case_prod_unfold)

lemma put_char_content:
  assumes "ring_inv np" and "need b \<le> 1023 - ring_used np"
  shows "ring_inv (put_char np b)" and "ring_content (put_char np b) = ring_content np @ etc_enc b"
  using rq.put_list [of np "etc_enc b"] assms by (simp_all add: put_char_def)

lemma tty_write_loop_spec:
  assumes "ring_inv np" and "tty_write_loop np bs = (n, np')"
  shows "ring_inv np' \<and> n \<le> length bs \<and>
     ring_content np' = ring_content np @ stuff 0 (take n bs) \<and>
     (n < length bs \<longrightarrow> 1023 - ring_used np' < need (bs ! n)) \<and>
     np'\<lparr>txb := txb np, head := head np\<rparr> = np"
  using assms
proof (induction bs arbitrary: np n)
  case Nil
  then show ?case by simp
next
  case (Cons b bs)
  show ?case
  proof (cases "1023 - ring_used np < need b")
    case True
    with Cons.prems tty_write_loop_Cons [OF Cons.prems(1), of b bs] show ?thesis by simp
  next
    case False
    then have c: "ring_inv (put_char np b)" "ring_content (put_char np b) = ring_content np @ etc_enc b"
      using put_char_content Cons.prems(1) by simp_all
    from False Cons.prems tty_write_loop_Cons [OF Cons.prems(1), of b bs] obtain m
      where m: "tty_write_loop (put_char np b) bs = (m, np')" "n = Suc m"
      by (auto simp: Let_def split: prod.splits)
    have f: "(put_char np b)\<lparr>txb := txb np, head := head np\<rparr> = np"
      by (cases np) (simp add: put_char_def etc_enc_def nm32a_tx_put_def)
    have "np'\<lparr>txb := txb np, head := head np\<rparr> =
        (np'\<lparr>txb := txb (put_char np b), head := head (put_char np b)\<rparr>)\<lparr>txb := txb np, head := head np\<rparr>"
      by simp
    with Cons.IH [OF c(1) m(1)] c(2) m(2) f show ?thesis
      by (auto simp: stuff_Cons_enc simp del: stuff.simps)
  qed
qed

section \<open>The embedded-command stream\<close>

text \<open>
  With embedded transmit commands (COR2 bit 5) the chip reads \<open>00 00\<close> as a NUL and
  \<open>00 c\<close> as command \<open>c\<close>.  \<open>etc_parse\<close> splits a byte stream into characters and commands;
  it fails on half an escape.  \<open>etc_chars\<close> keeps the characters.
\<close>

datatype tx_item = Ch u8 | Cmd u8

fun etc_parse :: "u8 list \<Rightarrow> tx_item list option" where
  "etc_parse [] = Some []"
| "etc_parse [b] = (if b = 0 then None else Some [Ch b])"
| "etc_parse (b # c # bs) =
     (if b \<noteq> 0 then map_option (Cons (Ch b)) (etc_parse (c # bs))
      else map_option (Cons (if c = 0 then Ch 0 else Cmd c)) (etc_parse bs))"

fun etc_chars :: "u8 list \<Rightarrow> u8 list" where
  "etc_chars [] = []"
| "etc_chars [b] = (if b = 0 then [] else [b])"
| "etc_chars (b # c # bs) =
     (if b \<noteq> 0 then b # etc_chars (c # bs)
      else if c = 0 then 0 # etc_chars bs else etc_chars bs)"

interpretation etc: stuffing "0 :: u8" etc_chars
proof unfold_locales
  show "etc_chars (b # bs) = b # etc_chars bs" if "b \<noteq> 0" for b bs
    using that by (cases bs) simp_all
qed simp_all

lemma etc_parse_plain: "b \<noteq> 0 \<Longrightarrow> etc_parse (b # bs) = map_option (Cons (Ch b)) (etc_parse bs)"
  by (cases bs) simp_all

lemma etc_parse_append:
  "etc_parse as = Some xs \<Longrightarrow> etc_parse (as @ bs) = map_option ((@) xs) (etc_parse bs)"
proof (cases "etc_parse bs")
  case None
  assume "etc_parse as = Some xs"
  with None show ?thesis
    by (induction as arbitrary: xs rule: etc_parse.induct) (auto simp: etc_parse_plain split: if_splits)
next
  case (Some ys)
  assume "etc_parse as = Some xs"
  with Some show ?thesis
    by (induction as arbitrary: xs rule: etc_parse.induct) (auto simp: etc_parse_plain split: if_splits)
qed

lemma etc_parse_stuff: "etc_parse (stuff 0 bs) = Some (map Ch bs)"
  by (induction bs) (simp_all add: etc_parse_plain)

lemma etc_parse_cmd: "c \<noteq> 0 \<Longrightarrow> etc_parse [0, c] = Some [Cmd c]"
  by simp

section \<open>Properties of the ring\<close>

lemma tty_write_fifo:
  assumes "i < length (ports s)" and "ring_inv (port i s)"
    and "nm32a_tty_write (Some i) buf s = (r, s')"
  shows "\<exists>n \<le> length buf. r = int n \<and> ring_inv (port i s') \<and>
    ring_content (port i s') = ring_content (port i s) @ stuff 0 (take n buf) \<and>
    (n < length buf \<longrightarrow> 1023 - ring_used (port i s') < need (buf ! n)) \<and>
    (\<forall>j. j \<noteq> i \<longrightarrow> port j s' = port j s) \<and> evs s' = evs s"
proof -
  obtain n np where l: "tty_write_loop (port i s) buf = (n, np)" by fastforce
  with assms have "r = int n" and s': "s' = set_port i np s"
    by (simp_all add: nm32a_tty_write_def)
  moreover have "port i s' = np"
    using s' assms(1) by simp
  ultimately show ?thesis
    using tty_write_loop_spec [OF assms(2) l] s' by auto
qed

lemma ring_zero: "ring_inv zero_port" "ring_content zero_port = []"
  by (simp_all add: ring_inv_def zero_port_def ring_content_def ring_used_def)

text \<open>C9. Writing to a tty appends to the port's FIFO exactly the accepted prefix of the caller's
  buffer, each NUL as an escape pair; the count returned is the length of that prefix; it stops
  only at a character that does not fit; the ring stays well formed; no other port and no
  register of the card is touched.\<close>

theorem tty_write_refines_fifo:
  assumes "i < length (ports s)" and "ring_inv (port i s)"
    and "nm32a_tty_write (Some i) buf s = (r, s')"
  shows "\<exists>n \<le> length buf. r = int n \<and> ring_inv (port i s') \<and>
    ring_content (port i s') = ring_content (port i s) @ stuff 0 (take n buf) \<and>
    (n < length buf \<longrightarrow> 1023 - ring_used (port i s') < need (buf ! n)) \<and>
    (\<forall>j. j \<noteq> i \<longrightarrow> port j s' = port j s) \<and> evs s' = evs s"
  using tty_write_fifo [OF assms] .

theorem tty_write_refines_fifo_witness:
  "\<exists>r s'. nm32a_tty_write (Some 3) [0x41, 0x00] (kzalloc_card demo_hw default_params) = (r, s') \<and>
     (\<exists>n \<le> 2. r = int n \<and> ring_content (port 3 s') = stuff 0 (take n [0x41, 0x00]))"
proof -
  let ?s = "kzalloc_card demo_hw default_params"
  obtain r s' where w: "nm32a_tty_write (Some 3) [0x41, 0x00] ?s = (r, s')" by fastforce
  from tty_write_refines_fifo [OF _ _ w] ring_zero w show ?thesis
    by (auto simp del: stuff.simps take_Cons')
qed

lemma break_put_spec:
  assumes "ring_inv np"
  shows "ring_inv (break_put np st) \<and> ring_content (break_put np st) =
    (if ring_used np \<le> 1021 then ring_content np @ [0, if st then 0x81 else 0x83] else ring_content np)"
proof -
  have c: "nm32a_tx_space np \<ge> 2 \<longleftrightarrow> ring_used np \<le> 1021"
    using ring_used_less [of np] by (simp add: word_le_nat_alt unat_tx_space [OF assms]) arith
  show ?thesis
    using rq.put_list [OF assms, of "[0, if st then 0x81 else 0x83]"] assms
    by (simp add: break_put_def c)
qed

datatype ring_op = WriteOp "u8 list" | BreakOp bool

fun ring_op_step :: "nport \<Rightarrow> ring_op \<Rightarrow> tx_item list \<times> nport" where
  "ring_op_step np (WriteOp bs) = (let (n, np') = tty_write_loop np bs in (map Ch (take n bs), np'))"
| "ring_op_step np (BreakOp st) =
     (if nm32a_tx_space np \<ge> 2 then [Cmd (if st then 0x81 else 0x83)] else [], break_put np st)"

fun ring_ops :: "nport \<Rightarrow> ring_op list \<Rightarrow> tx_item list \<times> nport" where
  "ring_ops np [] = ([], np)"
| "ring_ops np (x # xs) =
     (let (as, np1) = ring_op_step np x; (bs, np2) = ring_ops np1 xs in (as @ bs, np2))"

lemma ring_op_step_parse:
  assumes "ring_inv np" and "etc_parse (ring_content np) = Some xs" and "ring_op_step np x = (as, np')"
  shows "ring_inv np' \<and> etc_parse (ring_content np') = Some (xs @ as)"
proof (cases x)
  case (WriteOp bs)
  with assms obtain n where "tty_write_loop np bs = (n, np')" and "as = map Ch (take n bs)"
    by (auto split: prod.splits)
  with tty_write_loop_spec [OF assms(1)] etc_parse_append [OF assms(2)] show ?thesis
    by (auto simp: etc_parse_stuff)
next
  case (BreakOp st)
  have c: "nm32a_tx_space np \<ge> 2 \<longleftrightarrow> ring_used np \<le> 1021"
    using ring_used_less [of np] by (simp add: word_le_nat_alt unat_tx_space [OF assms(1)]) arith
  show ?thesis
    using BreakOp assms break_put_spec [OF assms(1), of st] etc_parse_append [OF assms(2)]
    by (auto simp: c etc_parse_cmd split: if_splits)
qed

text \<open>C10. Escapes are never split: whatever writes and breaks a port takes, its FIFO is a complete
  embedded-command stream; it decodes to the accepted characters and whole break commands.\<close>

theorem escapes_never_split:
  assumes "ring_inv np" and "etc_parse (ring_content np) = Some xs" and "ring_ops np ops = (as, np')"
  shows "ring_inv np' \<and> etc_parse (ring_content np') = Some (xs @ as)"
  using assms
proof (induction ops arbitrary: np xs as)
  case Nil
  then show ?case by simp
next
  case (Cons x ops)
  obtain bs np1 where st: "ring_op_step np x = (bs, np1)" by fastforce
  obtain cs np2 where rs: "ring_ops np1 ops = (cs, np2)" by fastforce
  have "ring_inv np1 \<and> etc_parse (ring_content np1) = Some (xs @ bs)"
    using ring_op_step_parse [OF Cons.prems(1,2) st] .
  with Cons.IH [of np1 "xs @ bs" cs] Cons.prems(3) st rs show ?case by simp
qed

theorem escapes_never_split_witness:
  "\<exists>np. ring_ops zero_port [WriteOp [0x41, 0x00], BreakOp True] =
       ([Ch 0x41, Ch 0x00, Cmd 0x81], np) \<and>
     etc_parse (ring_content np) = Some [Ch 0x41, Ch 0x00, Cmd 0x81]"
proof -
  have "\<exists>np. ring_ops zero_port [WriteOp [0x41, 0x00], BreakOp True] = ([Ch 0x41, Ch 0x00, Cmd 0x81], np)"
    by (simp add: Let_def nm32a_tx_space_def nm32a_tx_put_def zero_port_def word_le_nat_alt word_less_nat_alt)
  then obtain np where r: "ring_ops zero_port [WriteOp [0x41, 0x00], BreakOp True] =
      ([Ch 0x41, Ch 0x00, Cmd 0x81], np)" by blast
  from escapes_never_split [OF ring_zero(1) _ r, of "[]"] r show ?thesis by (simp add: ring_zero)
qed

text \<open>The write room the driver reports is the free space of the FIFO; a buffer without NULs of
  that length is accepted whole.\<close>

theorem write_room_accepted:
  assumes "i < length (ports s)" and "ring_inv (port i s)" and "0 \<notin> set buf"
    and "length buf \<le> unat (nm32a_tty_write_room (Some i) s)"
  shows "fst (nm32a_tty_write (Some i) buf s) = int (length buf)"
proof -
  obtain r s' where w: "nm32a_tty_write (Some i) buf s = (r, s')" by fastforce
  have room: "unat (nm32a_tty_write_room (Some i) s) = 1023 - ring_used (port i s)"
    using unat_tx_space [OF assms(2)]
    by (simp add: nm32a_tty_write_room_def nm32a_tx_space_def Let_def)
  from tty_write_fifo [OF assms(1,2) w] obtain n where n: "n \<le> length buf" "r = int n"
    and c: "ring_content (port i s') = ring_content (port i s) @ stuff 0 (take n buf)"
    and stop: "n < length buf \<longrightarrow> 1023 - ring_used (port i s') < need (buf ! n)"
    by blast
  have "0 \<notin> set (take n buf)"
    using assms(3) by (meson in_set_takeD)
  then have u: "ring_used (port i s') = ring_used (port i s) + n"
    using arg_cong [OF c, of length] n by (simp add: stuff_id)
  have "n = length buf"
  proof (rule ccontr)
    assume "n \<noteq> length buf"
    then have lt: "n < length buf" using n by simp
    then have "buf ! n \<noteq> 0" using assms(3) by (metis nth_mem)
    with stop lt have "1023 \<le> ring_used (port i s')" by (simp add: need_def)
    with u room assms(4) lt show False by simp
  qed
  with n w show ?thesis by simp
qed

theorem write_room_accepted_witness:
  "fst (nm32a_tty_write (Some 0) [0x41, 0x42] (kzalloc_card demo_hw default_params)) = 2"
proof -
  have "length [0x41, 0x42 :: u8] \<le> unat (nm32a_tty_write_room (Some 0) (kzalloc_card demo_hw default_params))"
    by (simp add: nm32a_tty_write_room_def zero_port_def)
  from write_room_accepted [OF _ _ _ this] ring_zero show ?thesis by simp
qed

end
