(* ===== verification/Nm32a_Chan.thy ===== *)
theory Nm32a_Chan
  imports Nm32a_Ring
begin

text \<open>
  Channel bring-up and the tty entry points that talk to the card: the bounded wait for a
  channel command (\<open>ccr_wait\<close>), bit rates (\<open>nm32a_baud\<close>, \<open>nm32a_set_rate\<close>),
  \<open>nm32a_chan_init\<close>, \<open>nm32a_arm_tx\<close>, modem control, \<open>nm32a_port_activate\<close>,
  \<open>nm32a_port_shutdown\<close>, \<open>nm32a_dtr_rts\<close> and \<open>nm32a_tty_set_termios\<close>.
\<close>

section \<open>Waiting for a channel command\<close>

text \<open>
  \<open>do { if (crd (CCR) == 0) return 0; cond_resched (); } while (time_before (jiffies, end))\<close>.
  The loop ends when the chip answers or the clock passes \<open>end\<close>; nothing in the code bounds
  the number of reads, so the model is partial and its termination is a theorem about the clock.
\<close>

partial_function (option) ccr_poll :: "nat \<Rightarrow> u32 \<Rightarrow> nm32a \<Rightarrow> (bool \<times> nm32a) option" where
  "ccr_poll c end s = do {
     (v, s) \<leftarrow> crd c CCR s;
     if v = 0 then Some (True, s)
     else if time_before (jiffies s) end then ccr_poll c end s
     else Some (False, s)
   }"

definition CCR_WAIT_MS :: nat where "CCR_WAIT_MS = 250"

definition msecs_to_jiffies :: "nat \<Rightarrow> nat \<Rightarrow> u32" where
  "msecs_to_jiffies h m = word_of_nat ((m * h + 999) div 1000)"

definition ccr_wait :: "nat \<Rightarrow> nm32a \<Rightarrow> (int \<times> nm32a) option" where
  "ccr_wait c s = do {
     let end = jiffies s + msecs_to_jiffies (hz (hw s)) CCR_WAIT_MS;
     (ok, s) \<leftarrow> ccr_poll c end s;
     if ok then Some (0, s)
     else if ratelimit s then do {
       (_, s) \<leftarrow> crd c CCR s;
       (_, s) \<leftarrow> crd c GFRCR s;
       Some (- ETIMEDOUT, s)
     } else Some (- ETIMEDOUT, s)
   }"

section \<open>Bit rates\<close>

definition TCOR_CLK :: "u8 \<Rightarrow> u8" where "TCOR_CLK sel = push_bit 5 sel"
definition RCOR_CLK :: "u8 \<Rightarrow> u8" where "RCOR_CLK sel = sel"
abbreviation (input) TCOR_LLM :: u8 where "TCOR_LLM \<equiv> 0x02"

definition nm32a_baud :: "(nat \<times> u8 \<times> u8) list" where
  "nm32a_baud =
     [(  1200, 2, 0xe3), (  2400, 2, 0x71), (  4800, 1, 0xe3),
      (  9600, 1, 0x71), ( 19200, 1, 0x38), ( 38400, 0, 0x71),
      ( 57600, 0, 0x4b), (115200, 0, 0x25)]"

text \<open>The search loop: the first entry of the rate, else entry 3 (9600).\<close>

fun baud_search :: "nat \<Rightarrow> nat \<Rightarrow> (nat \<times> u8 \<times> u8) list \<Rightarrow> nat" where
  "baud_search rate i [] = 3"
| "baud_search rate i ((r, _, _) # es) = (if r = rate then i else baud_search rate (Suc i) es)"

definition rate_regs :: "params \<Rightarrow> nat \<Rightarrow> (nat \<times> u8) list" where
  "rate_regs p rate =
     (let (_, tsel, tbpr) = nm32a_baud ! baud_search rate 0 nm32a_baud;
          sel = (if fsel p \<ge> 0 then word_of_int (fsel p) else tsel);
          bpr = (if fbpr p \<ge> 0 then word_of_int (fbpr p) else tbpr)
      in [(TCOR, TCOR_CLK sel OR (if llm p \<noteq> 0 then 0x02 else 0x00)),
          (TBPR, bpr),
          (RCOR, RCOR_CLK (if frsel p \<ge> 0 then word_of_int (frsel p) else sel)),
          (RBPR, if frbpr p \<ge> 0 then word_of_int (frbpr p) else bpr)])"

text \<open>A run of register writes, in order.\<close>

definition cwrs :: "nat \<Rightarrow> (nat \<times> u8) list \<Rightarrow> nm32a \<Rightarrow> nm32a" where
  "cwrs c ws s = foldl (\<lambda>s (r, v). cwr c r v s) s ws"

definition nm32a_set_rate :: "nat \<Rightarrow> nat \<Rightarrow> nm32a \<Rightarrow> nm32a" where
  "nm32a_set_rate c rate s = cwrs c (rate_regs (par s) rate) s"

section \<open>Channel bring-up\<close>

definition nm32a_chan_init :: "nat \<Rightarrow> nat \<Rightarrow> nat \<Rightarrow> nm32a \<Rightarrow> nm32a option" where
  "nm32a_chan_init c ch rate s = do {
     let s = cwr c CAR (word_of_nat ch AND 3) s;
     let s = cwr c LIVR 0x40 s;
     let s = nm32a_set_rate c rate s;
     let s = cwrs c [(CMR, 0x02), (COR1, 0x17), (COR2, 0x00), (COR3, 0x02)] s;
     let s = cwr c COR4 (word_of_int (rxthresh (par s)) AND 0x0f) s;
     let s = cwrs c [(RTPRh, 0x00), (RTPRl, 0x20), (COR5, 0x00), (COR6, 0x00), (COR7, 0x00),
                     (STCR, 0x00), (TPR, 0x40), (CCR, CCR_INITCH)] s;
     (_, s) \<leftarrow> ccr_wait c s;
     let s = cwr c CCR (CCR_ENTX OR CCR_ENRX) s;
     (_, s) \<leftarrow> ccr_wait c s;
     Some (cwrs c [(MSVR_RTS, 0x01), (MSVR_DTR, 0x02), (IER, 0x29)] s)
   }"

text \<open>\<open>nm32a_arm_tx\<close>: the loop over the chip's four channels, then the function.\<close>

definition arm_chan :: "nat \<Rightarrow> nm32a \<Rightarrow> nat \<Rightarrow> nm32a" where
  "arm_chan c s ch =
     (let np = port (pidx c ch) s; pending = popen np \<and> head np \<noteq> tail np in
      if \<not> pending then s
      else cwr c IER (if rx_off np then 0x01 else 0x29) (cwr c CAR (word_of_nat ch) s))"

definition nm32a_arm_tx :: "nat \<Rightarrow> nm32a \<Rightarrow> nm32a" where
  "nm32a_arm_tx c s = mutex_unlock (foldl (arm_chan c) (mutex_lock s) [0, 1, 2, 3])"

section \<open>Modem control, open and close\<close>

definition nm32a_set_mctrl :: "nat \<Rightarrow> nat \<Rightarrow> bool \<Rightarrow> nm32a \<Rightarrow> nm32a" where
  "nm32a_set_mctrl c ch active s =
     cwrs c [(CAR, word_of_nat ch), (MSVR_DTR, if active then 0x02 else 0x00),
             (MSVR_RTS, if active then 0x01 else 0x00)] s"

definition nm32a_dtr_rts :: "nat \<Rightarrow> bool \<Rightarrow> nm32a \<Rightarrow> nm32a" where
  "nm32a_dtr_rts i active s =
     (let np = port i s in
      mutex_unlock (nm32a_set_mctrl (chip np) (chan np) active (mutex_lock s)))"

text \<open>\<open>baud\<close> is \<open>tty_get_baud_rate (tty)\<close>, or \<open>None\<close> for a NULL tty.\<close>

definition nm32a_port_activate :: "nat \<Rightarrow> nat option \<Rightarrow> nm32a \<Rightarrow> (int \<times> nm32a) option" where
  "nm32a_port_activate i baud s = do {
     let np = port i s;
     let s = mutex_lock s;
     (v, s) \<leftarrow> crd (chip np) GFRCR s;
     if v = 0xE0 then Some (- ENODEV, mutex_unlock s)
     else do {
       let rate = (case baud of Some r \<Rightarrow> r | None \<Rightarrow> 0);
       s \<leftarrow> nm32a_chan_init (chip np) (chan np) (if rate \<noteq> 0 then rate else 9600) s;
       let np = port i s;
       let np = np\<lparr>head := 0, tail := 0, err_cnt := 0, err_win := jiffies s,
                   rx_off := False, popen := True\<rparr>;
       Some (0, mutex_unlock (set_port i np s))
     }
   }"

definition nm32a_port_shutdown :: "nat \<Rightarrow> nm32a \<Rightarrow> nm32a" where
  "nm32a_port_shutdown i s =
     (let np = port i s;
          s = mutex_lock s;
          s = set_port i (np\<lparr>popen := False\<rparr>) s;
          s = cwrs (chip np) [(CAR, word_of_nat (chan np)), (IER, 0x00)] s
      in mutex_unlock (nm32a_set_mctrl (chip np) (chan np) False s))"

definition nm32a_tty_set_termios :: "nat option \<Rightarrow> nat \<Rightarrow> nm32a \<Rightarrow> nm32a option" where
  "nm32a_tty_set_termios dd rate s = (case dd of
     None \<Rightarrow> Some s
   | Some i \<Rightarrow> do {
       let np = port i s;
       let s = mutex_lock s;
       let s = cwr (chip np) CAR (word_of_nat (chan np)) s;
       let s = nm32a_set_rate (chip np) (if rate \<noteq> 0 then rate else 9600) s;
       let s = cwr (chip np) CCR CCR_INITCH s;
       (_, s) \<leftarrow> ccr_wait (chip np) s;
       let s = cwr (chip np) CCR (CCR_ENTX OR CCR_ENRX) s;
       (_, s) \<leftarrow> ccr_wait (chip np) s;
       Some (mutex_unlock (cwr (chip np) IER 0x09 s))
     })"

section \<open>The wait is bounded by the clock\<close>

text \<open>The two registers that the wait reads.\<close>

definition wait_read :: "nat \<Rightarrow> cev \<Rightarrow> bool" where
  "wait_read c e \<longleftrightarrow> (\<exists>v. e = RdB (Reg c CCR) v \<or> e = RdB (Reg c GFRCR) v)"

lemma wait_read_simps [simp]:
  "wait_read c (RdB (Reg c' r) v) \<longleftrightarrow> c' = c \<and> (r = CCR \<or> r = GFRCR)"
  by (auto simp: wait_read_def)

lemma wait_read_plain: "wait_read c e \<Longrightarrow> plain_read c e"
  by (auto simp: wait_read_def)

definition poll_outcome :: "nat \<Rightarrow> u32 \<Rightarrow> nm32a \<Rightarrow> bool \<times> nm32a \<Rightarrow> bool" where
  "poll_outcome c end s y \<longleftrightarrow> grows (wait_read c) s (snd y) \<and>
     (\<exists>v h. evs (snd y) = RdB (Reg c CCR) v # h \<and> (v = 0 \<longleftrightarrow> fst y)) \<and>
     (fst y \<or> \<not> time_before (jiffies (snd y)) end)"

lemma ccr_poll_Some:
  assumes "ccr_poll c end s = Some y"
  shows "poll_outcome c end s y"
proof (rule ccr_poll.raw_induct [where P = poll_outcome, OF _ assms])
  fix poll :: "nat \<Rightarrow> u32 \<Rightarrow> nm32a \<Rightarrow> (bool \<times> nm32a) option" and c e s y
  assume IH: "\<And>c e s y. poll c e s = Some y \<Longrightarrow> poll_outcome c e s y"
  assume "Option.bind (crd c CCR s) (\<lambda>(v, s). if v = 0 then Some (True, s)
      else if time_before (jiffies s) e then poll c e s else Some (False, s)) = Some y"
  then obtain v s1 where r: "crd c CCR s = Some (v, s1)" and
      k: "(if v = 0 then Some (True, s1) else if time_before (jiffies s1) e then poll c e s1
           else Some (False, s1)) = Some y"
    by (auto elim!: bind_SomeE)
  have g: "grows (wait_read c) s s1"
    using r by (rule grows_crd) simp
  show "poll_outcome c e s y"
  proof (cases "v \<noteq> 0 \<and> time_before (jiffies s1) e")
    case True
    with k IH have "poll_outcome c e s1 y" by simp
    with g show ?thesis by (auto simp: poll_outcome_def intro: grows_trans)
  next
    case False
    with k r g show ?thesis by (auto simp: poll_outcome_def crd_Some split: if_splits)
  qed
qed

text \<open>
  The outcome of the wait: 0 right after a zero CCR; otherwise the deadline had passed at the last poll, which is
  followed by nothing or by the two reads of the warning.
\<close>

definition wait_outcome :: "nat \<Rightarrow> u32 \<Rightarrow> nm32a \<Rightarrow> int \<Rightarrow> nm32a \<Rightarrow> bool" where
  "wait_outcome c end s r s' \<longleftrightarrow> (r = 0 \<or> r = - ETIMEDOUT) \<and> (r = 0 \<longleftrightarrow> (\<exists>h. evs s' = RdB (Reg c CCR) 0 # h)) \<and>
     (r \<noteq> 0 \<longrightarrow> (\<exists>k v h. k \<in> {0, 2} \<and> drop k (evs s') = RdB (Reg c CCR) v # h \<and> v \<noteq> 0 \<and>
        \<not> time_before (jif (hw s) (drop k (evs s'))) end))"

lemma ccr_wait_outcome:
  assumes "ccr_wait c s = Some (r, s')"
  shows "grows (wait_read c) s s' \<and>
    wait_outcome c (jiffies s + msecs_to_jiffies (hz (hw s)) CCR_WAIT_MS) s r s'"
proof -
  let ?e = "jiffies s + msecs_to_jiffies (hz (hw s)) CCR_WAIT_MS"
  from assms obtain ok s1 where p: "ccr_poll c ?e s = Some (ok, s1)"
    and k: "(if ok then Some (0, s1) else if ratelimit s1 then do {
       (_, s) \<leftarrow> crd c CCR s1; (_, s) \<leftarrow> crd c GFRCR s; Some (- ETIMEDOUT, s)
     } else Some (- ETIMEDOUT, s1)) = Some (r, s')"
    by (auto simp: ccr_wait_def elim!: bind_SomeE)
  note P = ccr_poll_Some [OF p, unfolded poll_outcome_def, simplified]
  then have g: "grows (wait_read c) s s1" by blast
  then have h: "jiffies s1 = jif (hw s) (evs s1)" by (simp add: jiffies_def grows_fields)
  from P obtain v h1 where v: "evs s1 = RdB (Reg c CCR) v # h1" "v = 0 \<longleftrightarrow> ok" by blast
  show ?thesis
  proof (cases "\<not> ok \<and> ratelimit s1")
    case True
    with k obtain a b where a: "crd c CCR s1 = Some (a, ev (RdB (Reg c CCR) a) s1)"
        "s' = ev (RdB (Reg c GFRCR) b) (ev (RdB (Reg c CCR) a) s1)" "r = - ETIMEDOUT"
      by (auto elim!: bind_SomeE simp: crd_Some)
    then have "grows (wait_read c) s s'" by (auto intro!: grows_trans [OF g] grows_trans [OF grows_ev grows_ev])
    moreover have "wait_outcome c ?e s r s'" unfolding wait_outcome_def
      using P True h v a(2,3) by (auto intro!: exI [where x = "2 :: nat"])
    ultimately show ?thesis ..
  next
    case False
    with k have "s' = s1" "r = (if ok then 0 else - ETIMEDOUT)" by (auto split: if_splits)
    then show ?thesis using P g h v unfolding wait_outcome_def by (auto intro!: exI [where x = "0 :: nat"])
  qed
qed

lemma ccr_wait_Some:
  assumes "ccr_wait c s = Some (r, s')"
  shows "grows (plain_read c) s s'" and "r = 0 \<or> r = - ETIMEDOUT"
    and "r = 0 \<Longrightarrow> \<exists>h. evs s' = RdB (Reg c CCR) 0 # h"
  using ccr_wait_outcome [OF assms] by (auto simp: wait_outcome_def intro: grows_mono wait_read_plain)

text \<open>
  If every read retires and the clock passes the deadline within \<open>n\<close> polls, the wait returns
  after at most \<open>n\<close> polls.
\<close>

definition clock_passes :: "nat \<Rightarrow> nat \<Rightarrow> u32 \<Rightarrow> nm32a \<Rightarrow> bool" where
  "clock_passes c n end s \<longleftrightarrow>
     (\<forall>pre. length pre = n \<and> list_all (wait_read c) pre \<longrightarrow>
        \<not> time_before (jif (hw s) (pre @ evs s)) end)"

lemma ccr_poll_returns:
  assumes "responsive (hw s)" and "0 < n" and "clock_passes c n end s"
  shows "\<exists>ok s'. ccr_poll c end s = Some (ok, s') \<and> length (evs s') \<le> length (evs s) + n"
  using assms
proof (induction n arbitrary: s)
  case 0
  then show ?case by simp
next
  case (Suc n)
  from crd_responsive [OF Suc.prems(1)] obtain v
    where r: "crd c CCR s = Some (v, ev (RdB (Reg c CCR) v) s)" by blast
  let ?s = "ev (RdB (Reg c CCR) v) s"
  have shift: "clock_passes c n end ?s"
    using Suc.prems(3) unfolding clock_passes_def
    by (auto dest: spec [where x = "pre @ [RdB (Reg c CCR) v]" for pre])
  show ?case
  proof (cases "v \<noteq> 0 \<and> time_before (jiffies ?s) end")
    case True
    have "0 < n"
    proof (rule ccontr)
      assume "\<not> 0 < n"
      with shift have "\<not> time_before (jif (hw ?s) ([] @ evs ?s)) end"
        unfolding clock_passes_def by simp
      with True show False by (simp add: jiffies_def)
    qed
    with Suc.IH [OF _ _ shift] Suc.prems(1) obtain ok s'
      where "ccr_poll c end ?s = Some (ok, s')" "length (evs s') \<le> length (evs ?s) + n"
      by auto
    with True r show ?thesis by (subst ccr_poll.simps) auto
  next
    case False
    with r show ?thesis by (subst ccr_poll.simps) auto
  qed
qed

lemma ccr_wait_returns:
  assumes "responsive (hw s)" and "0 < n"
    and "clock_passes c n (jiffies s + msecs_to_jiffies (hz (hw s)) CCR_WAIT_MS) s"
  shows "\<exists>r s'. ccr_wait c s = Some (r, s') \<and> length (evs s') \<le> length (evs s) + n + 2"
proof -
  from ccr_poll_returns [OF assms] obtain ok s1
    where p: "ccr_poll c (jiffies s + msecs_to_jiffies (hz (hw s)) CCR_WAIT_MS) s = Some (ok, s1)"
      and l: "length (evs s1) \<le> length (evs s) + n" by blast
  have hw1: "responsive (hw s1)"
    using ccr_poll_Some [OF p] assms(1) by (auto simp: poll_outcome_def dest: grows_fields)
  obtain v where v: "crd c CCR s1 = Some (v, ev (RdB (Reg c CCR) v) s1)"
    using crd_responsive [OF hw1] by blast
  let ?s2 = "ev (RdB (Reg c CCR) v) s1"
  obtain w where w: "crd c GFRCR ?s2 = Some (w, ev (RdB (Reg c GFRCR) w) ?s2)"
    using crd_responsive [of ?s2] hw1 by auto
  show ?thesis using p l v w by (auto simp: ccr_wait_def)
qed

text \<open>C11. The wait for a channel command never hangs on a card whose reads retire: as soon as the
  clock passes the 250 ms deadline within \<open>n\<close> polls it returns, after at most \<open>n + 2\<close> register
  reads, having read nothing but CCR and GFRCR of that chip and written nothing; it reports success exactly when the last
  thing it read is a zero CCR, and a timeout only if CCR was still nonzero at a poll after which the deadline had passed.\<close>

theorem ccr_wait_bounded:
  assumes "responsive (hw s)" and "0 < n"
    and "clock_passes c n (jiffies s + msecs_to_jiffies (hz (hw s)) CCR_WAIT_MS) s"
  shows "\<exists>r s' pre. ccr_wait c s = Some (r, s') \<and> evs s' = pre @ evs s \<and> length pre \<le> n + 2 \<and>
    (\<forall>e \<in> set pre. \<exists>v. e = RdB (Reg c CCR) v \<or> e = RdB (Reg c GFRCR) v) \<and>
    (r = 0 \<or> r = - ETIMEDOUT) \<and> (r = 0 \<longleftrightarrow> (\<exists>h. evs s' = RdB (Reg c CCR) 0 # h)) \<and>
    (r \<noteq> 0 \<longrightarrow> (\<exists>k v h. k \<in> {0, 2} \<and> drop k (evs s') = RdB (Reg c CCR) v # h \<and> v \<noteq> 0 \<and>
       \<not> time_before (jif (hw s) (drop k (evs s'))) (jiffies s + msecs_to_jiffies (hz (hw s)) CCR_WAIT_MS)))"
proof -
  from ccr_wait_returns [OF assms] obtain r s' where q: "ccr_wait c s = Some (r, s')"
    and ql: "length (evs s') \<le> length (evs s) + n + 2" by blast
  note O = ccr_wait_outcome [OF q, unfolded wait_outcome_def]
  from O obtain pre where pre: "evs s' = pre @ evs s" "list_all (wait_read c) pre" by (auto elim: growsE)
  have "length pre \<le> n + 2" using ql pre(1) by simp
  moreover have "\<forall>e \<in> set pre. \<exists>v. e = RdB (Reg c CCR) v \<or> e = RdB (Reg c GFRCR) v"
    using pre(2) by (simp add: list_all_iff wait_read_def)
  ultimately show ?thesis using O q pre(1) by blast
qed

lemma demo_responsive: "responsive demo_hw"
  by (simp add: responsive_def demo_hw_def demo_dev_def)

theorem ccr_wait_bounded_witness:
  "\<exists>r s'. ccr_wait 0 (kzalloc_card demo_hw default_params) = Some (r, s') \<and> length (evs s') \<le> 65"
proof -
  let ?s = "kzalloc_card demo_hw default_params"
  have c: "clock_passes 0 63 (jiffies ?s + msecs_to_jiffies (hz (hw ?s)) CCR_WAIT_MS) ?s"
    by (simp add: clock_passes_def jiffies_def msecs_to_jiffies_def CCR_WAIT_MS_def demo_hw_def time_before_def)
  from ccr_wait_bounded [OF _ _ c] show ?thesis by (fastforce simp: demo_responsive kzalloc_card_def)
qed

section \<open>Register runs\<close>

lemma cwrs_simps [simp]:
  "cwrs c [] s = s" "cwrs c ((r, v) # ws) s = cwrs c ws (cwr c r v s)"
  by (simp_all add: cwrs_def)

lemma cwrs_append: "cwrs c (as @ bs) s = cwrs c bs (cwrs c as s)"
  by (simp add: cwrs_def)

lemma cwr_fields [simp]:
  "ports (cwr c r v s) = ports s" "hw (cwr c r v s) = hw s" "par (cwr c r v s) = par s"
  "evs (cwr c r v s) = WrB (Reg c r) v # evs s" "port i (cwr c r v s) = port i s"
  by (simp_all add: cwr_def)

lemma grows_cwrs: "list_all (\<lambda>(r, v). P (WrB (Reg c r) v)) ws \<Longrightarrow> grows P s (cwrs c ws s)"
proof (induction ws arbitrary: s)
  case Nil
  then show ?case by simp
next
  case (Cons w ws)
  obtain r v where w: "w = (r, v)" by fastforce
  with Cons.prems have "grows P s (cwr c r v s)" by (simp add: grows_cwr)
  also have "grows P (cwr c r v s) (cwrs c ws (cwr c r v s))"
    using Cons w by simp
  finally show ?case by (simp add: w)
qed

definition chan_regs_only :: "(nat \<times> u8) list \<Rightarrow> bool" where
  "chan_regs_only ws \<longleftrightarrow> fst ` set ws \<inter> {CAR, REOIR, TEOIR} = {}"

lemma cwrs_regs:
  assumes "sel_chan c (evs s) = Some ch" and "chan_regs_only ws"
  shows "sel_chan c (evs (cwrs c ws s)) = Some ch" and
    "chan_reg c ch' r (evs (cwrs c ws s)) =
       (if ch' = ch then (case map_of (rev ws) r of Some v \<Rightarrow> Some v | None \<Rightarrow> chan_reg c ch r (evs s))
        else chan_reg c ch' r (evs s))"
  using assms
proof (induction ws arbitrary: s)
  case Nil
  { case 1 then show ?case by simp next case 2 then show ?case by simp }
next
  case (Cons w ws)
  obtain q v where w: "w = (q, v)" by fastforce
  have q: "q \<noteq> CAR" "q \<noteq> REOIR" "q \<noteq> TEOIR" "chan_regs_only ws" if "chan_regs_only (w # ws)"
    using that by (auto simp: chan_regs_only_def w)
  {
    case 1
    then show ?case using q Cons.IH(1) [of "cwr c q v s"] by (simp add: w sel_chan_write)
  next
    case 2
    then show ?case
      using q Cons.IH(2) [of "cwr c q v s"]
      by (auto simp: w sel_chan_write map_add_def split: option.split)
  }
qed

section \<open>What bring-up leaves in the channel\<close>

text \<open>The writes of \<open>nm32a_chan_init\<close> up to the InitCh command, after CAR, and those at its end.\<close>

definition init_regs :: "params \<Rightarrow> nat \<Rightarrow> (nat \<times> u8) list" where
  "init_regs p rate =
     (LIVR, 0x40) # rate_regs p rate @
     [(CMR, 0x02), (COR1, 0x17), (COR2, 0x00), (COR3, 0x02),
      (COR4, word_of_int (rxthresh p) AND 0x0f), (RTPRh, 0x00), (RTPRl, 0x20), (COR5, 0x00),
      (COR6, 0x00), (COR7, 0x00), (STCR, 0x00), (TPR, 0x40), (CCR, CCR_INITCH)]"

definition final_regs :: "(nat \<times> u8) list" where
  "final_regs = [(MSVR_RTS, 0x01), (MSVR_DTR, 0x02), (IER, 0x29)]"

lemma cwrs_fields [simp]:
  "ports (cwrs c ws s) = ports s" "hw (cwrs c ws s) = hw s" "par (cwrs c ws s) = par s"
  by (induction ws arbitrary: s) auto

lemma chan_init_alt:
  "nm32a_chan_init c ch rate s = do {
     (_, s) \<leftarrow> ccr_wait c (cwrs c (init_regs (par s) rate) (cwr c CAR (word_of_nat ch AND 3) s));
     (_, s) \<leftarrow> ccr_wait c (cwr c CCR (CCR_ENTX OR CCR_ENRX) s);
     Some (cwrs c final_regs s)
   }"
  by (simp add: nm32a_chan_init_def nm32a_set_rate_def init_regs_def final_regs_def Let_def cwrs_append)

lemma rate_regs_only: "chan_regs_only (rate_regs p rate)"
  by (simp add: rate_regs_def chan_regs_only_def Let_def case_prod_unfold)

lemma init_regs_only: "chan_regs_only (init_regs p rate)"
  using rate_regs_only [of p rate] by (auto simp: init_regs_def chan_regs_only_def)

lemma final_regs_only: "chan_regs_only final_regs"
  by (simp add: final_regs_def chan_regs_only_def)

lemma chan_sel_value: "ch < 4 \<Longrightarrow> unat ((word_of_nat ch :: u8) AND 3 AND 3) = ch"
  by (drule less_4_cases) (elim disjE, simp_all)

lemma chan_car_value: "ch < 4 \<Longrightarrow> unat ((word_of_nat ch :: u8) AND 3) = ch"
  by (drule less_4_cases) (elim disjE, simp_all)

definition bring_up :: "params \<Rightarrow> nat \<Rightarrow> (nat \<times> u8) list" where
  "bring_up p rate = init_regs p rate @ (CCR, CCR_ENTX OR CCR_ENRX) # final_regs"

abbreviation (input) chip_plain :: "nat \<Rightarrow> cev \<Rightarrow> bool" where
  "chip_plain c e \<equiv> plain e \<and> of_chip c e"

lemma grows_ccr_wait: "ccr_wait c s = Some (r, s') \<Longrightarrow> grows (\<lambda>e. chip_plain c e) s s'"
  by (drule ccr_wait_Some(1)) (erule grows_mono, rule plain_read_of_chip)

lemma init_regs_data: "list_all (\<lambda>(r, v). r \<noteq> TDR \<and> r \<noteq> REOIR \<and> r \<noteq> TEOIR) (init_regs p rate)"
  by (simp add: init_regs_def rate_regs_def Let_def case_prod_unfold)

lemma rate_regs_data: "list_all (\<lambda>(r, v). r \<noteq> TDR \<and> r \<noteq> REOIR \<and> r \<noteq> TEOIR) (rate_regs p rate)"
  by (simp add: rate_regs_def Let_def case_prod_unfold)

lemma grows_cwrs_plain:
  "list_all (\<lambda>(r, v). r \<noteq> TDR \<and> r \<noteq> REOIR \<and> r \<noteq> TEOIR) ws \<Longrightarrow>
     grows (\<lambda>e. chip_plain c e) s (cwrs c ws s)"
  by (rule grows_cwrs) (simp add: case_prod_unfold)

lemma chan_init_steps:
  assumes "nm32a_chan_init c ch rate s = Some s'"
  obtains s2 s4 where
    "grows (plain_read c) (cwrs c (init_regs (par s) rate) (cwr c CAR (word_of_nat ch AND 3) s)) s2"
    and "grows (plain_read c) (cwr c CCR (CCR_ENTX OR CCR_ENRX) s2) s4"
    and "s' = cwrs c final_regs s4"
proof -
  from assms obtain r2 s2 r4 s4 where
      w2: "ccr_wait c (cwrs c (init_regs (par s) rate) (cwr c CAR (word_of_nat ch AND 3) s)) = Some (r2, s2)"
    and w4: "ccr_wait c (cwr c CCR (CCR_ENTX OR CCR_ENRX) s2) = Some (r4, s4)"
    and s': "s' = cwrs c final_regs s4"
    unfolding chan_init_alt by (auto elim!: bind_SomeE)
  show thesis
    by (rule that [OF ccr_wait_Some(1) [OF w2] ccr_wait_Some(1) [OF w4] s'])
qed

lemma chan_init_grows:
  assumes "nm32a_chan_init c ch rate s = Some s'"
  shows "grows (\<lambda>e. chip_plain c e) s s'"
proof -
  obtain s2 s4 where
      g2: "grows (plain_read c) (cwrs c (init_regs (par s) rate) (cwr c CAR (word_of_nat ch AND 3) s)) s2"
    and g4: "grows (plain_read c) (cwr c CCR (CCR_ENTX OR CCR_ENRX) s2) s4"
    and s': "s' = cwrs c final_regs s4"
    using assms by (rule chan_init_steps)
  note mono = grows_mono [where Q = "\<lambda>e. chip_plain c e", OF _ plain_read_of_chip]
  have "grows (\<lambda>e. chip_plain c e) s (cwr c CAR (word_of_nat ch AND 3) s)"
    by (rule grows_cwr) simp
  also have "grows (\<lambda>e. chip_plain c e) \<dots> (cwrs c (init_regs (par s) rate) (cwr c CAR (word_of_nat ch AND 3) s))"
    by (rule grows_cwrs_plain [OF init_regs_data])
  also have "grows (\<lambda>e. chip_plain c e) \<dots> s2" by (rule mono [OF g2])
  also have "grows (\<lambda>e. chip_plain c e) \<dots> (cwr c CCR (CCR_ENTX OR CCR_ENRX) s2)"
    by (rule grows_cwr) simp
  also have "grows (\<lambda>e. chip_plain c e) \<dots> s4" by (rule mono [OF g4])
  also have "grows (\<lambda>e. chip_plain c e) \<dots> s'"
    unfolding s' by (rule grows_cwrs_plain) (simp add: final_regs_def)
  finally show ?thesis .
qed

lemma map_of_rev_append:
  "map_of (rev (as @ bs)) r = (case map_of (rev bs) r of Some v \<Rightarrow> Some v | None \<Rightarrow> map_of (rev as) r)"
  by (simp add: map_add_def split: option.split)

lemma chan_init_regs:
  assumes "nm32a_chan_init c ch rate s = Some s'" and "ch < 4" and "closed (evs s)"
  shows "sel_chan c (evs s') = Some ch"
    and "r \<noteq> CAR \<Longrightarrow> chan_reg c ch' r (evs s') =
      (if ch' = ch then (case map_of (rev (bring_up (par s) rate)) r of Some v \<Rightarrow> Some v
                         | None \<Rightarrow> chan_reg c ch r (evs s))
       else chan_reg c ch' r (evs s))"
proof -
  obtain s2 s4 where
      g2: "grows (plain_read c) (cwrs c (init_regs (par s) rate) (cwr c CAR (word_of_nat ch AND 3) s)) s2"
    and g4: "grows (plain_read c) (cwr c CCR (CCR_ENTX OR CCR_ENRX) s2) s4"
    and s': "s' = cwrs c final_regs s4"
    using assms(1) by (rule chan_init_steps)
  let ?s0 = "cwr c CAR (word_of_nat ch AND 3) s"
  let ?s1 = "cwrs c (init_regs (par s) rate) ?s0"
  let ?s3 = "cwrs c [(CCR, CCR_ENTX OR CCR_ENRX)] s2"
  have sel0: "sel_chan c (evs ?s0) = Some ch"
    using assms(2,3) sel_chan_car [of "evs s" c] chan_sel_value by (simp add: closed_def)
  have reg0: "chan_reg c ch' r (evs ?s0) = chan_reg c ch' r (evs s)" if "r \<noteq> CAR"
    using that by simp
  note R1 = cwrs_regs [OF sel0 init_regs_only [of "par s" rate]]
  have sel2: "sel_chan c (evs s2) = Some ch" and reg2: "chan_reg c ch' r (evs s2) = chan_reg c ch' r (evs ?s1)"
    using grows_reads_mon [OF g2] R1(1) by simp_all
  have only: "chan_regs_only [(CCR, CCR_ENTX OR CCR_ENRX)]" by (simp add: chan_regs_only_def)
  note R3 = cwrs_regs [OF sel2 only]
  have sel4: "sel_chan c (evs s4) = Some ch" and reg4: "chan_reg c ch' r (evs s4) = chan_reg c ch' r (evs ?s3)"
    using grows_reads_mon [OF g4] R3(1) by simp_all
  note R5 = cwrs_regs [OF sel4 final_regs_only]
  show "sel_chan c (evs s') = Some ch" using R5(1) s' by simp
  show "chan_reg c ch' r (evs s') =
      (if ch' = ch then (case map_of (rev (bring_up (par s) rate)) r of Some v \<Rightarrow> Some v
                         | None \<Rightarrow> chan_reg c ch r (evs s))
       else chan_reg c ch' r (evs s))" if "r \<noteq> CAR"
    using that R1(2) [of ch' r] R3(2) [of ch' r] R5(2) [of ch' r] reg0 reg2 reg4
    by (auto simp: s' bring_up_def map_of_rev_append split: option.split)
qed

section \<open>The well-formed card\<close>

text \<open>
  \<open>nm32a_tty_setup\<close> gives port \<open>i\<close> chip \<open>i / 4\<close> and channel \<open>i % 4\<close>; nothing changes them.
\<close>

definition card_inv :: "nm32a \<Rightarrow> bool" where
  "card_inv s \<longleftrightarrow> length (ports s) = NM32A_PORTS_N \<and>
     (\<forall>i < NM32A_PORTS_N. chip (port i s) = i div 4 \<and> chan (port i s) = i mod 4 \<and> ring_inv (port i s))"

lemma card_inv_port:
  assumes "card_inv s" and "i < NM32A_PORTS_N"
  shows "chip (port i s) = i div 4" and "chan (port i s) = i mod 4" and "ring_inv (port i s)"
    and "i < length (ports s)" and "chip (port i s) < 8" and "chan (port i s) < 4"
  using assms by (simp_all add: card_inv_def)

lemma set_port_beyond: "length (ports s) \<le> i \<Longrightarrow> set_port i np s = s"
  by (simp add: set_port_def list_update_beyond)

lemma card_inv_set_port:
  assumes "card_inv s" and "chip np = chip (port i s)" and "chan np = chan (port i s)"
    and "ring_inv (port i s) \<Longrightarrow> ring_inv np"
  shows "card_inv (set_port i np s)"
proof (cases "i < length (ports s)")
  case True
  with assms show ?thesis by (simp add: card_inv_def port_set_port)
next
  case False
  with assms show ?thesis by (simp add: set_port_beyond)
qed

lemma card_inv_grows: "grows P s s' \<Longrightarrow> card_inv s' = card_inv s"
  by (auto simp: card_inv_def grows_def port_def)

lemma card_inv_ev [simp]: "card_inv (ev e s) = card_inv s"
  by (simp add: card_inv_def)

lemma card_inv_lock [simp]: "card_inv (mutex_lock s) = card_inv s" "card_inv (mutex_unlock s) = card_inv s"
  "card_inv (cwr c r v s) = card_inv s"
  by (simp_all add: mutex_lock_def mutex_unlock_def cwr_def)

lemma lock_fields [simp]:
  "evs (mutex_lock s) = Lk # evs s" "evs (mutex_unlock s) = Ulk # evs s"
  "ports (mutex_lock s) = ports s" "ports (mutex_unlock s) = ports s"
  "hw (mutex_lock s) = hw s" "hw (mutex_unlock s) = hw s"
  "par (mutex_lock s) = par s" "par (mutex_unlock s) = par s"
  "port i (mutex_lock s) = port i s" "port i (mutex_unlock s) = port i s"
  by (simp_all add: mutex_lock_def mutex_unlock_def)

section \<open>Properties of bring-up and rates\<close>

text \<open>C12. Bringing a channel up leaves that channel, and only that channel, with the fixed register
  image (asynchronous interrupt mode, eight data bits, no parity, no translation, receive threshold
  from the parameter), the rate registers of the requested rate, DTR and RTS raised and the
  interrupts RET, RxD and TxD enabled.  Registers of the other channels and of the other chips keep
  their values, and no interrupt context is entered.\<close>

theorem chan_init_programs_channel:
  assumes "nm32a_chan_init c ch rate s = Some s'" and "ch < 4" and "closed (evs s)"
  shows "list_all (\<lambda>(r, v). chan_reg c ch r (evs s') = Some v)
      (rate_regs (par s) rate @
      [(CMR, 0x02), (COR1, 0x17), (COR2, 0x00), (COR3, 0x02),
       (COR4, word_of_int (rxthresh (par s)) AND 0x0f), (COR5, 0x00), (COR6, 0x00), (COR7, 0x00),
       (STCR, 0x00), (CCR, 0x0A), (MSVR_RTS, 0x01), (MSVR_DTR, 0x02), (IER, 0x29)]) \<and>
    (\<forall>ch' r. ch' \<noteq> ch \<and> r \<noteq> CAR \<longrightarrow> chan_reg c ch' r (evs s') = chan_reg c ch' r (evs s)) \<and>
    (\<forall>c' ch' r. c' \<noteq> c \<longrightarrow> chan_reg c' ch' r (evs s') = chan_reg c' ch' r (evs s)) \<and>
    grows plain s s'"
proof (intro conjI)
  note R = chan_init_regs(2) [OF assms]
  have g: "grows (\<lambda>e. chip_plain c e) s s'" using assms(1) by (rule chan_init_grows)
  show "\<forall>ch' r. ch' \<noteq> ch \<and> r \<noteq> CAR \<longrightarrow> chan_reg c ch' r (evs s') = chan_reg c ch' r (evs s)"
    by (simp add: R)
  show "\<forall>c' ch' r. c' \<noteq> c \<longrightarrow> chan_reg c' ch' r (evs s') = chan_reg c' ch' r (evs s)"
    using grows_of_chip [OF grows_mono [OF g]] by blast
  show "grows plain s s'" by (rule grows_mono [OF g]) simp
  show "list_all (\<lambda>(r, v). chan_reg c ch r (evs s') = Some v)
      (rate_regs (par s) rate @
      [(CMR, 0x02), (COR1, 0x17), (COR2, 0x00), (COR3, 0x02),
       (COR4, word_of_int (rxthresh (par s)) AND 0x0f), (COR5, 0x00), (COR6, 0x00), (COR7, 0x00),
       (STCR, 0x00), (CCR, 0x0A), (MSVR_RTS, 0x01), (MSVR_DTR, 0x02), (IER, 0x29)])"
    by (simp add: R bring_up_def init_regs_def final_regs_def rate_regs_def Let_def case_prod_unfold)
qed

lemma demo_ccr_wait:
  "hw s = demo_hw \<Longrightarrow> ccr_wait 0 s = Some (0, ev (RdB (Reg 0 CCR) 0) s)"
  by (simp add: ccr_wait_def ccr_poll.simps demo_crd demo_dev_def)

theorem chan_init_programs_channel_witness:
  "\<exists>s'. nm32a_chan_init 0 2 9600 (kzalloc_card demo_hw default_params) = Some s' \<and>
     chan_reg 0 2 IER (evs s') = Some 0x29 \<and> chan_reg 0 1 IER (evs s') = None"
proof -
  let ?s = "kzalloc_card demo_hw default_params"
  obtain s' where r: "nm32a_chan_init 0 2 9600 ?s = Some s'"
    by (simp add: chan_init_alt demo_ccr_wait)
  from chan_init_programs_channel [OF r] r show ?thesis by (auto simp: closed_def)
qed

text \<open>With no override parameter set, every rate of the table programs the transmitter and the
  receiver with the same clock select (in its own bit field) and the same divisor, local loopback
  stays off, and all eight entries belong to one input clock: rate * 8 * 4^ClkSel * (divisor + 1)
  is 35020800 Hz for each.  A rate that is not in the table is programmed as 9600.\<close>

theorem rate_table_consistent:
  assumes "fsel p < 0" and "fbpr p < 0" and "frsel p < 0" and "frbpr p < 0" and "llm p = 0"
  shows "(\<forall>rate \<in> fst ` set nm32a_baud. \<exists>sel bpr.
      rate_regs p rate = [(TCOR, TCOR_CLK sel), (TBPR, bpr), (RCOR, RCOR_CLK sel), (RBPR, bpr)] \<and>
      drop_bit 5 (TCOR_CLK sel) = RCOR_CLK sel AND 7 \<and> TCOR_CLK sel AND TCOR_LLM = 0 \<and>
      rate * 8 * 4 ^ unat sel * (unat bpr + 1) = 35020800) \<and>
    (\<forall>rate. rate \<notin> fst ` set nm32a_baud \<longrightarrow> rate_regs p rate = rate_regs p 9600)" (is "?table \<and> ?other")
proof
  show ?table
    using assms
    by (simp add: nm32a_baud_def rate_regs_def Let_def TCOR_CLK_def RCOR_CLK_def)
  show ?other
    by (simp add: nm32a_baud_def rate_regs_def)
qed

theorem rate_table_consistent_witness:
  "rate_regs default_params 110 = rate_regs default_params 9600"
proof -
  have "fsel default_params < 0" "fbpr default_params < 0" "frsel default_params < 0"
      "frbpr default_params < 0" "llm default_params = 0"
    by (simp_all add: default_params_def)
  from rate_table_consistent [OF this] show ?thesis by (simp add: nm32a_baud_def)
qed

end
