(* ===== verification/Nm32a_Service.thy ===== *)
theory Nm32a_Service
  imports Nm32a_Chan
begin

text \<open>
  The service routine of the poll thread (\<open>nm32a_service\<close>, with \<open>nm32a_eoi\<close> and
  \<open>nm32a_rx_exception\<close>) and one sweep of the thread (\<open>nm32a_poll_thread\<close>).

  \<open>nm32a_service\<close> is one C function; here it is the chain of its stages: the confirmed request,
  the acknowledge and the decision what was granted, then the receive data, receive exception
  or transmit branch.  Every stage carries its own early returns.
\<close>

abbreviation (input) NM32A_ERR_LIMIT :: u32 where "NM32A_ERR_LIMIT \<equiv> 200"

section \<open>Ending a service\<close>

text \<open>The retry loop of \<open>nm32a_eoi\<close>; the first argument counts the iterations left.\<close>

fun eoi_retry :: "nat \<Rightarrow> nat \<Rightarrow> nat \<Rightarrow> u8 \<Rightarrow> nm32a \<Rightarrow> nm32a option" where
  "eoi_retry 0 c reg val s =
     (if ratelimit s then do { (_, s) \<leftarrow> crd c STK s; Some s } else Some s)"
| "eoi_retry (Suc n) c reg val s = do {
     (v, s) \<leftarrow> crd c STK s;
     if v AND 0x81 = 0 then Some s
     else eoi_retry n c reg val (cwr c reg val s)
   }"

definition EOI_TRIES :: nat where "EOI_TRIES = 100"

definition nm32a_eoi :: "nat \<Rightarrow> nat \<Rightarrow> u8 \<Rightarrow> nm32a \<Rightarrow> nm32a option" where
  "nm32a_eoi c reg val s =
     (let s = cwr c reg val s in
      if eoiretry (par s) = 0 then Some s else eoi_retry EOI_TRIES c reg val s)"

section \<open>Receive exceptions\<close>

definition NM32A_ERR_WINDOW :: "nm32a \<Rightarrow> u32" where
  "NM32A_ERR_WINDOW s = word_of_nat (hz (hw s))"

definition nm32a_rx_exception :: "nat \<Rightarrow> nat \<Rightarrow> u8 \<Rightarrow> nm32a \<Rightarrow> nm32a" where
  "nm32a_rx_exception c ch risr s =
     (let np = port (pidx c ch) s;
          np = (if time_after (jiffies s) (err_win np + NM32A_ERR_WINDOW s)
                then np\<lparr>err_win := jiffies s, err_cnt := 0\<rparr> else np);
          np = np\<lparr>err_cnt := err_cnt np + 1\<rparr>
      in if err_cnt np \<noteq> NM32A_ERR_LIMIT \<or> rx_off np then set_port (pidx c ch) np s
         else
           let s = set_port (pidx c ch) (np\<lparr>rx_off := True\<rparr>) s
           in cwr c IER 0x01 (cwr c CAR (word_of_nat ch) s))"

section \<open>Receive\<close>

text \<open>Draining \<open>n\<close> bytes from RDR into \<open>rxbuf\<close>, with the delay between reads.\<close>

fun read_rdr :: "nat \<Rightarrow> int \<Rightarrow> nat \<Rightarrow> nm32a \<Rightarrow> (u8 list \<times> nm32a) option" where
  "read_rdr c us 0 s = Some ([], s)"
| "read_rdr c us (Suc n) s = do {
     (v, s) \<leftarrow> crd c RDR s;
     let s = (if us \<noteq> 0 then ev (Udelay us) s else s);
     (vs, s) \<leftarrow> read_rdr c us n s;
     Some (v # vs, s)
   }"

definition rx_count :: "u8 \<Rightarrow> nat" where
  "rx_count rf = (let cnt = unat (rf AND 0x1f) in if cnt > 32 then 32 else cnt)"

definition rx_deliver :: "nat \<Rightarrow> u8 list \<Rightarrow> nm32a \<Rightarrow> nm32a" where
  "rx_deliver i bs s = (if 0 < length bs \<and> popen (port i s) then tty_flip i bs s else s)"

definition bump_st_break :: "u8 \<Rightarrow> nm32a \<Rightarrow> nm32a" where
  "bump_st_break erisr s =
     (let s = (if erisr AND 0x01 \<noteq> 0 then s\<lparr>st_break := st_break s + 1\<rparr> else s)
      in if erisr AND 0x08 \<noteq> 0 then s\<lparr>st_overrun := st_overrun s + 1\<rparr> else s)"

definition service_rx_exception :: "nat \<Rightarrow> nat \<Rightarrow> bool \<Rightarrow> nm32a \<Rightarrow> (bool \<times> nm32a) option" where
  "service_rx_exception c ch tr s = do {
     (erisr, s) \<leftarrow> crd c RISRl s;
     let s = bump_st_break erisr s;
     if erisr AND 0x80 \<noteq> 0 then do {
       let s = s\<lparr>st_timeout := st_timeout s + 1\<rparr>;
       (rf, s) \<leftarrow> crd c RFOC s;
       (bs, s) \<leftarrow> read_rdr c 0 (rx_count rf) s;
       s \<leftarrow> nm32a_eoi c REOIR 0x00 s;
       Some (True, mutex_unlock (rx_deliver (pidx c ch) bs s))
     } else do {
       s \<leftarrow> (if tr then do { (_, s) \<leftarrow> crd c RFOC s; Some s } else Some s);
       (rf, s) \<leftarrow> crd c RFOC s;
       s \<leftarrow> (if rf AND 0x1f \<noteq> 0 then do { (_, s) \<leftarrow> crd c RDR s; Some s } else Some s);
       s \<leftarrow> nm32a_eoi c REOIR 0x00 s;
       Some (True, mutex_unlock (nm32a_rx_exception c ch erisr s))
     }
   }"

definition service_rx_data :: "nat \<Rightarrow> nat \<Rightarrow> nm32a \<Rightarrow> (bool \<times> nm32a) option" where
  "service_rx_data c ch s = do {
     (rf, s) \<leftarrow> crd c RFOC s;
     (bs, s) \<leftarrow> read_rdr c (rdrus (par s)) (rx_count rf) s;
     let s = s\<lparr>st_good := st_good s + 1, st_bytes := st_bytes s + word_of_nat (length bs)\<rparr>;
     s \<leftarrow> nm32a_eoi c REOIR 0x00 s;
     Some (True, rx_deliver (pidx c ch) bs (mutex_unlock s))
   }"

definition service_rx :: "nat \<Rightarrow> u8 \<Rightarrow> bool \<Rightarrow> nm32a \<Rightarrow> (bool \<times> nm32a) option" where
  "service_rx c rir tr s =
     (let ch = unat (rir AND 3) in
      if rir AND 0x0c \<noteq> 0x0c then service_rx_exception c ch tr s
      else service_rx_data c ch s)"

section \<open>Transmit\<close>

text \<open>Filling the FIFO from the ring; the first argument is the room left, the result the count.\<close>

fun tx_fill :: "nat \<Rightarrow> nat \<Rightarrow> nat \<Rightarrow> nm32a \<Rightarrow> nat \<times> nm32a" where
  "tx_fill 0 c i s = (0, s)"
| "tx_fill (Suc n) c i s =
     (let np = port i s in
      if tx_empty np then (0, s)
      else
        let s = cwr c TDR (tx_front np) s;
            s = set_port i (tx_pop np) s;
            (k, s) = tx_fill n c i s
        in (Suc k, s))"

definition service_tx :: "nat \<Rightarrow> u8 \<Rightarrow> nm32a \<Rightarrow> (bool \<times> nm32a) option" where
  "service_tx c tir s = do {
     let ch = unat (tir AND 3);
     (tf, s) \<leftarrow> crd c TFTC s;
     let room = (if unat tf > 16 then 16 else unat tf);
     let (i, s) = tx_fill room c (pidx c ch) s;
     let s = (if i = 0 then cwr c IER 0x28 s else s);
     s \<leftarrow> nm32a_eoi c TEOIR (if i \<noteq> 0 then 0x00 else 0x08) s;
     Some (True, mutex_unlock s)
   }"

section \<open>Acknowledge, and what was granted\<close>

definition service_ack :: "nat \<Rightarrow> u8 \<Rightarrow> u8 \<Rightarrow> bool \<Rightarrow> nm32a \<Rightarrow> (bool \<times> nm32a) option" where
  "service_ack c tir0 rir0 tr s = do {
     let ackaddr = (if rir0 AND 0x80 \<noteq> 0 then NM32A_ACK_RX s else NM32A_ACK_TX s);
     (_, s) \<leftarrow> rdb (Bar ackaddr) s;
     (tir1, s) \<leftarrow> crd c TIR s;
     (rir1, s) \<leftarrow> crd c RIR s;
     let rx_granted = (rir1 AND 0xC0 = 0x40);
     let tx_granted = (\<not> rx_granted \<and> tir1 AND 0xC0 = 0x40);
     let rx_expected = (rir0 AND 0x80 \<noteq> 0);
     if \<not> rx_granted \<and> \<not> tx_granted
     then Some (False, mutex_unlock (s\<lparr>st_nogrant := st_nogrant s + 1\<rparr>))
     else do {
       let s = (if rx_granted \<noteq> rx_expected then s\<lparr>st_misgrant := st_misgrant s + 1\<rparr> else s);
       let rir = (if rx_granted then rir1 else 0);
       let tir = (if tx_granted then tir1 else tir0);
       if rir \<noteq> 0 then service_rx c rir tr s else service_tx c tir s
     }
   }"

definition nm32a_service :: "nat \<Rightarrow> nm32a \<Rightarrow> (bool \<times> nm32a) option" where
  "nm32a_service c s = do {
     let s = mutex_lock s;
     (tir0, s) \<leftarrow> crd c TIR s;
     (rir0, s) \<leftarrow> crd c RIR s;
     let tr = (trace s > 0 \<and> (tir0 OR rir0) AND 0x80 \<noteq> 0);
     let s = (if tr then s\<lparr>trace := trace s - 1\<rparr> else s);
     if (tir0 OR rir0) AND 0x80 = 0 then Some (False, mutex_unlock s)
     else do {
       (tirc, s) \<leftarrow> crd c TIR s;
       (rirc, s) \<leftarrow> crd c RIR s;
       if (tir0 OR rir0) AND (tirc OR rirc) AND 0x80 = 0 then Some (False, mutex_unlock s)
       else service_ack c tirc rirc tr s
     }
   }"

section \<open>The poll thread\<close>

text \<open>At most \<open>n\<close> services of one chip, until one finds nothing to do.\<close>

fun svc_burst :: "nat \<Rightarrow> nat \<Rightarrow> nm32a \<Rightarrow> (bool \<times> nm32a) option" where
  "svc_burst 0 c s = Some (False, s)"
| "svc_burst (Suc n) c s = do {
     (more, s) \<leftarrow> nm32a_service c s;
     if \<not> more then Some (False, s)
     else do { (_, s) \<leftarrow> svc_burst n c s; Some (True, s) }
   }"

definition chip_busy :: "nat \<Rightarrow> nm32a \<Rightarrow> bool" where
  "chip_busy c s \<longleftrightarrow> (\<exists>ch \<in> {0, 1, 2, 3}. popen (port (pidx c ch) s))"

fun poll_chips :: "nat list \<Rightarrow> nm32a \<Rightarrow> (nat \<times> bool \<times> nm32a) option" where
  "poll_chips [] s = Some (0, False, s)"
| "poll_chips (c # cs) s =
     (if \<not> chip_busy c s then poll_chips cs s
      else do {
        let s = nm32a_arm_tx c s;
        (w, s) \<leftarrow> svc_burst (unat (word_of_int (burst (par s)) :: u32)) c s;
        (a, ws, s) \<leftarrow> poll_chips cs s;
        Some (Suc a, w \<or> ws, s)
      })"

definition nm32a_poll_sweep :: "nm32a \<Rightarrow> nm32a option" where
  "nm32a_poll_sweep s = do {
     (active, worked, s) \<leftarrow> poll_chips [0..<NM32A_CHIPS] s;
     Some (if worked then s
           else if active \<noteq> 0 then ev (Udelay (polldelay (par s))) s
           else ev (Msleep 50) s)
   }"

text \<open>The thread; the argument counts how often \<open>kthread_should_stop\<close> says no.\<close>

fun nm32a_poll_thread :: "nat \<Rightarrow> nm32a \<Rightarrow> nm32a option" where
  "nm32a_poll_thread 0 s = Some s"
| "nm32a_poll_thread (Suc n) s = do { s \<leftarrow> nm32a_poll_sweep s; nm32a_poll_thread n s }"

end
