(* ===== verification/Nm32a_Safety.thy ===== *)
theory Nm32a_Safety
  imports Nm32a_Service
begin

text \<open>
  What a pass of the service routine keeps: the legality of the access log (confirmed
  acknowledges, data registers touched only in the granted context, every context ended,
  \<open>hw_lock\<close> held), the well-formed ports, and the transmit stream of every port.
\<close>

section \<open>What the stages keep\<close>

text \<open>
  \<open>tx_total i s\<close> is everything port \<open>i\<close> ever sent followed by what its ring still holds.
\<close>

definition tx_total :: "nat \<Rightarrow> nm32a \<Rightarrow> u8 list" where
  "tx_total i s = tx_sent (i div 4) (i mod 4) (evs s) @ ring_content (port i s)"

definition busy_ok :: "nm32a \<Rightarrow> bool" where
  "busy_ok s \<longleftrightarrow> card_inv s \<and> legal_log (evs s) \<and> hw_locked (evs s)"

definition keeps :: "nm32a \<Rightarrow> nm32a \<Rightarrow> bool" where
  "keeps s s' \<longleftrightarrow> (busy_ok s \<longrightarrow> busy_ok s') \<and> (\<forall>i. tx_total i s' = tx_total i s) \<and>
     hw s' = hw s \<and> par s' = par s \<and> (\<forall>i. popen (port i s') = popen (port i s)) \<and>
     (\<forall>c ch. prefix (rx_taken c ch (evs s)) (rx_taken c ch (evs s'))) \<and>
     (\<forall>c ch. prefix (tx_sent c ch (evs s)) (tx_sent c ch (evs s')))"

lemma keeps_refl [simp]: "keeps s s"
  by (simp add: keeps_def)

lemma keeps_trans [trans]: "keeps s t \<Longrightarrow> keeps t u \<Longrightarrow> keeps s u"
  unfolding keeps_def by (metis prefix_order.trans)

lemma keepsD:
  assumes "keeps s s'"
  shows "busy_ok s \<Longrightarrow> busy_ok s'" and "tx_total i s' = tx_total i s" and "hw s' = hw s"
    and "par s' = par s" and "popen (port i s') = popen (port i s)"
  using assms by (simp_all add: keeps_def)

lemma keeps_same:
  assumes "evs s' = evs s" and "ports s' = ports s" and "hw s' = hw s" and "par s' = par s"
  shows "keeps s s'"
  using assms by (simp add: keeps_def busy_ok_def card_inv_def port_def tx_total_def)

lemma keeps_grows_plain:
  assumes "grows plain s s'"
  shows "keeps s s'"
  using grows_plain_mon [OF assms] grows_fields [OF assms] card_inv_grows [OF assms]
  by (auto simp: keeps_def busy_ok_def tx_total_def)

lemma crd_plain:
  assumes "crd c r s = Some (v, s')" and "r \<noteq> RDR" and "r \<noteq> RIR"
  shows "keeps s s'" and "open_ctx (evs s') = open_ctx (evs s)" and "ports s' = ports s"
    and "evs s' = RdB (Reg c r) v # evs s" and "rx_taken c' ch (evs s') = rx_taken c' ch (evs s)"
    and "flipped i (evs s') = flipped i (evs s)"
proof -
  have g: "grows plain s s'" using assms by (intro grows_crd) auto
  show "keeps s s'" by (rule keeps_grows_plain [OF g])
  show "open_ctx (evs s') = open_ctx (evs s)" using grows_plain_mon(2) [OF g] .
  show "ports s' = ports s" using grows_fields(1) [OF g] .
  show "evs s' = RdB (Reg c r) v # evs s" using assms(1) by (simp add: crd_Some)
  show "rx_taken c' ch (evs s') = rx_taken c' ch (evs s)" using grows_plain_mon(4) [OF g] .
  show "flipped i (evs s') = flipped i (evs s)" using grows_plain_mon(5) [OF g] .
qed

lemma keeps_ev_plain: "plain e \<Longrightarrow> keeps s (ev e s)"
  by (intro keeps_grows_plain grows_ev)

section \<open>The data stages\<close>

lemma read_rdr_spec:
  assumes "read_rdr c us n s = Some (bs, s')" and "open_ctx (evs s) = RxCtx c ch" and "ch < 4"
  shows "keeps s s' \<and> open_ctx (evs s') = RxCtx c ch \<and> length bs = n \<and> ports s' = ports s \<and>
    (\<forall>c' ch'. rx_taken c' ch' (evs s') =
       rx_taken c' ch' (evs s) @ (if c' = c \<and> ch' = ch then bs else [])) \<and>
    (\<forall>i. flipped i (evs s') = flipped i (evs s))"
  using assms
proof (induction n arbitrary: s bs)
  case 0
  then show ?case by simp
next
  case (Suc n)
  from Suc.prems(1) obtain v s1 vs where r: "crd c RDR s = Some (v, s1)"
    and k: "read_rdr c us n (if us \<noteq> 0 then ev (Udelay us) s1 else s1) = Some (vs, s')"
    and bs: "bs = v # vs"
    by (auto elim!: bind_SomeE simp: Let_def)
  let ?s2 = "if us \<noteq> 0 then ev (Udelay us) s1 else s1"
  have s1: "s1 = ev (RdB (Reg c RDR) v) s" using r by (simp add: crd_Some)
  have k1: "keeps s s1"
    using Suc.prems(2,3) by (auto simp: s1 keeps_def busy_ok_def tx_total_def)
  have k2: "keeps s1 ?s2" by (simp add: keeps_ev_plain)
  have o2: "open_ctx (evs ?s2) = RxCtx c ch" "ports ?s2 = ports s"
      "\<And>c' ch'. rx_taken c' ch' (evs ?s2) = rx_taken c' ch' (evs s) @ (if c' = c \<and> ch' = ch then [v] else [])"
      "\<forall>i. flipped i (evs ?s2) = flipped i (evs s)"
    using Suc.prems(2) by (simp_all add: s1)
  show ?case
    using Suc.IH [OF k o2(1) Suc.prems(3)] keeps_trans [OF k1 keeps_trans [OF k2]] o2 bs by auto
qed

lemma eoi_retry_spec:
  assumes "eoi_retry n c reg val s = Some s'"
    and "reg = REOIR \<and> open_ctx (evs s) = RxEnd c ch \<or> reg = TEOIR \<and> open_ctx (evs s) = TxEnd c ch"
    and "ch < 4"
  shows "keeps s s' \<and> open_ctx (evs s') = open_ctx (evs s) \<and> ports s' = ports s \<and>
    rx_taken c' ch' (evs s') = rx_taken c' ch' (evs s) \<and> flipped i (evs s') = flipped i (evs s)"
  using assms
proof (induction n arbitrary: s)
  case 0
  then show ?case
    using crd_plain [of c STK s] by (auto split: if_splits elim!: bind_SomeE)
next
  case (Suc n)
  from Suc.prems(1) obtain v s1 where r: "crd c STK s = Some (v, s1)"
    and k: "(if v AND 0x81 = 0 then Some s1 else eoi_retry n c reg val (cwr c reg val s1)) = Some s'"
    by (auto elim!: bind_SomeE)
  note P = crd_plain [OF r]
  have w: "keeps s1 (cwr c reg val s1)"
    using Suc.prems(2,3) P(2)
    by (auto simp: keeps_def busy_ok_def tx_total_def)
  have o: "open_ctx (evs (cwr c reg val s1)) = open_ctx (evs s)"
    using Suc.prems(2) P(2) by auto
  have wf: "rx_taken c' ch' (evs (cwr c reg val s1)) = rx_taken c' ch' (evs s)"
      "flipped i (evs (cwr c reg val s1)) = flipped i (evs s)"
    using P by simp_all
  show ?case
  proof (cases "v AND 0x81 = 0")
    case True
    with k P show ?thesis by simp
  next
    case False
    with k have "eoi_retry n c reg val (cwr c reg val s1) = Some s'" by simp
    from Suc.IH [OF this] o Suc.prems(2,3) wf P keeps_trans [OF P(1) keeps_trans [OF w]]
    show ?thesis by auto
  qed
qed

lemma eoi_spec:
  assumes "nm32a_eoi c reg val s = Some s'"
    and "reg = REOIR \<and> open_ctx (evs s) = RxCtx c ch \<or> reg = TEOIR \<and> open_ctx (evs s) = TxCtx c ch"
    and "ch < 4"
  shows "keeps s s' \<and> open_ctx (evs s') = end_ctx (open_ctx (evs s)) \<and> ports s' = ports s \<and>
    rx_taken c' ch' (evs s') = rx_taken c' ch' (evs s) \<and> flipped i (evs s') = flipped i (evs s)"
proof -
  let ?s1 = "cwr c reg val s"
  have w: "keeps s ?s1"
    using assms(2,3) by (auto simp: keeps_def busy_ok_def tx_total_def)
  have o: "reg = REOIR \<and> open_ctx (evs ?s1) = RxEnd c ch \<or> reg = TEOIR \<and> open_ctx (evs ?s1) = TxEnd c ch"
    and e: "open_ctx (evs ?s1) = end_ctx (open_ctx (evs s))"
    using assms(2) by auto
  have f: "rx_taken c' ch' (evs ?s1) = rx_taken c' ch' (evs s)" "flipped i (evs ?s1) = flipped i (evs s)"
    by simp_all
  show ?thesis
  proof (cases "eoiretry (par s) = 0")
    case True
    then have "s' = ?s1" using assms(1) by (simp add: nm32a_eoi_def)
    with w e f show ?thesis by simp
  next
    case False
    then have r: "eoi_retry EOI_TRIES c reg val ?s1 = Some s'"
      using assms(1) by (simp add: nm32a_eoi_def)
    note E = eoi_retry_spec [OF r o assms(3), of c' ch' i]
    from E have "keeps s s'" using keeps_trans [OF w] by blast
    moreover have "ports ?s1 = ports s" by simp
    ultimately show ?thesis using E e f by metis
  qed
qed

lemma tx_total_put:
  assumes "ring_inv np" and "\<not> tx_empty np"
  shows "ring_content np = tx_front np # ring_content (tx_pop np)"
  using assms ring_empty_iff [OF assms(1)] by (simp add: ring_content_pop)

lemma pidx_div_mod: "ch < (4::nat) \<Longrightarrow> i div 4 = c \<and> i mod 4 = ch \<longleftrightarrow> i = c * 4 + ch"
  using div_mult_mod_eq [of i 4] by auto

lemma busy_ok_port:
  "busy_ok s \<Longrightarrow> c < 8 \<Longrightarrow> ch < 4 \<Longrightarrow> pidx c ch < length (ports s) \<and> ring_inv (port (pidx c ch) s)"
  by (auto simp: busy_ok_def card_inv_def)

text \<open>One byte from the ring to the transmitter, inside its context.\<close>

lemma tx_byte:
  assumes "busy_ok s" and "open_ctx (evs s) = TxCtx c ch" and "c < 8" and "ch < 4"
    and "\<not> tx_empty (port (pidx c ch) s)"
  defines "s' \<equiv> set_port (pidx c ch) (tx_pop (port (pidx c ch) s)) (cwr c TDR (tx_front (port (pidx c ch) s)) s)"
  shows "keeps s s' \<and> busy_ok s' \<and> open_ctx (evs s') = TxCtx c ch \<and>
    rx_taken c' ch' (evs s') = rx_taken c' ch' (evs s) \<and> flipped i (evs s') = flipped i (evs s)"
proof -
  let ?i = "pidx c ch" and ?np = "port (pidx c ch) s"
  have len: "?i < length (ports s)" and inv: "ring_inv ?np"
    using busy_ok_port [OF assms(1,3,4)] by simp_all
  have evs': "evs s' = WrB (Reg c TDR) (tx_front ?np) # evs s" by (simp add: s'_def)
  have port': "port j s' = (if j = ?i then tx_pop ?np else port j s)" for j
    using len by (simp add: s'_def port_set_port)
  have fields: "chip (tx_pop ?np) = chip ?np" "chan (tx_pop ?np) = chan ?np" "popen (tx_pop ?np) = popen ?np"
    by (simp_all add: tx_pop_def)
  have card: "card_inv s'"
    unfolding s'_def using assms(1) inv fields
    by (intro card_inv_set_port) (simp_all add: busy_ok_def)
  have busy: "busy_ok s'"
    using assms(1,2,4) card by (auto simp: busy_ok_def evs')
  have total: "tx_total j s' = tx_total j s" for j
  proof (cases "j = ?i")
    case True
    then have "j div 4 = c" "j mod 4 = ch" using assms(4) pidx_div_mod by blast+
    then show ?thesis
      using True assms(2) tx_total_put [OF inv assms(5)]
      by (simp add: tx_total_def evs' port')
  next
    case False
    then have "\<not> (j div 4 = c \<and> j mod 4 = ch)" using assms(4) pidx_div_mod by blast
    then show ?thesis using False assms(2) by (auto simp: tx_total_def evs' port')
  qed
  have "hw s' = hw s" and "par s' = par s" by (simp_all add: s'_def)
  then have "keeps s s'"
    using busy total by (simp add: keeps_def port' fields evs')
  then show ?thesis using busy assms(2) by (simp add: evs')
qed

lemma tx_fill_spec:
  assumes "tx_fill n c (pidx c ch) s = (k, s')" and "busy_ok s"
    and "open_ctx (evs s) = TxCtx c ch" and "c < 8" and "ch < 4"
  shows "keeps s s' \<and> open_ctx (evs s') = TxCtx c ch \<and> k \<le> n \<and>
    rx_taken c' ch' (evs s') = rx_taken c' ch' (evs s) \<and> flipped i (evs s') = flipped i (evs s)"
  using assms
proof (induction n arbitrary: s k)
  case 0
  then show ?case by simp
next
  case (Suc n)
  show ?case
  proof (cases "tx_empty (port (pidx c ch) s)")
    case True
    with Suc.prems show ?thesis by simp
  next
    case False
    let ?s1 = "set_port (pidx c ch) (tx_pop (port (pidx c ch) s)) (cwr c TDR (tx_front (port (pidx c ch) s)) s)"
    note B = tx_byte [OF Suc.prems(2-5) False, of c' ch' i]
    from Suc.prems(1) False obtain m where m: "tx_fill n c (pidx c ch) ?s1 = (m, s')" "k = Suc m"
      by (auto simp: Let_def split: prod.splits)
    from Suc.IH [OF m(1)] B Suc.prems(4,5)
    have IH: "keeps ?s1 s' \<and> open_ctx (evs s') = TxCtx c ch \<and> m \<le> n \<and>
        rx_taken c' ch' (evs s') = rx_taken c' ch' (evs ?s1) \<and> flipped i (evs s') = flipped i (evs ?s1)"
      by blast
    then have "keeps s s'" using B keeps_trans by blast
    with IH B m(2) show ?thesis by auto
  qed
qed

section \<open>Leaving the service\<close>

text \<open>\<open>good\<close>: what holds between two operations of the driver.\<close>

definition good :: "nm32a \<Rightarrow> bool" where
  "good s \<longleftrightarrow> card_inv s \<and> legal_log (evs s) \<and> \<not> hw_locked (evs s) \<and> closed (evs s)"

definition serves :: "nm32a \<Rightarrow> nm32a \<Rightarrow> bool" where
  "serves s s' \<longleftrightarrow> good s' \<and> (\<forall>i. tx_total i s' = tx_total i s) \<and> hw s' = hw s \<and> par s' = par s \<and>
     (\<forall>i. popen (port i s') = popen (port i s)) \<and>
     (\<forall>c ch. prefix (rx_taken c ch (evs s)) (rx_taken c ch (evs s'))) \<and>
     (\<forall>c ch. prefix (tx_sent c ch (evs s)) (tx_sent c ch (evs s')))"

lemma lock_mon [simp]:
  "open_ctx (evs (mutex_lock s)) = open_ctx (evs s)" "open_ctx (evs (mutex_unlock s)) = open_ctx (evs s)"
  "tx_total i (mutex_lock s) = tx_total i s" "tx_total i (mutex_unlock s) = tx_total i s"
  "rx_taken c ch (evs (mutex_unlock s)) = rx_taken c ch (evs s)"
  "flipped i (evs (mutex_unlock s)) = flipped i (evs s)"
  by (simp_all add: tx_total_def)

lemma lock_busy: "good s \<Longrightarrow> busy_ok (mutex_lock s)"
  by (simp add: good_def busy_ok_def)

lemma unlock_good: "busy_ok s \<Longrightarrow> closed (evs s) \<Longrightarrow> good (mutex_unlock s)"
  by (simp add: good_def busy_ok_def closed_def)

lemma keeps_unlock_serves:
  "keeps s s' \<Longrightarrow> busy_ok s \<Longrightarrow> closed (evs s') \<Longrightarrow> serves s (mutex_unlock s')"
  using unlock_good by (auto simp: serves_def keeps_def)

lemma flip_fields [simp]:
  "evs (tty_flip i bs s) = Flip i bs # evs s" "ports (tty_flip i bs s) = ports s"
  "hw (tty_flip i bs s) = hw s" "par (tty_flip i bs s) = par s" "port j (tty_flip i bs s) = port j s"
  "card_inv (tty_flip i bs s) = card_inv s"
  by (simp_all add: tty_flip_def)

lemma keeps_flip: "keeps s (tty_flip i bs s)"
  by (simp add: keeps_def busy_ok_def tx_total_def)

lemma keeps_deliver: "keeps s (rx_deliver i bs s)"
  by (simp add: rx_deliver_def keeps_flip)

lemma closed_deliver [simp]: "closed (evs (rx_deliver i bs s)) = closed (evs s)"
  by (simp add: rx_deliver_def closed_def)

lemma serves_deliver: "serves s s' \<Longrightarrow> serves s (rx_deliver i bs s')"
  by (simp add: rx_deliver_def serves_def good_def closed_def tx_total_def)

lemma flipped_deliver:
  "flipped i (evs (rx_deliver j bs s)) =
     flipped i (evs s) @ (if i = j \<and> popen (port i s) then bs else [])"
  by (cases bs) (auto simp: rx_deliver_def)

lemma rx_taken_deliver [simp]: "rx_taken c ch (evs (rx_deliver j bs s)) = rx_taken c ch (evs s)"
  by (simp add: rx_deliver_def)

lemma keeps_set_port:
  assumes "chip np = chip (port i s)" and "chan np = chan (port i s)" and "popen np = popen (port i s)"
    and "txb np = txb (port i s)" and "head np = head (port i s)" and "tail np = tail (port i s)"
  shows "keeps s (set_port i np s)"
proof (cases "i < length (ports s)")
  case True
  have c: "ring_content np = ring_content (port i s)" and r: "ring_inv np = ring_inv (port i s)"
    using assms(4-6) by (simp_all add: ring_content_def ring_used_def ring_inv_def)
  have "card_inv s \<Longrightarrow> card_inv (set_port i np s)"
    using assms(1,2) r by (intro card_inv_set_port) simp_all
  with True c assms(3) show ?thesis
    by (auto simp: keeps_def busy_ok_def tx_total_def port_set_port)
next
  case False
  then show ?thesis by (simp add: set_port_beyond)
qed

lemma rx_exception_spec:
  assumes "closed (evs s)"
  shows "keeps s (nm32a_rx_exception c ch risr s) \<and> closed (evs (nm32a_rx_exception c ch risr s)) \<and>
    rx_taken c' ch' (evs (nm32a_rx_exception c ch risr s)) = rx_taken c' ch' (evs s) \<and>
    flipped i (evs (nm32a_rx_exception c ch risr s)) = flipped i (evs s)"
proof -
  let ?np = "port (pidx c ch) s"
  define np1 where "np1 = (if time_after (jiffies s) (err_win ?np + NM32A_ERR_WINDOW s)
      then ?np\<lparr>err_win := jiffies s, err_cnt := 0\<rparr> else ?np)"
  define np2 where "np2 = np1\<lparr>err_cnt := err_cnt np1 + 1\<rparr>"
  have same: "chip np2 = chip ?np" "chan np2 = chan ?np" "popen np2 = popen ?np" "txb np2 = txb ?np"
      "head np2 = head ?np" "tail np2 = tail ?np"
    by (simp_all add: np2_def np1_def)
  have eq: "nm32a_rx_exception c ch risr s =
      (if err_cnt np2 \<noteq> 200 \<or> rx_off np2 then set_port (pidx c ch) np2 s
       else cwr c IER 0x01 (cwr c CAR (word_of_nat ch) (set_port (pidx c ch) (np2\<lparr>rx_off := True\<rparr>) s)))"
    by (simp add: nm32a_rx_exception_def Let_def np2_def np1_def)
  let ?mute = "set_port (pidx c ch) (np2\<lparr>rx_off := True\<rparr>) s"
  have g: "grows plain ?mute (cwr c IER 0x01 (cwr c CAR (word_of_nat ch) ?mute))"
    by (rule grows_trans [OF grows_cwr grows_cwr]) simp_all
  have "keeps s ?mute" using same by (intro keeps_set_port) simp_all
  also have "keeps ?mute (cwr c IER 0x01 (cwr c CAR (word_of_nat ch) ?mute))"
    by (rule keeps_grows_plain [OF g])
  finally have k: "keeps s (cwr c IER 0x01 (cwr c CAR (word_of_nat ch) ?mute))" .
  have k2: "keeps s (set_port (pidx c ch) np2 s)" using same by (intro keeps_set_port)
  show ?thesis
    using k k2 assms by (simp add: eq closed_def)
qed

section \<open>The branches\<close>

text \<open>
  \<open>rx_moves\<close>: the receiver of channel \<open>(c, ch)\<close> gave \<open>taken\<close>, of which the tty layer got
  \<open>given\<close> if the port is open; nothing reached another tty.
\<close>

definition rx_moves :: "nat \<Rightarrow> nat \<Rightarrow> u8 list \<Rightarrow> u8 list \<Rightarrow> nm32a \<Rightarrow> nm32a \<Rightarrow> bool" where
  "rx_moves c ch taken given s s' \<longleftrightarrow>
     (\<forall>c' ch'. rx_taken c' ch' (evs s') =
        rx_taken c' ch' (evs s) @ (if c' = c \<and> ch' = ch then taken else [])) \<and>
     (\<forall>i. flipped i (evs s') =
        flipped i (evs s) @ (if i = pidx c ch \<and> popen (port i s) then given else []))"

lemma rx_count_le: "rx_count rf \<le> 31"
proof -
  define n where "n = unat (rf AND 0x1f)"
  have "n < 32" unfolding n_def by (rule unat_and_1f)
  moreover have "rx_count rf = (if 32 < n then 32 else n)" by (simp add: rx_count_def n_def)
  ultimately show ?thesis by simp
qed

lemma keeps_counters:
  "keeps s (s\<lparr>st_good := a, st_bytes := b\<rparr>)" "keeps s (s\<lparr>st_timeout := a\<rparr>)"
  "keeps s (s\<lparr>st_nogrant := a\<rparr>)" "keeps s (s\<lparr>st_misgrant := a\<rparr>)" "keeps s (bump_st_break e s)"
  "keeps s (s\<lparr>trace := t\<rparr>)"
  by (intro keeps_same; simp add: bump_st_break_def Let_def)+

lemma bump_fields [simp]: "evs (bump_st_break e s) = evs s" "ports (bump_st_break e s) = ports s"
  by (simp_all add: bump_st_break_def Let_def)

lemma service_rx_data_spec:
  assumes "service_rx_data c ch s = Some (b, s')" and "busy_ok s" and "open_ctx (evs s) = RxCtx c ch"
    and "ch < 4"
  shows "b \<and> serves s s' \<and> (\<exists>bs. length bs \<le> 31 \<and> rx_moves c ch bs bs s s')"
proof -
  from assms(1) obtain rf s1 bs s2 s4 where
      r1: "crd c RFOC s = Some (rf, s1)"
    and r2: "read_rdr c (rdrus (par s1)) (rx_count rf) s1 = Some (bs, s2)"
    and r4: "nm32a_eoi c REOIR 0x00
        (s2\<lparr>st_good := st_good s2 + 1, st_bytes := st_bytes s2 + word_of_nat (length bs)\<rparr>) = Some s4"
    and b: "b" and s': "s' = rx_deliver (pidx c ch) bs (mutex_unlock s4)"
    by (auto simp: service_rx_data_def Let_def elim!: bind_SomeE)
  let ?s3 = "s2\<lparr>st_good := st_good s2 + 1, st_bytes := st_bytes s2 + word_of_nat (length bs)\<rparr>"
  note P1 = crd_plain [OF r1, simplified]
  have o1: "open_ctx (evs s1) = RxCtx c ch" using P1 assms(3) by simp
  note P2 = read_rdr_spec [OF r2 o1 assms(4)]
  have o3: "REOIR = REOIR \<and> open_ctx (evs ?s3) = RxCtx c ch \<or> REOIR = TEOIR \<and> open_ctx (evs ?s3) = TxCtx c ch"
    using P2 by simp
  note P4 = eoi_spec [OF r4 o3 assms(4)]
  have k: "keeps s s4"
    using P1(1) P2 P4 keeps_counters(1) keeps_trans by meson
  have cl: "closed (evs s4)" using P4 P2 by (simp add: closed_def)
  have op: "popen (port i s4) = popen (port i s)" for i using keepsD(5) [OF k] .
  have "serves s s'"
    unfolding s' by (intro serves_deliver keeps_unlock_serves k assms(2) cl)
  moreover have "rx_moves c ch bs bs s s'"
    using P1 P2 P4 by (auto simp: rx_moves_def s' flipped_deliver op)
  moreover have "length bs \<le> 31" using P2 rx_count_le [of rf] by simp
  ultimately show ?thesis using b by blast
qed

lemma service_rx_exception_spec:
  assumes "service_rx_exception c ch tr s = Some (b, s')" and "busy_ok s"
    and "open_ctx (evs s) = RxCtx c ch" and "ch < 4"
  shows "b \<and> serves s s' \<and> (\<exists>taken given. length taken \<le> 31 \<and>
    (given = taken \<or> given = [] \<and> length taken \<le> 1) \<and> rx_moves c ch taken given s s')"
proof -
  from assms(1) obtain e s1 where r1: "crd c RISRl s = Some (e, s1)" and
    k: "(let s = bump_st_break e s1 in
      if e AND 0x80 \<noteq> 0 then do {
       let s = s\<lparr>st_timeout := st_timeout s + 1\<rparr>;
       (rf, s) \<leftarrow> crd c RFOC s;
       (bs, s) \<leftarrow> read_rdr c 0 (rx_count rf) s;
       s \<leftarrow> nm32a_eoi c REOIR 0x00 s;
       Some (True, mutex_unlock (rx_deliver (pidx c ch) bs s))
     } else do {
       s \<leftarrow> (if tr then do { (_, s) \<leftarrow> crd c RFOC s; Some s } else Some s);
       (rf, s) \<leftarrow> crd c RFOC s;
       s \<leftarrow> (if rf AND 0x1f \<noteq> 0 then do { (_, s) \<leftarrow> crd c RDR s; Some s } else Some s);
       s \<leftarrow> nm32a_eoi c REOIR 0x00 s;
       Some (True, mutex_unlock (nm32a_rx_exception c ch e s))
     }) = Some (b, s')"
    by (auto simp: service_rx_exception_def elim!: bind_SomeE)
  note P1 = crd_plain [OF r1, simplified]
  let ?s2 = "bump_st_break e s1"
  have k2: "keeps s ?s2" using P1(1) keeps_counters(5) keeps_trans by blast
  have o2: "open_ctx (evs ?s2) = RxCtx c ch" using P1 assms(3) by simp
  have f2: "rx_taken c' ch' (evs ?s2) = rx_taken c' ch' (evs s)" "flipped i (evs ?s2) = flipped i (evs s)"
    for c' ch' i
    using P1 by simp_all
  show ?thesis
  proof (cases "e AND 0x80 \<noteq> 0")
    case True
    let ?s3 = "?s2\<lparr>st_timeout := st_timeout ?s2 + 1\<rparr>"
    from True k obtain rf s4 bs s5 s6 where
        r4: "crd c RFOC ?s3 = Some (rf, s4)"
      and r5: "read_rdr c 0 (rx_count rf) s4 = Some (bs, s5)"
      and r6: "nm32a_eoi c REOIR 0x00 s5 = Some s6"
      and b: "b" and s': "s' = mutex_unlock (rx_deliver (pidx c ch) bs s6)"
      by (auto simp: Let_def elim!: bind_SomeE)
    note P4 = crd_plain [OF r4, simplified]
    have o4: "open_ctx (evs s4) = RxCtx c ch" using P4 o2 by simp
    note P5 = read_rdr_spec [OF r5 o4 assms(4)]
    have o5: "REOIR = REOIR \<and> open_ctx (evs s5) = RxCtx c ch \<or> REOIR = TEOIR \<and> open_ctx (evs s5) = TxCtx c ch"
      using P5 by simp
    note P6 = eoi_spec [OF r6 o5 assms(4)]
    have k6: "keeps s s6"
      using k2 keeps_counters(2) P4(1) P5 P6 keeps_trans by meson
    have cl: "closed (evs s6)" using P5 P6 by (simp add: closed_def)
    have op: "popen (port i s6) = popen (port i s)" for i using keepsD(5) [OF k6] .
    have "serves s s'"
      unfolding s' using cl
      by (intro keeps_unlock_serves keeps_trans [OF k6 keeps_deliver] assms(2)) simp
    moreover have "rx_moves c ch bs bs s s'"
      using f2 P4 P5 P6 by (auto simp: rx_moves_def s' flipped_deliver op)
    moreover have "length bs \<le> 31" using P5 rx_count_le [of rf] by simp
    ultimately show ?thesis using b by blast
  next
    case False
    from False k obtain s3 rf s4 s5 s6 where
        r3: "(if tr then do { (_, s) \<leftarrow> crd c RFOC ?s2; Some s } else Some ?s2) = Some s3"
      and r4: "crd c RFOC s3 = Some (rf, s4)"
      and r5: "(if rf AND 0x1f \<noteq> 0 then do { (_, s) \<leftarrow> crd c RDR s4; Some s } else Some s4) = Some s5"
      and r6: "nm32a_eoi c REOIR 0x00 s5 = Some s6"
      and b: "b" and s': "s' = mutex_unlock (nm32a_rx_exception c ch e s6)"
      by (auto simp: Let_def elim!: bind_SomeE)
    have P3: "keeps ?s2 s3 \<and> open_ctx (evs s3) = RxCtx c ch \<and>
        rx_taken c' ch' (evs s3) = rx_taken c' ch' (evs ?s2) \<and> flipped i (evs s3) = flipped i (evs ?s2)"
    for c' ch' i
    proof (cases tr)
      case True
      with r3 obtain v where "crd c RFOC ?s2 = Some (v, s3)" by (auto elim!: bind_SomeE)
      from crd_plain [OF this, simplified] o2 show ?thesis by simp
    next
      case False
      with r3 o2 show ?thesis by simp
    qed
    note P4 = crd_plain [OF r4, simplified]
    have o4: "open_ctx (evs s4) = RxCtx c ch" using P4 P3 by simp
    obtain taken where P5: "keeps s4 s5 \<and> open_ctx (evs s5) = RxCtx c ch \<and> length taken \<le> 1 \<and>
        (\<forall>c' ch'. rx_taken c' ch' (evs s5) =
           rx_taken c' ch' (evs s4) @ (if c' = c \<and> ch' = ch then taken else [])) \<and>
        (\<forall>i. flipped i (evs s5) = flipped i (evs s4))"
    proof (cases "rf AND 0x1f \<noteq> 0")
      case True
      with r5 obtain v where v: "crd c RDR s4 = Some (v, s5)" by (auto elim!: bind_SomeE)
      then have "read_rdr c 0 1 s4 = Some ([v], s5)" by simp
      from read_rdr_spec [OF this o4 assms(4)] that [of "[v]"] show ?thesis by simp
    next
      case False
      with r5 o4 that [of "[]"] show ?thesis by simp
    qed
    have o5: "REOIR = REOIR \<and> open_ctx (evs s5) = RxCtx c ch \<or> REOIR = TEOIR \<and> open_ctx (evs s5) = TxCtx c ch"
      using P5 by simp
    note P6 = eoi_spec [OF r6 o5 assms(4)]
    have cl: "closed (evs s6)" using P5 P6 by (simp add: closed_def)
    note P7 = rx_exception_spec [OF cl]
    have k7: "keeps s (nm32a_rx_exception c ch e s6)"
      using k2 P3 P4(1) P5 P6 P7 keeps_trans by meson
    have "serves s s'"
      unfolding s' using P7 by (intro keeps_unlock_serves k7 assms(2)) blast
    moreover have "rx_moves c ch taken [] s s'"
      using f2 P3 P4 P5 P6 P7 by (auto simp: rx_moves_def s')
    ultimately show ?thesis using b P5 by (metis le_trans one_le_numeral)
  qed
qed

lemma keeps_busy: "keeps s s' \<Longrightarrow> busy_ok s \<Longrightarrow> busy_ok s'"
  by (simp add: keeps_def)

lemma service_tx_spec:
  assumes "service_tx c tir s = Some (b, s')" and "busy_ok s"
    and "open_ctx (evs s) = TxCtx c (unat (tir AND 3))" and "c < 8"
  shows "b \<and> serves s s' \<and> rx_moves c ch' [] [] s s'"
proof -
  let ?ch = "unat (tir AND 3)"
  let ?room = "\<lambda>tf. if unat (tf :: u8) > 16 then 16 else unat tf"
  from assms(1) obtain tf s1 where r1: "crd c TFTC s = Some (tf, s1)"
    by (cases "crd c TFTC s") (auto simp: service_tx_def)
  with assms(1) have k: "(case tx_fill (?room tf) c (pidx c ?ch) s1 of (i, s2) \<Rightarrow>
        nm32a_eoi c TEOIR (if i \<noteq> 0 then 0x00 else 0x08) (if i = 0 then cwr c IER 0x28 s2 else s2)
          \<bind> (\<lambda>s. Some (True, mutex_unlock s))) = Some (b, s')"
    by (simp add: service_tx_def Let_def case_prod_unfold cong: if_cong)
  obtain i s2 where f: "tx_fill (?room tf) c (pidx c ?ch) s1 = (i, s2)"
    by (cases "tx_fill (?room tf) c (pidx c ?ch) s1")
  let ?s3 = "if i = 0 then cwr c IER 0x28 s2 else s2"
  from k [unfolded f prod.case] obtain s4 where
      r4: "nm32a_eoi c TEOIR (if i \<noteq> 0 then 0x00 else 0x08) ?s3 = Some s4"
    and b: "b" and s': "s' = mutex_unlock s4"
    by (elim bind_SomeE) simp
  note P1 = crd_plain [OF r1, simplified]
  have o1: "open_ctx (evs s1) = TxCtx c ?ch" using P1 assms(3) by simp
  have b1: "busy_ok s1" using P1(1) assms(2) by (rule keeps_busy)
  note P2 = tx_fill_spec [OF f b1 o1 assms(4) unat_and_3]
  have g3: "grows plain s2 ?s3" by (simp add: grows_cwr)
  have o3: "TEOIR = REOIR \<and> open_ctx (evs ?s3) = RxCtx c ?ch \<or> TEOIR = TEOIR \<and> open_ctx (evs ?s3) = TxCtx c ?ch"
    using P2 grows_plain_mon(2) [OF g3] by simp
  note P4 = eoi_spec [OF r4 o3 unat_and_3]
  have k4: "keeps s s4"
    using P1(1) P2 keeps_grows_plain [OF g3] P4 keeps_trans by meson
  have cl: "closed (evs s4)" using P4 o3 by (simp add: closed_def)
  have "serves s s'"
    unfolding s' by (intro keeps_unlock_serves k4 assms(2) cl)
  moreover have "rx_moves c ch' [] [] s s'"
    using P1 P2 P4 grows_plain_mon(4,5) [OF g3] by (simp add: rx_moves_def s')
  ultimately show ?thesis using b by blast
qed

section \<open>The acknowledge\<close>

text \<open>Reading RIR outside a grant changes nothing.\<close>

lemma rir_read:
  assumes "crd c RIR s = Some (v, s')" and "just_acked c (evs s) = None"
  shows "keeps s s'" and "open_ctx (evs s') = open_ctx (evs s)" and "evs s' = RdB (Reg c RIR) v # evs s"
    and "ports s' = ports s"
    and "rx_taken c' ch (evs s') = rx_taken c' ch (evs s)" and "flipped i (evs s') = flipped i (evs s)"
  using assms by (auto simp: crd_Some keeps_def busy_ok_def tx_total_def)

text \<open>What the acknowledge granted, as the driver reads it in the two registers.\<close>

definition granted :: "u8 \<Rightarrow> u8 \<Rightarrow> bool" where
  "granted tir rir \<longleftrightarrow> rir AND 0xC0 = 0x40 \<or> tir AND 0xC0 = 0x40"

lemma ack_reads:
  assumes "rdb (Bar a) s = Some (v, s1)" and "crd c TIR s1 = Some (tir, s2)"
    and "crd c RIR s2 = Some (rir, s3)" and "busy_ok s" and "confirmed (evs s)"
  shows "busy_ok s3" and "open_ctx (evs s3) = grant c tir rir" and "ports s3 = ports s"
    and "tx_total i s3 = tx_total i s" and "hw s3 = hw s" and "par s3 = par s"
    and "rx_taken c' ch (evs s3) = rx_taken c' ch (evs s)" and "flipped i (evs s3) = flipped i (evs s)"
    and "evs s3 = RdB (Reg c RIR) rir # RdB (Reg c TIR) tir # RdB (Bar a) v # evs s"
    and "tx_sent c' ch (evs s3) = tx_sent c' ch (evs s)"
  using assms by (auto simp: rdb_Some crd_Some busy_ok_def just_acked_def tx_total_def)

text \<open>
  \<open>pass_ok\<close>: a pass of the service routine of chip \<open>c\<close> from \<open>s\<close> to \<open>s'\<close>.  It moved at most one
  FIFO of at most one channel, and what it took it gave to that channel's tty, except that an
  exception drops at most one character.
\<close>

definition pass_ok :: "nat \<Rightarrow> nm32a \<Rightarrow> nm32a \<Rightarrow> bool" where
  "pass_ok c s s' \<longleftrightarrow> serves s s' \<and> (\<exists>ch < 4. \<exists>taken given. length taken \<le> 31 \<and>
     (given = taken \<or> given = [] \<and> length taken \<le> 1) \<and> rx_moves c ch taken given s s')"

lemma pass_okI:
  "serves s s' \<Longrightarrow> ch < 4 \<Longrightarrow> length taken \<le> 31 \<Longrightarrow>
     given = taken \<or> given = [] \<and> length taken \<le> 1 \<Longrightarrow> rx_moves c ch taken given s s' \<Longrightarrow> pass_ok c s s'"
  unfolding pass_ok_def by blast

lemma pass_ok_idle: "serves s s' \<Longrightarrow> rx_moves c 0 [] [] s s' \<Longrightarrow> pass_ok c s s'"
  by (rule pass_okI [of s s' 0 "[]" "[]"]) simp_all

lemma service_rx_spec:
  assumes "service_rx c rir tr s = Some (b, s')" and "busy_ok s"
    and "open_ctx (evs s) = RxCtx c (unat (rir AND 3))"
  shows "b \<and> pass_ok c s s'"
proof (cases "rir AND 0x0c = 0x0c")
  case True
  with assms(1) have "service_rx_data c (unat (rir AND 3)) s = Some (b, s')"
    by (simp add: service_rx_def)
  from service_rx_data_spec [OF this assms(2,3) unat_and_3] show ?thesis
    using unat_and_3 [of rir] unfolding pass_ok_def by blast
next
  case False
  with assms(1) have "service_rx_exception c (unat (rir AND 3)) tr s = Some (b, s')"
    by (simp add: service_rx_def)
  from service_rx_exception_spec [OF this assms(2,3) unat_and_3] show ?thesis
    using unat_and_3 [of rir] unfolding pass_ok_def by blast
qed

text \<open>Carrying a result over a step before it that moved nothing.\<close>

definition silent :: "nm32a \<Rightarrow> nm32a \<Rightarrow> bool" where
  "silent s s' \<longleftrightarrow> (\<forall>i. tx_total i s' = tx_total i s) \<and> hw s' = hw s \<and> par s' = par s \<and>
     (\<forall>i. popen (port i s') = popen (port i s)) \<and>
     (\<forall>c ch. tx_sent c ch (evs s') = tx_sent c ch (evs s)) \<and>
     (\<forall>c ch. rx_taken c ch (evs s') = rx_taken c ch (evs s)) \<and> (\<forall>i. flipped i (evs s') = flipped i (evs s))"

lemma silent_trans [trans]: "silent s t \<Longrightarrow> silent t u \<Longrightarrow> silent s u"
  by (simp add: silent_def)

lemma pass_ok_silent: "silent s t \<Longrightarrow> pass_ok c t s' \<Longrightarrow> pass_ok c s s'"
  by (simp add: silent_def pass_ok_def serves_def rx_moves_def)

lemma serves_silent_pass: "silent s s' \<Longrightarrow> good s' \<Longrightarrow> pass_ok c s s'"
  by (rule pass_ok_idle) (simp_all add: serves_def silent_def rx_moves_def)

lemma service_ack_spec:
  assumes "service_ack c tir0 rir0 tr s = Some (b, s')" and "busy_ok s" and "confirmed (evs s)"
    and "c < 8"
  shows "pass_ok c s s'"
proof -
  let ?a = "if rir0 AND 0x80 \<noteq> 0 then NM32A_ACK_RX s else NM32A_ACK_TX s"
  let ?rxg = "\<lambda>rir1 :: u8. rir1 AND 0xC0 = 0x40"
  from assms(1) obtain v s1 tir1 s2 rir1 s3 where
      r1: "rdb (Bar ?a) s = Some (v, s1)" and r2: "crd c TIR s1 = Some (tir1, s2)"
    and r3: "crd c RIR s2 = Some (rir1, s3)"
    and k: "(if \<not> ?rxg rir1 \<and> \<not> (\<not> ?rxg rir1 \<and> tir1 AND 0xC0 = 0x40)
      then Some (False, mutex_unlock (s3\<lparr>st_nogrant := st_nogrant s3 + 1\<rparr>))
      else (let s = (if ?rxg rir1 \<noteq> (rir0 AND 0x80 \<noteq> 0) then s3\<lparr>st_misgrant := st_misgrant s3 + 1\<rparr> else s3);
                rir = (if ?rxg rir1 then rir1 else 0);
                tir = (if \<not> ?rxg rir1 \<and> tir1 AND 0xC0 = 0x40 then tir1 else tir0)
            in if rir \<noteq> 0 then service_rx c rir tr s else service_tx c tir s)) = Some (b, s')"
    unfolding service_ack_def Let_def by (auto elim!: bind_SomeE simp del: not_not)
  note A = ack_reads [OF r1 r2 r3 assms(2,3)]
  have sil: "silent s s3"
    using A(3-6) by (simp add: silent_def A(7,8,10) port_def)
  let ?s4 = "if ?rxg rir1 \<noteq> (rir0 AND 0x80 \<noteq> 0) then s3\<lparr>st_misgrant := st_misgrant s3 + 1\<rparr> else s3"
  have same4: "evs ?s4 = evs s3" "ports ?s4 = ports s3" "hw ?s4 = hw s3" "par ?s4 = par s3" by simp_all
  have b4: "busy_ok ?s4" using keepsD(1) [OF keeps_same [OF same4] A(1)] .
  have sil4: "silent s3 ?s4" by (simp add: silent_def tx_total_def port_def)
  have pass: "pass_ok c ?s4 s' \<Longrightarrow> pass_ok c s s'"
    by (rule pass_ok_silent [OF silent_trans [OF sil sil4]])
  consider (rx) "?rxg rir1" | (tx) "\<not> ?rxg rir1" "tir1 AND 0xC0 = 0x40"
    | (none) "\<not> ?rxg rir1" "tir1 AND 0xC0 \<noteq> 0x40" by blast
  then show ?thesis
  proof cases
    case rx
    then have "rir1 \<noteq> 0" by auto
    with rx k have "service_rx c rir1 tr ?s4 = Some (b, s')" by (simp add: Let_def)
    moreover have "open_ctx (evs ?s4) = RxCtx c (unat (rir1 AND 3))" using A(2) rx by simp
    ultimately show ?thesis using service_rx_spec [OF _ b4] pass by blast
  next
    case tx
    with k have "service_tx c tir1 ?s4 = Some (b, s')" by (simp add: Let_def)
    moreover have "open_ctx (evs ?s4) = TxCtx c (unat (tir1 AND 3))" using A(2) tx by simp
    ultimately show ?thesis
      using service_tx_spec [OF _ b4 _ assms(4)] pass pass_ok_idle by blast
  next
    case none
    let ?s5 = "s3\<lparr>st_nogrant := st_nogrant s3 + 1\<rparr>"
    from none k have s': "s' = mutex_unlock ?s5" by simp
    have "busy_ok ?s5" using keepsD(1) [OF keeps_counters(3) A(1)] .
    moreover have "closed (evs ?s5)" using A(2) none by (simp add: closed_def)
    ultimately have "good s'" unfolding s' by (rule unlock_good)
    moreover have "silent s3 s'" by (simp add: s' silent_def tx_total_def port_def)
    ultimately show ?thesis using sil silent_trans serves_silent_pass by blast
  qed
qed

section \<open>The whole pass\<close>

lemma nm32a_service_spec:
  assumes "nm32a_service c s = Some (b, s')" and "good s" and "c < 8"
  shows "pass_ok c s s'"
proof -
  let ?tr = "\<lambda>tir0 rir0 s. 0 < trace s \<and> (tir0 OR rir0) AND (0x80 :: u8) \<noteq> 0"
  from assms(1) obtain tir0 s1 where r1: "crd c TIR (mutex_lock s) = Some (tir0, s1)"
    by (cases "crd c TIR (mutex_lock s)") (auto simp: nm32a_service_def)
  with assms(1) obtain rir0 s2 where r2: "crd c RIR s1 = Some (rir0, s2)"
    by (cases "crd c RIR s1") (auto simp: nm32a_service_def)
  from assms(1) r1 r2 have k: "(let tr = ?tr tir0 rir0 s2; s = (if tr then s2\<lparr>trace := trace s2 - 1\<rparr> else s2) in
      if (tir0 OR rir0) AND 0x80 = 0 then Some (False, mutex_unlock s)
      else do {
        (tirc, s) \<leftarrow> crd c TIR s;
        (rirc, s) \<leftarrow> crd c RIR s;
        if (tir0 OR rir0) AND (tirc OR rirc) AND 0x80 = 0 then Some (False, mutex_unlock s)
        else service_ack c tirc rirc tr s
      }) = Some (b, s')"
    by (simp add: nm32a_service_def Let_def cong: if_cong)
  let ?t = "?tr tir0 rir0 s2"
  let ?s3 = "if ?t then s2\<lparr>trace := trace s2 - 1\<rparr> else s2"
  have b0: "busy_ok (mutex_lock s)" and cl0: "closed (evs s)"
    using assms(2) by (simp_all add: lock_busy good_def)
  have s2: "evs s2 = RdB (Reg c RIR) rir0 # RdB (Reg c TIR) tir0 # Lk # evs s" "ports s2 = ports s"
      "hw s2 = hw s" "par s2 = par s"
    using r1 r2 by (simp_all add: crd_Some)
  have same3: "evs ?s3 = evs s2" "ports ?s3 = ports s2" "hw ?s3 = hw s2" "par ?s3 = par s2" by simp_all
  have b2: "busy_ok s2"
    using b0 s2 by (simp add: busy_ok_def just_acked_def card_inv_def port_def)
  have b3: "busy_ok ?s3" using keepsD(1) [OF keeps_same [OF same3] b2] .
  have sil3: "silent s ?s3"
    using s2 by (simp add: silent_def tx_total_def port_def just_acked_def)
  have cl3: "closed (evs ?s3)" using cl0 s2 by (simp add: closed_def just_acked_def)
  show ?thesis
  proof (cases "(tir0 OR rir0) AND 0x80 = 0")
    case True
    with k have s': "s' = mutex_unlock ?s3" by (simp add: Let_def)
    have "silent s s'" using sil3 by (simp add: s' silent_def)
    then show ?thesis
      using unlock_good [OF b3 cl3] s' by (intro serves_silent_pass) simp_all
  next
    case False
    with k obtain tirc s4 where r4: "crd c TIR ?s3 = Some (tirc, s4)"
      unfolding Let_def if_not_P [OF False] by (cases "crd c TIR ?s3") auto
    with False k obtain rirc s5 where r5: "crd c RIR s4 = Some (rirc, s5)"
      unfolding Let_def if_not_P [OF False] by (cases "crd c RIR s4") auto
    from k r4 r5 have k5: "(if (tir0 OR rir0) AND (tirc OR rirc) AND 0x80 = 0 then Some (False, mutex_unlock s5)
        else service_ack c tirc rirc ?t s5) = Some (b, s')"
      unfolding Let_def if_not_P [OF False] by (simp cong: if_cong)
    have s5: "evs s5 = RdB (Reg c RIR) rirc # RdB (Reg c TIR) tirc # evs ?s3" "ports s5 = ports ?s3"
        "hw s5 = hw ?s3" "par s5 = par ?s3"
      using r4 r5 by (simp_all add: crd_Some)
    have ja: "just_acked c (RdB (Reg c TIR) tirc # evs ?s3) = None"
      using s2 by (simp add: just_acked_def)
    have b5: "busy_ok s5"
      using b3 s5 ja by (simp add: busy_ok_def card_inv_def port_def)
    have "silent ?s3 s5"
      using s5 ja by (simp add: silent_def tx_total_def port_def)
    with sil3 have sil5: "silent s s5" by (rule silent_trans)
    have cl5: "closed (evs s5)" using cl3 s5 ja by (simp add: closed_def)
    show ?thesis
    proof (cases "(tir0 OR rir0) AND (tirc OR rirc) AND 0x80 = 0")
      case True
      with k5 have s': "s' = mutex_unlock s5" by simp
      have "silent s s'" using sil5 by (simp add: s' silent_def)
      then show ?thesis
        using unlock_good [OF b5 cl5] s' by (intro serves_silent_pass) simp_all
    next
      case False
      with k5 have "service_ack c tirc rirc ?t s5 = Some (b, s')" by simp
      moreover have "confirmed (evs s5)"
        using False s5 s2 by (simp add: confirmed_def)
      ultimately have "pass_ok c s5 s'" using service_ack_spec b5 assms(3) by blast
      with sil5 show ?thesis by (rule pass_ok_silent)
    qed
  qed
qed

end
