(* ===== verification/Nm32a_Frame.thy ===== *)
theory Nm32a_Frame
  imports Nm32a_Safety
begin

text \<open>
  What a pass of the service routine cannot touch: the registers, the ports and the transmit
  streams of the other chips.
\<close>

section \<open>A service stays on its chip\<close>

fun local_to :: "nat \<Rightarrow> cev \<Rightarrow> bool" where
  "local_to c (RdB (Reg c' r) v) = (c' = c)"
| "local_to c (WrB (Reg c' r) v) = (c' = c)"
| "local_to c _ = True"

definition on_card :: "nat \<Rightarrow> nm32a \<Rightarrow> nm32a \<Rightarrow> bool" where
  "on_card c s s' \<longleftrightarrow> (\<exists>pre. evs s' = pre @ evs s \<and> list_all (local_to c) pre) \<and>
     (\<forall>i. i div 4 \<noteq> c \<longrightarrow> port i s' = port i s)"

lemma on_card_refl [simp, intro]: "on_card c s s"
  by (simp add: on_card_def)

lemma on_card_same: "evs s' = evs s \<Longrightarrow> ports s' = ports s \<Longrightarrow> on_card c s s'"
  by (simp add: on_card_def port_def)

lemma on_card_trans [trans]:
  assumes "on_card c s t" and "on_card c t u"
  shows "on_card c s u"
proof -
  obtain a b where "evs t = a @ evs s" "evs u = b @ evs t" "list_all (local_to c) a" "list_all (local_to c) b"
    using assms by (auto simp: on_card_def)
  then have "evs u = (b @ a) @ evs s \<and> list_all (local_to c) (b @ a)" by simp
  with assms show ?thesis unfolding on_card_def by metis
qed

lemma on_card_ev: "local_to c e \<Longrightarrow> on_card c s (ev e s)"
  unfolding on_card_def by (auto intro: exI [of _ "[e]"])

lemma on_card_set_port: "ch < 4 \<Longrightarrow> on_card c s (set_port (pidx c ch) np s)"
  unfolding on_card_def by (auto simp: port_def set_port_def nth_list_update)

lemma on_card_crd: "crd c r s = Some (v, s') \<Longrightarrow> on_card c s s'"
  by (auto simp: crd_Some intro: on_card_ev)

lemma on_card_cwr: "on_card c s (cwr c r v s)"
  by (simp add: cwr_def on_card_ev)

lemma on_card_lock: "on_card c s (mutex_lock s)" "on_card c s (mutex_unlock s)"
  by (simp_all add: mutex_lock_def mutex_unlock_def on_card_ev)

lemma on_card_deliver: "on_card c s (rx_deliver i bs s)"
  by (simp add: rx_deliver_def tty_flip_def on_card_ev)

lemmas on_card_steps = on_card_crd on_card_cwr on_card_lock on_card_deliver on_card_set_port

lemma on_card_other:
  assumes "on_card c s s'" and "i div 4 \<noteq> c"
  shows "tx_sent (i div 4) ch (evs s') = tx_sent (i div 4) ch (evs s)" and "port i s' = port i s"
proof -
  obtain pre where e: "evs s' = pre @ evs s" and l: "list_all (local_to c) pre"
    using assms(1) by (auto simp: on_card_def)
  from l assms(2) show "tx_sent (i div 4) ch (evs s') = tx_sent (i div 4) ch (evs s)"
    unfolding e
  proof (induction pre)
    case (Cons e pre)
    then show ?case by (cases "(c, e)" rule: local_to.cases) auto
  qed simp
  show "port i s' = port i s" using assms by (simp add: on_card_def)
qed

lemma read_rdr_on_card: "read_rdr c us n s = Some (bs, s') \<Longrightarrow> on_card c s s'"
proof (induction n arbitrary: s bs)
  case (Suc n)
  then obtain v s1 vs where r: "crd c RDR s = Some (v, s1)"
    and k: "read_rdr c us n (if us \<noteq> 0 then ev (Udelay us) s1 else s1) = Some (vs, s')"
    by (auto elim!: bind_SomeE simp: Let_def)
  have "on_card c s1 (if us \<noteq> 0 then ev (Udelay us) s1 else s1)" by (simp add: on_card_ev)
  with on_card_crd [OF r] Suc.IH [OF k] show ?case by (blast intro: on_card_trans)
qed simp

lemma eoi_retry_on_card: "eoi_retry n c r v s = Some s' \<Longrightarrow> on_card c s s'"
proof (induction n arbitrary: s)
  case 0
  then show ?case by (auto split: if_splits elim!: bind_SomeE dest: on_card_crd)
next
  case (Suc n)
  then obtain x s1 where r: "crd c STK s = Some (x, s1)"
    and k: "(if x AND 0x81 = 0 then Some s1 else eoi_retry n c r v (cwr c r v s1)) = Some s'"
    by (auto elim!: bind_SomeE)
  show ?case
  proof (cases "x AND 0x81 = 0")
    case True
    with k on_card_crd [OF r] show ?thesis by simp
  next
    case False
    with k have "on_card c (cwr c r v s1) s'" by (intro Suc.IH) simp
    with on_card_crd [OF r] on_card_cwr show ?thesis by (blast intro: on_card_trans)
  qed
qed

lemma eoi_on_card: "nm32a_eoi c r v s = Some s' \<Longrightarrow> on_card c s s'"
  unfolding nm32a_eoi_def Let_def
  by (auto split: if_splits dest: eoi_retry_on_card intro: on_card_trans on_card_cwr)

lemma tx_fill_on_card: "tx_fill n c (pidx c ch) s = (k, s') \<Longrightarrow> ch < 4 \<Longrightarrow> on_card c s s'"
proof (induction n arbitrary: s k)
  case (Suc n)
  then show ?case
    by (auto simp: Let_def split: if_splits prod.splits
        intro: on_card_trans [OF on_card_trans [OF on_card_cwr on_card_set_port]])
qed simp

lemma rx_exception_on_card: "ch < 4 \<Longrightarrow> on_card c s (nm32a_rx_exception c ch e s)"
  unfolding nm32a_rx_exception_def Let_def
  by (auto intro: on_card_set_port on_card_trans [OF on_card_set_port on_card_trans [OF on_card_cwr on_card_cwr]])

lemma service_rx_data_on_card:
  assumes "service_rx_data c ch s = Some (b, s')"
  shows "on_card c s s'"
proof -
  from assms obtain rf s1 bs s2 s4 where
      r1: "crd c RFOC s = Some (rf, s1)"
    and r2: "read_rdr c (rdrus (par s1)) (rx_count rf) s1 = Some (bs, s2)"
    and r4: "nm32a_eoi c REOIR 0x00
        (s2\<lparr>st_good := st_good s2 + 1, st_bytes := st_bytes s2 + word_of_nat (length bs)\<rparr>) = Some s4"
    and s': "s' = rx_deliver (pidx c ch) bs (mutex_unlock s4)"
    by (auto simp: service_rx_data_def Let_def elim!: bind_SomeE)
  note on_card_crd [OF r1]
  also note read_rdr_on_card [OF r2]
  also have "on_card c s2 (s2\<lparr>st_good := st_good s2 + 1, st_bytes := st_bytes s2 + word_of_nat (length bs)\<rparr>)"
    by (rule on_card_same) simp_all
  also note eoi_on_card [OF r4]
  also note on_card_lock(2)
  also note on_card_deliver
  finally show ?thesis unfolding s' .
qed

lemma bump_on_card: "on_card c s (bump_st_break e s)"
  by (rule on_card_same) simp_all

lemma optional_crd_on_card:
  "(if b then do { (_, s) \<leftarrow> crd c r s; Some s } else Some s) = Some s' \<Longrightarrow> on_card c s s'"
  by (auto split: if_splits elim!: bind_SomeE dest: on_card_crd)

lemma service_rx_exception_on_card:
  assumes "service_rx_exception c ch tr s = Some (b, s')" and "ch < 4"
  shows "on_card c s s'"
proof -
  from assms(1) obtain e s1 where r1: "crd c RISRl s = Some (e, s1)"
    by (cases "crd c RISRl s") (auto simp: service_rx_exception_def)
  let ?s2 = "bump_st_break e s1"
  from on_card_crd [OF r1] bump_on_card have k2: "on_card c s ?s2" by (rule on_card_trans)
  show ?thesis
  proof (cases "e AND 0x80 = 0")
    case False
    let ?s3 = "?s2\<lparr>st_timeout := st_timeout ?s2 + 1\<rparr>"
    from False assms(1) r1 obtain rf s4 bs s5 s6 where
        r4: "crd c RFOC ?s3 = Some (rf, s4)" and r5: "read_rdr c 0 (rx_count rf) s4 = Some (bs, s5)"
      and r6: "nm32a_eoi c REOIR 0x00 s5 = Some s6"
      and s': "s' = mutex_unlock (rx_deliver (pidx c ch) bs s6)"
      by (auto simp: service_rx_exception_def Let_def elim!: bind_SomeE)
    note k2
    also have "on_card c ?s2 ?s3" by (rule on_card_same) simp_all
    also note on_card_crd [OF r4]
    also note read_rdr_on_card [OF r5]
    also note eoi_on_card [OF r6]
    also note on_card_deliver
    also note on_card_lock(2)
    finally show ?thesis unfolding s' .
  next
    case True
    from True assms(1) r1 obtain s3 rf s4 s5 s6 where
        r3: "(if tr then do { (_, s) \<leftarrow> crd c RFOC ?s2; Some s } else Some ?s2) = Some s3"
      and r4: "crd c RFOC s3 = Some (rf, s4)"
      and r5: "(if rf AND 0x1f \<noteq> 0 then do { (_, s) \<leftarrow> crd c RDR s4; Some s } else Some s4) = Some s5"
      and r6: "nm32a_eoi c REOIR 0x00 s5 = Some s6"
      and s': "s' = mutex_unlock (nm32a_rx_exception c ch e s6)"
      by (auto simp: service_rx_exception_def Let_def elim!: bind_SomeE)
    note k2
    also note optional_crd_on_card [OF r3]
    also note on_card_crd [OF r4]
    also note optional_crd_on_card [OF r5]
    also note eoi_on_card [OF r6]
    also note rx_exception_on_card [OF assms(2)]
    also note on_card_lock(2)
    finally show ?thesis unfolding s' .
  qed
qed

lemma service_tx_on_card:
  assumes "service_tx c tir s = Some (b, s')"
  shows "on_card c s s'"
proof -
  let ?ch = "unat (tir AND 3)"
  let ?room = "\<lambda>tf. if unat (tf :: u8) > 16 then 16 else unat tf"
  from assms obtain tf s1 where r1: "crd c TFTC s = Some (tf, s1)"
    by (cases "crd c TFTC s") (auto simp: service_tx_def)
  with assms have k: "(case tx_fill (?room tf) c (pidx c ?ch) s1 of (i, s2) \<Rightarrow>
        nm32a_eoi c TEOIR (if i \<noteq> 0 then 0x00 else 0x08) (if i = 0 then cwr c IER 0x28 s2 else s2)
          \<bind> (\<lambda>s. Some (True, mutex_unlock s))) = Some (b, s')"
    by (simp add: service_tx_def Let_def case_prod_unfold cong: if_cong)
  obtain i s2 where f: "tx_fill (?room tf) c (pidx c ?ch) s1 = (i, s2)"
    by (cases "tx_fill (?room tf) c (pidx c ?ch) s1")
  let ?s3 = "if i = 0 then cwr c IER 0x28 s2 else s2"
  from k [unfolded f prod.case] obtain s4 where
      r4: "nm32a_eoi c TEOIR (if i \<noteq> 0 then 0x00 else 0x08) ?s3 = Some s4" and s': "s' = mutex_unlock s4"
    by (elim bind_SomeE) simp
  note on_card_crd [OF r1]
  also note tx_fill_on_card [OF f unat_and_3]
  also have "on_card c s2 ?s3" by (simp add: on_card_cwr)
  also note eoi_on_card [OF r4]
  also note on_card_lock(2)
  finally show ?thesis unfolding s' .
qed

lemma service_rx_on_card: "service_rx c rir tr s = Some (b, s') \<Longrightarrow> on_card c s s'"
  unfolding service_rx_def Let_def
  by (auto split: if_splits intro: service_rx_data_on_card service_rx_exception_on_card)

lemma service_ack_on_card:
  assumes "service_ack c tir0 rir0 tr s = Some (b, s')"
  shows "on_card c s s'"
proof -
  let ?a = "if rir0 AND 0x80 \<noteq> 0 then NM32A_ACK_RX s else NM32A_ACK_TX s"
  let ?rxg = "\<lambda>rir1 :: u8. rir1 AND 0xC0 = 0x40"
  from assms obtain v s1 tir1 s2 rir1 s3 where
      r1: "rdb (Bar ?a) s = Some (v, s1)" and r2: "crd c TIR s1 = Some (tir1, s2)"
    and r3: "crd c RIR s2 = Some (rir1, s3)"
    and k: "(if \<not> ?rxg rir1 \<and> \<not> (\<not> ?rxg rir1 \<and> tir1 AND 0xC0 = 0x40)
      then Some (False, mutex_unlock (s3\<lparr>st_nogrant := st_nogrant s3 + 1\<rparr>))
      else (let s = (if ?rxg rir1 \<noteq> (rir0 AND 0x80 \<noteq> 0) then s3\<lparr>st_misgrant := st_misgrant s3 + 1\<rparr> else s3);
                rir = (if ?rxg rir1 then rir1 else 0);
                tir = (if \<not> ?rxg rir1 \<and> tir1 AND 0xC0 = 0x40 then tir1 else tir0)
            in if rir \<noteq> 0 then service_rx c rir tr s else service_tx c tir s)) = Some (b, s')"
    unfolding service_ack_def Let_def by (auto elim!: bind_SomeE simp del: not_not)
  let ?s4 = "if ?rxg rir1 \<noteq> (rir0 AND 0x80 \<noteq> 0) then s3\<lparr>st_misgrant := st_misgrant s3 + 1\<rparr> else s3"
  have "on_card c s s1" using r1 by (auto simp: rdb_Some intro: on_card_ev)
  also note on_card_crd [OF r2]
  also note on_card_crd [OF r3]
  finally have k3: "on_card c s s3" .
  have k4: "on_card c s3 ?s4" by (rule on_card_same) simp_all
  have "on_card c s3 s'"
  proof (cases "\<not> ?rxg rir1 \<and> \<not> (\<not> ?rxg rir1 \<and> tir1 AND 0xC0 = 0x40)")
    case True
    from k [unfolded if_P [OF True]] have s': "s' = mutex_unlock (s3\<lparr>st_nogrant := st_nogrant s3 + 1\<rparr>)" by simp
    have "on_card c s3 (s3\<lparr>st_nogrant := st_nogrant s3 + 1\<rparr>)" by (rule on_card_same) simp_all
    then show ?thesis unfolding s' using on_card_lock(2) by (rule on_card_trans)
  next
    case False
    from k [unfolded if_not_P [OF False]] have "on_card c ?s4 s'"
      unfolding Let_def by (metis service_rx_on_card service_tx_on_card)
    with k4 show ?thesis by (rule on_card_trans)
  qed
  with k3 show ?thesis by (rule on_card_trans)
qed

lemma service_on_card:
  assumes "nm32a_service c s = Some (b, s')"
  shows "on_card c s s'"
proof -
  let ?tr = "\<lambda>tir0 rir0 s. 0 < trace s \<and> (tir0 OR rir0) AND (0x80 :: u8) \<noteq> 0"
  from assms obtain tir0 s1 where r1: "crd c TIR (mutex_lock s) = Some (tir0, s1)"
    by (cases "crd c TIR (mutex_lock s)") (auto simp: nm32a_service_def)
  with assms obtain rir0 s2 where r2: "crd c RIR s1 = Some (rir0, s2)"
    by (cases "crd c RIR s1") (auto simp: nm32a_service_def)
  let ?t = "?tr tir0 rir0 s2"
  let ?s3 = "if ?t then s2\<lparr>trace := trace s2 - 1\<rparr> else s2"
  from assms r1 r2 have k: "(if (tir0 OR rir0) AND 0x80 = 0 then Some (False, mutex_unlock ?s3)
      else do {
        (tirc, s) \<leftarrow> crd c TIR ?s3;
        (rirc, s) \<leftarrow> crd c RIR s;
        if (tir0 OR rir0) AND (tirc OR rirc) AND 0x80 = 0 then Some (False, mutex_unlock s)
        else service_ack c tirc rirc ?t s
      }) = Some (b, s')"
    by (simp add: nm32a_service_def Let_def cong: if_cong)
  note on_card_lock(1)
  also note on_card_crd [OF r1]
  also note on_card_crd [OF r2]
  also have "on_card c s2 ?s3" by (rule on_card_same) simp_all
  finally have k3: "on_card c s ?s3" .
  have "on_card c ?s3 s'"
  proof (cases "(tir0 OR rir0) AND 0x80 = 0")
    case True
    with k have "s' = mutex_unlock ?s3" by simp
    then show ?thesis by (simp only: on_card_lock)
  next
    case False
    note k' = k [unfolded if_not_P [OF False]]
    obtain tirc s4 where r4: "crd c TIR ?s3 = Some (tirc, s4)"
      using k' by (cases "crd c TIR ?s3") auto
    obtain rirc s5 where r5: "crd c RIR s4 = Some (rirc, s5)"
      using k' r4 by (cases "crd c RIR s4") auto
    have "(if (tir0 OR rir0) AND (tirc OR rirc) AND 0x80 = 0 then Some (False, mutex_unlock s5)
        else service_ack c tirc rirc ?t s5) = Some (b, s')"
      using k' r4 r5 by (simp cong: if_cong)
    then have "on_card c s5 s'"
      by (auto split: if_splits intro: on_card_lock service_ack_on_card)
    with on_card_crd [OF r4] on_card_crd [OF r5] show ?thesis by (blast intro: on_card_trans)
  qed
  with k3 show ?thesis by (rule on_card_trans)
qed

end
