(* ===== verification/Nm32a_Run.thy ===== *)
theory Nm32a_Run
  imports Nm32a_Frame
begin

text \<open>
  The driver as a whole: its entry points as operations that may come in any order (the poll
  thread's sections of \<open>hw_lock\<close> and the tty entry points are serialised by \<open>hw_lock\<close> and by
  the port's spinlock, which the transmit branch holds while it empties the ring), the runs they
  make, and the abstract specification of a port as a line that every operation refines.
\<close>

section \<open>Operations and runs\<close>

datatype drv_op =
    Arm nat
  | Service nat
  | Rest int
  | Nap
  | Write nat "u8 list"
  | Break nat bool
  | Activate nat "nat option"
  | Shutdown nat
  | DtrRts nat bool
  | Termios nat nat

fun valid_op :: "drv_op \<Rightarrow> bool" where
  "valid_op (Arm c) = (c < NM32A_CHIPS)"
| "valid_op (Service c) = (c < NM32A_CHIPS)"
| "valid_op (Rest d) = True"
| "valid_op Nap = True"
| "valid_op (Write i _) = (i < NM32A_PORTS_N)"
| "valid_op (Break i _) = (i < NM32A_PORTS_N)"
| "valid_op (Activate i _) = (i < NM32A_PORTS_N)"
| "valid_op (Shutdown i) = (i < NM32A_PORTS_N)"
| "valid_op (DtrRts i _) = (i < NM32A_PORTS_N)"
| "valid_op (Termios i _) = (i < NM32A_PORTS_N)"

fun drv_exec :: "drv_op \<Rightarrow> nm32a \<Rightarrow> nm32a option" where
  "drv_exec (Arm c) s = Some (nm32a_arm_tx c s)"
| "drv_exec (Service c) s = map_option snd (nm32a_service c s)"
| "drv_exec (Rest d) s = Some (ev (Udelay d) s)"
| "drv_exec Nap s = Some (ev (Msleep 50) s)"
| "drv_exec (Write i bs) s = Some (snd (nm32a_tty_write (Some i) bs s))"
| "drv_exec (Break i st) s = Some (snd (nm32a_break_ctl (Some i) st s))"
| "drv_exec (Activate i baud) s = map_option snd (nm32a_port_activate i baud s)"
| "drv_exec (Shutdown i) s = Some (nm32a_port_shutdown i s)"
| "drv_exec (DtrRts i a) s = Some (nm32a_dtr_rts i a s)"
| "drv_exec (Termios i rate) s = nm32a_tty_set_termios (Some i) rate s"

fun drv_execs :: "drv_op list \<Rightarrow> nm32a \<Rightarrow> nm32a option" where
  "drv_execs [] s = Some s"
| "drv_execs (op # ops) s =
     (if valid_op op then do { s \<leftarrow> drv_exec op s; drv_execs ops s } else None)"

lemma drv_execs_append:
  "drv_execs (ops @ ops') s = do { s \<leftarrow> drv_execs ops s; drv_execs ops' s }"
proof (induction ops arbitrary: s)
  case (Cons op ops)
  then show ?case by (cases "drv_exec op s") simp_all
qed simp

text \<open>The state \<open>t\<close> is reached from \<open>s\<close> by some operations in some order.\<close>

definition reaches :: "nm32a \<Rightarrow> nm32a \<Rightarrow> bool" where
  "reaches s t \<longleftrightarrow> (\<exists>ops. drv_execs ops s = Some t)"

lemma reaches_refl [simp, intro]: "reaches s s"
  unfolding reaches_def by (rule exI [of _ "[]"]) simp

lemma reaches_trans: "reaches s t \<Longrightarrow> reaches t u \<Longrightarrow> reaches s u"
  unfolding reaches_def by (metis drv_execs_append bind.bind_lunit)

lemma reaches_op: "valid_op op \<Longrightarrow> drv_exec op s = Some t \<Longrightarrow> reaches s t"
  unfolding reaches_def by (rule exI [of _ "[op]"]) simp

section \<open>Sections under hw_lock\<close>

text \<open>\<open>section_of s h\<close>: \<open>h\<close> is the log of \<open>s\<close> and one locked section of plain accesses.\<close>

definition log_ok :: "cev list \<Rightarrow> bool" where
  "log_ok h \<longleftrightarrow> legal_log h \<and> \<not> hw_locked h \<and> closed h"

definition section_of :: "nm32a \<Rightarrow> cev list \<Rightarrow> bool" where
  "section_of s h \<longleftrightarrow> (\<exists>pre. h = Ulk # pre @ Lk # evs s \<and> list_all plain pre)"

lemma good_alt: "good s \<longleftrightarrow> card_inv s \<and> log_ok (evs s)"
  by (simp add: good_def log_ok_def)

lemma section_log:
  assumes "section_of s h"
  shows "log_ok (evs s) \<Longrightarrow> log_ok h" and "tx_sent c ch h = tx_sent c ch (evs s)"
    and "rx_taken c ch h = rx_taken c ch (evs s)" and "flipped i h = flipped i (evs s)"
proof -
  obtain pre where h: "h = Ulk # pre @ Lk # evs s" and p: "list_all plain pre"
    using assms by (auto simp: section_of_def)
  note P = plain_log [OF p, where h = "Lk # evs s"]
  have "legal_log (pre @ Lk # evs s) = legal_log (Lk # evs s)"
    by (rule plain_log_legal [OF p]) simp
  then show "log_ok (evs s) \<Longrightarrow> log_ok h"
    using P by (simp add: log_ok_def h closed_def)
  show "tx_sent c ch h = tx_sent c ch (evs s)" "rx_taken c ch h = rx_taken c ch (evs s)"
      "flipped i h = flipped i (evs s)"
    using P by (simp_all add: h)
qed

lemma section_grows:
  "grows plain (mutex_lock s) t \<Longrightarrow> section_of s (evs (mutex_unlock t))"
  by (auto simp: section_of_def elim!: growsE)

lemma arm_chan_grows: "grows plain s (arm_chan c s ch)"
  unfolding arm_chan_def Let_def
  by (auto intro!: grows_trans [OF grows_cwr grows_cwr])

lemma arm_tx_section:
  "section_of s (evs (nm32a_arm_tx c s))" "ports (nm32a_arm_tx c s) = ports s"
proof -
  have g: "grows plain t (foldl (arm_chan c) t chs)" for t chs
    by (induction chs arbitrary: t) (auto intro: grows_trans arm_chan_grows)
  show "section_of s (evs (nm32a_arm_tx c s))"
    unfolding nm32a_arm_tx_def by (rule section_grows [OF g])
  show "ports (nm32a_arm_tx c s) = ports s"
    unfolding nm32a_arm_tx_def lock_fields by (simp only: grows_fields(1) [OF g] lock_fields)
qed

lemma set_mctrl_grows: "grows plain s (nm32a_set_mctrl c ch a s)"
  unfolding nm32a_set_mctrl_def by (rule grows_cwrs) simp

lemma dtr_rts_section:
  "section_of s (evs (nm32a_dtr_rts i a s))" "ports (nm32a_dtr_rts i a s) = ports s"
proof -
  show "section_of s (evs (nm32a_dtr_rts i a s))"
    unfolding nm32a_dtr_rts_def Let_def by (rule section_grows [OF set_mctrl_grows])
  show "ports (nm32a_dtr_rts i a s) = ports s"
    using grows_fields(1) [OF set_mctrl_grows] by (simp add: nm32a_dtr_rts_def Let_def)
qed

lemma shutdown_section:
  "section_of s (evs (nm32a_port_shutdown i s))"
  "ports (nm32a_port_shutdown i s) = (ports s)[i := (port i s)\<lparr>popen := False\<rparr>]"
proof -
  let ?np = "port i s"
  let ?s1 = "set_port i (?np\<lparr>popen := False\<rparr>) (mutex_lock s)"
  let ?s2 = "nm32a_set_mctrl (chip ?np) (chan ?np) False
      (cwrs (chip ?np) [(CAR, word_of_nat (chan ?np)), (IER, 0x00)] ?s1)"
  have g: "grows plain ?s1 ?s2"
    by (rule grows_trans [OF grows_cwrs set_mctrl_grows]) simp
  have eq: "nm32a_port_shutdown i s = mutex_unlock ?s2"
    by (simp add: nm32a_port_shutdown_def Let_def)
  show "section_of s (evs (nm32a_port_shutdown i s))"
    unfolding eq section_of_def using g by (auto elim!: growsE)
  show "ports (nm32a_port_shutdown i s) = (ports s)[i := (port i s)\<lparr>popen := False\<rparr>]"
    using grows_fields(1) [OF g] by (simp add: eq)
qed

lemma termios_section:
  assumes "nm32a_tty_set_termios (Some i) rate s = Some s'"
  shows "section_of s (evs s')" and "ports s' = ports s"
proof -
  let ?c = "chip (port i s)"
  let ?s1 = "cwr ?c CCR CCR_INITCH (nm32a_set_rate ?c (if rate \<noteq> 0 then rate else 9600)
      (cwr ?c CAR (word_of_nat (chan (port i s))) (mutex_lock s)))"
  from assms obtain r2 s2 where r2: "ccr_wait ?c ?s1 = Some (r2, s2)"
    by (cases "ccr_wait ?c ?s1") (auto simp: nm32a_tty_set_termios_def Let_def)
  with assms obtain r3 s3 where
      r3: "ccr_wait ?c (cwr ?c CCR (CCR_ENTX OR CCR_ENRX) s2) = Some (r3, s3)"
    by (cases "ccr_wait ?c (cwr ?c CCR (CCR_ENTX OR CCR_ENRX) s2)")
      (auto simp: nm32a_tty_set_termios_def Let_def)
  from assms r2 r3 have s': "s' = mutex_unlock (cwr ?c IER 0x09 s3)"
    by (simp add: nm32a_tty_set_termios_def Let_def)
  note mono = grows_mono [where Q = plain, OF grows_ccr_wait]
  have "grows plain (mutex_lock s) (cwr ?c CAR (word_of_nat (chan (port i s))) (mutex_lock s))"
    by (rule grows_cwr) simp
  also have "grows plain \<dots> (nm32a_set_rate ?c (if rate \<noteq> 0 then rate else 9600)
      (cwr ?c CAR (word_of_nat (chan (port i s))) (mutex_lock s)))"
    unfolding nm32a_set_rate_def by (rule grows_mono [OF grows_cwrs_plain [OF rate_regs_data]]) simp
  also have "grows plain \<dots> ?s1" by (rule grows_cwr) simp
  also have "grows plain \<dots> s2" by (rule mono [OF r2]) simp
  also have "grows plain \<dots> (cwr ?c CCR (CCR_ENTX OR CCR_ENRX) s2)" by (rule grows_cwr) simp
  also have "grows plain \<dots> s3" by (rule mono [OF r3]) simp
  also have "grows plain \<dots> (cwr ?c IER 0x09 s3)" by (rule grows_cwr) simp
  finally have g: "grows plain (mutex_lock s) (cwr ?c IER 0x09 s3)" .
  show "section_of s (evs s')" unfolding s' by (rule section_grows [OF g])
  show "ports s' = ports s" using grows_fields(1) [OF g] by (simp add: s')
qed

text \<open>What \<open>activate\<close> does to its port, and the failure that leaves it alone.\<close>

definition opened :: "u32 \<Rightarrow> nport \<Rightarrow> nport" where
  "opened j np = np\<lparr>head := 0, tail := 0, err_cnt := 0, err_win := j, rx_off := False, popen := True\<rparr>"

lemma activate_section:
  assumes "nm32a_port_activate i baud s = Some (r, s')"
  shows "section_of s (evs s')" and
    "(r = - ENODEV \<and> ports s' = ports s) \<or> (r = 0 \<and> (\<exists>j. ports s' = (ports s)[i := opened j (port i s)]))"
proof -
  let ?np = "port i s"
  let ?rate = "case baud of Some r \<Rightarrow> r | None \<Rightarrow> 0"
  let ?r = "if ?rate \<noteq> 0 then ?rate else 9600"
  from assms obtain v s1 where r1: "crd (chip ?np) GFRCR (mutex_lock s) = Some (v, s1)"
    by (cases "crd (chip ?np) GFRCR (mutex_lock s)") (auto simp: nm32a_port_activate_def Let_def)
  have g1: "grows plain (mutex_lock s) s1" using r1 by (rule grows_crd) simp
  have "section_of s (evs s') \<and> ((r = - ENODEV \<and> ports s' = ports s) \<or>
      (r = 0 \<and> (\<exists>j. ports s' = (ports s)[i := opened j (port i s)])))"
  proof (cases "v = 0xE0")
    case True
    with assms r1 have "r = - ENODEV" "s' = mutex_unlock s1"
      by (simp_all add: nm32a_port_activate_def Let_def)
    then show ?thesis
      using section_grows [OF g1] grows_fields(1) [OF g1] by simp
  next
    case False
    with assms r1 obtain s2 where r2: "nm32a_chan_init (chip ?np) (chan ?np) ?r s1 = Some s2"
      by (cases "nm32a_chan_init (chip ?np) (chan ?np) ?r s1")
        (auto simp: nm32a_port_activate_def Let_def)
    from False assms r1 r2 have r: "r = 0"
      and s': "s' = mutex_unlock (set_port i (opened (jiffies s2) (port i s2)) s2)"
      by (simp_all add: nm32a_port_activate_def Let_def opened_def)
    have "grows plain s1 s2" by (rule grows_mono [OF chan_init_grows [OF r2]]) simp
    with g1 have g2: "grows plain (mutex_lock s) s2" by (rule grows_trans)
    have "section_of s (evs s')" using section_grows [OF g2] by (simp add: s')
    moreover have "ports s' = (ports s)[i := opened (jiffies s2) (port i s)]"
      using grows_fields(1,4) [OF g2] by (simp add: s')
    ultimately show ?thesis using r by blast
  qed
  then show "section_of s (evs s')" and
    "(r = - ENODEV \<and> ports s' = ports s) \<or> (r = 0 \<and> (\<exists>j. ports s' = (ports s)[i := opened j (port i s)]))"
    by simp_all
qed

section \<open>The port as a line\<close>

text \<open>
  What a port is for its users: the bytes sent and the bytes waiting, the bytes received from
  the channel and the bytes given to the tty, and whether the port is open.
\<close>

record line =
  lsent :: "u8 list"
  lqueue :: "u8 list"
  ltaken :: "u8 list"
  lgiven :: "u8 list"
  lopen :: bool

definition line :: "nat \<Rightarrow> nm32a \<Rightarrow> line" where
  "line i s = \<lparr>lsent = tx_sent (i div 4) (i mod 4) (evs s), lqueue = ring_content (port i s),
     ltaken = rx_taken (i div 4) (i mod 4) (evs s), lgiven = flipped i (evs s),
     lopen = popen (port i s)\<rparr>"

fun acts :: "nat \<Rightarrow> drv_op \<Rightarrow> bool" where
  "acts i (Service c) = (i div 4 = c)"
| "acts i (Write j _) = (j = i)"
| "acts i (Break j _) = (j = i)"
| "acts i (Activate j _) = (j = i)"
| "acts i (Shutdown j) = (j = i)"
| "acts i _ = False"

definition room :: "line \<Rightarrow> nat" where
  "room l = 1023 - length (lqueue l)"

inductive line_step :: "nat \<Rightarrow> drv_op \<Rightarrow> line \<Rightarrow> line \<Rightarrow> bool" for i :: nat where
  other: "\<not> acts i op \<Longrightarrow> line_step i op l l"
| offer: "n \<le> length bs \<Longrightarrow> length (stuff 0 (take n bs)) \<le> room l \<Longrightarrow>
    l' = l\<lparr>lqueue := lqueue l @ stuff 0 (take n bs)\<rparr> \<Longrightarrow>
    n < length bs \<longrightarrow> room l' < need (bs ! n) \<Longrightarrow> line_step i (Write i bs) l l'"
| brk: "l' = (if 2 \<le> room l then l\<lparr>lqueue := lqueue l @ [0, if st then 0x81 else 0x83]\<rparr> else l) \<Longrightarrow>
    line_step i (Break i st) l l'"
| serve: "i div 4 = c \<Longrightarrow> k \<le> length (lqueue l) \<Longrightarrow> length taken \<le> 31 \<Longrightarrow>
    given = taken \<or> given = [] \<and> length taken \<le> 1 \<Longrightarrow>
    l' = l\<lparr>lsent := lsent l @ take k (lqueue l), lqueue := drop k (lqueue l),
           ltaken := ltaken l @ taken, lgiven := lgiven l @ (if lopen l then given else [])\<rparr> \<Longrightarrow>
    line_step i (Service c) l l'"
| activate: "l' = l \<or> l' = l\<lparr>lqueue := [], lopen := True\<rparr> \<Longrightarrow> line_step i (Activate i baud) l l'"
| shutdown: "l' = l\<lparr>lopen := False\<rparr> \<Longrightarrow> line_step i (Shutdown i) l l'"

inductive_cases line_step_writeE: "line_step i (Write j bs) l l'"
inductive_cases line_step_serviceE: "line_step i (Service c) l l'"
inductive_simps line_step_arm: "line_step i (Arm c) l l'"

subsection \<open>Each operation is a step of every line\<close>

lemma section_lines:
  assumes "good s" and "section_of s (evs s')" and "ports s' = ports s"
  shows "good s' \<and> line i s' = line i s"
proof -
  have "card_inv s'" using assms by (simp add: good_alt card_inv_def port_def)
  then show ?thesis
    using assms section_log [OF assms(2)] by (simp add: good_alt line_def port_def)
qed

lemma section_set_port:
  assumes "good s" and "section_of s (evs s')" and "ports s' = (ports s)[i := np]"
    and "i < NM32A_PORTS_N"
    and "chip np = chip (port i s)" and "chan np = chan (port i s)" and "ring_inv np"
  shows "good s' \<and> (\<forall>j. j \<noteq> i \<longrightarrow> line j s' = line j s) \<and>
    line i s' = (line i s)\<lparr>lqueue := ring_content np, lopen := popen np\<rparr>"
proof -
  have len: "i < length (ports s)" using assms(1,4) by (simp add: good_def card_inv_def)
  have p: "port j s' = (if j = i then np else port j s)" for j
    using len by (simp add: port_def assms(3))
  have "card_inv s'"
    using assms(1,5-7) by (auto simp: good_def card_inv_def p assms(3))
  then show ?thesis
    using assms(1) section_log [OF assms(2)] by (simp add: good_alt line_def p)
qed

lemma set_port_lines:
  assumes "good s" and "i < NM32A_PORTS_N"
    and "chip np = chip (port i s)" and "chan np = chan (port i s)" and "ring_inv np"
  shows "good (set_port i np s) \<and> (\<forall>j. j \<noteq> i \<longrightarrow> line j (set_port i np s) = line j s) \<and>
    line i (set_port i np s) = (line i s)\<lparr>lqueue := ring_content np, lopen := popen np\<rparr>"
proof -
  have len: "i < length (ports s)" using assms(1,2) by (simp add: good_def card_inv_def)
  have "card_inv (set_port i np s)"
    using assms by (intro card_inv_set_port) (simp_all add: good_def)
  then show ?thesis
    using assms(1) len by (simp add: good_alt line_def port_set_port)
qed

lemma good_port: "good s \<Longrightarrow> i < NM32A_PORTS_N \<Longrightarrow> ring_inv (port i s) \<and> i < length (ports s)"
  by (simp add: good_def card_inv_def)

lemma write_line:
  assumes "good s" and "i < NM32A_PORTS_N" and "s' = snd (nm32a_tty_write (Some i) bs s)"
  shows "good s' \<and> (\<forall>j. j \<noteq> i \<longrightarrow> line j s' = line j s) \<and> line_step i (Write i bs) (line i s) (line i s')"
proof -
  let ?np = "port i s"
  obtain n np where l: "tty_write_loop ?np bs = (n, np)" by fastforce
  have inv: "ring_inv ?np" using good_port [OF assms(1,2)] by simp
  have s': "s' = set_port i np s" using assms(3) l by (simp add: nm32a_tty_write_def)
  note L = tty_write_loop_spec [OF inv l]
  then have e: "np\<lparr>txb := txb ?np, head := head ?np\<rparr> = ?np" by simp
  have f: "chip np = chip ?np" "chan np = chan ?np" "popen np = popen ?np"
    using arg_cong [OF e, of chip] arg_cong [OF e, of chan] arg_cong [OF e, of popen] by simp_all
  note S = set_port_lines [OF assms(1,2) f(1,2)] 
  have c: "ring_content np = ring_content ?np @ stuff 0 (take n bs)" and "ring_inv np" using L by simp_all
  have u: "ring_used np = ring_used ?np + length (stuff 0 (take n bs))"
    by (metis c length_append length_ring_content)
  have "room (line i s) \<ge> length (stuff 0 (take n bs))"
    using u ring_used_less [of np] by (simp add: room_def line_def)
  moreover have "n < length bs \<longrightarrow> 1023 - ring_used np < need (bs ! n)" using L by simp
  moreover have ln: "line i s' = (line i s)\<lparr>lqueue := ring_content ?np @ stuff 0 (take n bs)\<rparr>"
    using S L f(3) c by (simp add: s' line_def)
  ultimately have "line_step i (Write i bs) (line i s) (line i s')"
    using L c u by (intro line_step.offer [of n bs]) (simp_all add: room_def line_def)
  then show ?thesis using S L s' by simp
qed

lemma break_line:
  assumes "good s" and "i < NM32A_PORTS_N" and "s' = snd (nm32a_break_ctl (Some i) st s)"
  shows "good s' \<and> (\<forall>j. j \<noteq> i \<longrightarrow> line j s' = line j s) \<and> line_step i (Break i st) (line i s) (line i s')"
proof -
  let ?np = "port i s"
  have inv: "ring_inv ?np" using good_port [OF assms(1,2)] by simp
  have s': "s' = set_port i (break_put ?np st) s" using assms(3) by (simp add: nm32a_break_ctl_def)
  have f: "chip (break_put ?np st) = chip ?np" "chan (break_put ?np st) = chan ?np"
      "popen (break_put ?np st) = popen ?np"
    by (simp_all add: break_put_def nm32a_tx_put_def)
  note B = break_put_spec [OF inv, of st]
  note S = set_port_lines [OF assms(1,2) f(1,2)]
  have "2 \<le> room (line i s) \<longleftrightarrow> ring_used ?np \<le> 1021"
    using ring_used_less [of ?np] by (simp add: room_def line_def) arith
  then have "line_step i (Break i st) (line i s) (line i s')"
    using S B f(3) by (intro line_step.brk) (auto simp: s' line_def)
  then show ?thesis using S B s' by simp
qed

lemma activate_line:
  assumes "good s" and "i < NM32A_PORTS_N" and "nm32a_port_activate i baud s = Some (r, s')"
  shows "good s' \<and> (\<forall>j. j \<noteq> i \<longrightarrow> line j s' = line j s) \<and>
    line_step i (Activate i baud) (line i s) (line i s')"
  using activate_section(2) [OF assms(3)]
proof
  assume "r = - ENODEV \<and> ports s' = ports s"
  then show ?thesis
    using section_lines [OF assms(1) activate_section(1) [OF assms(3)]]
    by (auto intro: line_step.activate)
next
  assume "r = 0 \<and> (\<exists>j. ports s' = (ports s)[i := opened j (port i s)])"
  then obtain j where p: "ports s' = (ports s)[i := opened j (port i s)]" by blast
  have "ring_inv (opened j (port i s))" "ring_content (opened j (port i s)) = []"
    using good_port [OF assms(1,2)] by (simp_all add: opened_def ring_inv_def ring_content_def ring_used_def)
  with section_set_port [OF assms(1) activate_section(1) [OF assms(3)] p assms(2)] show ?thesis
    by (auto simp: opened_def intro: line_step.activate)
qed

lemma shutdown_line:
  assumes "good s" and "i < NM32A_PORTS_N"
  shows "good (nm32a_port_shutdown i s) \<and>
    (\<forall>j. j \<noteq> i \<longrightarrow> line j (nm32a_port_shutdown i s) = line j s) \<and>
    line_step i (Shutdown i) (line i s) (line i (nm32a_port_shutdown i s))"
proof -
  have "ring_inv ((port i s)\<lparr>popen := False\<rparr>)"
      "ring_content ((port i s)\<lparr>popen := False\<rparr>) = ring_content (port i s)"
    using good_port [OF assms] by (simp_all add: ring_inv_def ring_content_def ring_used_def)
  with section_set_port [OF assms(1) shutdown_section(1,2) assms(2)] show ?thesis
    by (auto simp: line_def intro: line_step.shutdown)
qed

lemma prefix_split:
  assumes "a' @ b' = a @ b" and "prefix a a'"
  shows "\<exists>k \<le> length b. a' = a @ take k b \<and> b' = drop k b"
proof -
  obtain m where m: "a' = a @ m" using assms(2) by (auto elim: prefixE)
  with assms(1) have "b = m @ b'" by simp
  with m show ?thesis by (intro exI [of _ "length m"]) simp
qed

lemma pidx_channel: "i < 32 \<Longrightarrow> ch < 4 \<Longrightarrow> i = pidx c ch \<longleftrightarrow> i div 4 = c \<and> i mod 4 = ch"
  using pidx_div_mod [of ch i c] by simp

lemma service_line:
  assumes "good s" and "c < 8" and "nm32a_service c s = Some (b, s')" and "i < NM32A_PORTS_N"
  shows "line_step i (Service c) (line i s) (line i s')"
proof -
  note P = nm32a_service_spec [OF assms(3,1,2)]
  then have sv: "serves s s'" by (simp add: pass_ok_def)
  obtain ch taken given where ch: "ch < 4" and t: "length taken \<le> 31"
      "given = taken \<or> given = [] \<and> length taken \<le> 1" and m: "rx_moves c ch taken given s s'"
    using P unfolding pass_ok_def by blast
  have tot: "tx_sent (i div 4) (i mod 4) (evs s') @ ring_content (port i s') =
      tx_sent (i div 4) (i mod 4) (evs s) @ ring_content (port i s)"
    and pre: "prefix (tx_sent (i div 4) (i mod 4) (evs s)) (tx_sent (i div 4) (i mod 4) (evs s'))"
    and op: "popen (port i s') = popen (port i s)"
    using sv by (simp_all add: serves_def tx_total_def)
  from prefix_split [OF tot pre] obtain k where k: "k \<le> length (ring_content (port i s))"
      "tx_sent (i div 4) (i mod 4) (evs s') =
       tx_sent (i div 4) (i mod 4) (evs s) @ take k (ring_content (port i s))"
      "ring_content (port i s') = drop k (ring_content (port i s))"
    by blast
  show ?thesis
  proof (cases "i = pidx c ch")
    case True
    then have d: "i div 4 = c" "i mod 4 = ch" using ch pidx_channel assms(4) by blast+
    show ?thesis
      using k m t op True d
      by (intro line_step.serve [of i c k _ taken given]) (auto simp: line_def rx_moves_def)
  next
    case False
    then have d: "\<not> (i div 4 = c \<and> i mod 4 = ch)" using ch pidx_channel assms(4) by blast
    have rx: "rx_taken (i div 4) (i mod 4) (evs s') = rx_taken (i div 4) (i mod 4) (evs s)"
        "flipped i (evs s') = flipped i (evs s)"
      using m d False by (auto simp: rx_moves_def)
    show ?thesis
    proof (cases "i div 4 = c")
      case True
      then show ?thesis
        using k rx op by (intro line_step.serve [of i c k _ "[]" "[]"]) (simp_all add: line_def)
    next
      case other: False
      have "tx_sent (i div 4) (i mod 4) (evs s') = tx_sent (i div 4) (i mod 4) (evs s)"
          "port i s' = port i s"
        using on_card_other [OF service_on_card [OF assms(3)] other] by simp_all
      with rx have "line i s' = line i s" by (simp add: line_def)
      with other show ?thesis by (auto intro: line_step.other)
    qed
  qed
qed

lemma plain_line:
  assumes "good s" and "evs s' = e # evs s" and "ports s' = ports s" and "e = Udelay d \<or> e = Msleep d"
  shows "good s' \<and> line i s' = line i s"
  using assms by (auto simp: good_def card_inv_def port_def closed_def line_def)

lemma on_one_line:
  assumes "good s' \<and> (\<forall>j. j \<noteq> i \<longrightarrow> line j s' = line j s) \<and> line_step i op (line i s) (line i s')"
    and "\<And>j. j \<noteq> i \<Longrightarrow> \<not> acts j op"
  shows "good s' \<and> (\<forall>j < NM32A_PORTS_N. line_step j op (line j s) (line j s'))"
  using assms by (metis line_step.other)

lemma op_refines:
  assumes "good s" and "valid_op op" and "drv_exec op s = Some s'"
  shows "good s' \<and> (\<forall>i < NM32A_PORTS_N. line_step i op (line i s) (line i s'))"
proof (cases op)
  case (Arm c)
  with assms(3) have s': "s' = nm32a_arm_tx c s" by simp
  show ?thesis
    unfolding s' Arm using section_lines [OF assms(1) arm_tx_section] by (simp add: line_step.other)
next
  case (Service c)
  with assms obtain b where r: "nm32a_service c s = Some (b, s')" and c: "c < 8" by auto
  have "good s'" using nm32a_service_spec [OF r assms(1) c] by (simp add: pass_ok_def serves_def)
  with service_line [OF assms(1) c r] Service show ?thesis by simp
next
  case (Rest d)
  with assms(3) have s': "s' = ev (Udelay d) s" by simp
  show ?thesis
    unfolding s' Rest using plain_line [OF assms(1), of "ev (Udelay d) s" "Udelay d" d]
    by (simp add: line_step.other)
next
  case Nap
  with assms(3) have s': "s' = ev (Msleep 50) s" by simp
  show ?thesis
    unfolding s' Nap using plain_line [OF assms(1), of "ev (Msleep 50) s" "Msleep 50" 50]
    by (simp add: line_step.other)
next
  case (Write i bs)
  with assms write_line [OF assms(1), of i s' bs] show ?thesis by (intro on_one_line [of s' i]) auto
next
  case (Break i st)
  with assms break_line [OF assms(1), of i s' st] show ?thesis by (intro on_one_line [of s' i]) auto
next
  case (Activate i baud)
  with assms activate_line [OF assms(1), of i baud _ s'] show ?thesis by (intro on_one_line [of s' i]) auto
next
  case (Shutdown i)
  with assms shutdown_line [OF assms(1), of i] show ?thesis by (intro on_one_line [of s' i]) auto
next
  case (DtrRts i a)
  with assms(3) have s': "s' = nm32a_dtr_rts i a s" by simp
  show ?thesis
    unfolding s' DtrRts using section_lines [OF assms(1) dtr_rts_section] by (simp add: line_step.other)
next
  case (Termios i rate)
  with assms have "nm32a_tty_set_termios (Some i) rate s = Some s'" by simp
  with section_lines [OF assms(1) termios_section] Termios show ?thesis
    by (simp add: line_step.other)
qed

section \<open>Runs\<close>

lemma run_good:
  assumes "drv_execs ops s = Some s'" and "good s"
  shows "good s'"
  using assms
proof (induction ops arbitrary: s)
  case (Cons op ops)
  then obtain t where "valid_op op" "drv_exec op s = Some t" "drv_execs ops t = Some s'"
    by (auto split: if_splits elim!: bind_SomeE)
  with Cons op_refines show ?case by blast
qed simp

text \<open>What the callers got accepted on port \<open>i\<close> during a run.\<close>

fun accepted :: "nat \<Rightarrow> drv_op \<Rightarrow> nm32a \<Rightarrow> u8 list" where
  "accepted i (Write j bs) s =
     (if j = i then stuff 0 (take (nat (fst (nm32a_tty_write (Some i) bs s))) bs) else [])"
| "accepted i (Break j st) s =
     (if j = i \<and> ring_used (port i s) \<le> 1021 then [0, if st then 0x81 else 0x83] else [])"
| "accepted i _ s = []"

fun accepted_run :: "nat \<Rightarrow> drv_op list \<Rightarrow> nm32a \<Rightarrow> u8 list" where
  "accepted_run i [] s = []"
| "accepted_run i (op # ops) s =
     accepted i op s @ (case drv_exec op s of Some s' \<Rightarrow> accepted_run i ops s' | None \<Rightarrow> [])"

definition stream :: "line \<Rightarrow> u8 list" where
  "stream l = lsent l @ lqueue l"

lemma stream_line: "stream (line i s) = tx_total i s"
  by (simp add: stream_def line_def tx_total_def)

text \<open>Only the writers and \<open>activate\<close> change what is sent and waiting, taken together.\<close>

lemma stream_other_ops:
  "line_step i op l l' \<Longrightarrow> (case op of Write _ _ \<Rightarrow> False | Break _ _ \<Rightarrow> False | Activate _ _ \<Rightarrow> False | _ \<Rightarrow> True) \<Longrightarrow>
     stream l' = stream l"
  by (cases rule: line_step.cases) (auto simp: stream_def)

lemma op_stream:
  assumes "good s" and "valid_op op" and "drv_exec op s = Some s'" and "i < NM32A_PORTS_N"
    and "\<forall>baud. op \<noteq> Activate i baud"
  shows "tx_total i s' = tx_total i s @ accepted i op s"
proof (cases op)
  case (Write j bs)
  show ?thesis
  proof (cases "j = i")
    case True
    obtain r where r: "nm32a_tty_write (Some i) bs s = (r, s')"
      using assms(3) Write True by (cases "nm32a_tty_write (Some i) bs s") simp
    with tty_write_fifo [OF _ _ r] good_port [OF assms(1,4)] Write True show ?thesis
      by (auto simp: tx_total_def)
  next
    case False
    with assms Write write_line [OF assms(1), of j s' bs] show ?thesis
      by (simp flip: stream_line)
  qed
next
  case (Break j st)
  show ?thesis
  proof (cases "j = i")
    case True
    with Break assms(3) have s': "s' = set_port i (break_put (port i s) st) s"
      by (simp add: nm32a_break_ctl_def)
    with Break True break_put_spec [of "port i s" st] good_port [OF assms(1,4)] show ?thesis
      by (simp add: tx_total_def)
  next
    case False
    with assms Break break_line [OF assms(1), of j s' st] show ?thesis
      by (simp flip: stream_line)
  qed
next
  case (Activate j baud)
  then have "j \<noteq> i" using assms(5) by blast
  with assms Activate activate_line [OF assms(1), of j baud _ s'] show ?thesis
    by (auto simp flip: stream_line)
qed (use op_refines [OF assms(1-3)] assms(4) stream_other_ops [of i op "line i s" "line i s'"] in
      \<open>auto simp flip: stream_line\<close>)

lemma run_stream:
  assumes "drv_execs ops s = Some s'" and "good s" and "i < NM32A_PORTS_N"
    and "\<forall>baud. Activate i baud \<notin> set ops"
  shows "tx_total i s' = tx_total i s @ accepted_run i ops s"
  using assms
proof (induction ops arbitrary: s)
  case (Cons op ops)
  then obtain t where t: "valid_op op" "drv_exec op s = Some t" "drv_execs ops t = Some s'"
    by (auto split: if_splits elim!: bind_SomeE)
  with Cons.prems op_refines have "good t" by blast
  with Cons t op_stream [OF Cons.prems(2) t(1,2) Cons.prems(3)] show ?case by auto
qed simp

text \<open>The receive side of a line never invents, repeats or reorders a byte.\<close>

definition line_ok :: "line \<Rightarrow> bool" where
  "line_ok l \<longleftrightarrow> subseq (lgiven l) (ltaken l)"

lemma line_step_ok: "line_step i op l l' \<Longrightarrow> line_ok l \<Longrightarrow> line_ok l'"
  by (induction rule: line_step.induct)
    (auto simp: line_ok_def intro: list_emb_append_mono subseq_append)

lemma run_lines_ok:
  assumes "drv_execs ops s = Some s'" and "good s" and "i < NM32A_PORTS_N" and "line_ok (line i s)"
  shows "line_ok (line i s')"
  using assms
proof (induction ops arbitrary: s)
  case (Cons op ops)
  then obtain t where t: "valid_op op" "drv_exec op s = Some t" "drv_execs ops t = Some s'"
    by (auto split: if_splits elim!: bind_SomeE)
  with Cons.prems op_refines line_step_ok have "good t \<and> line_ok (line i t)" by blast
  with Cons t show ?case by blast
qed simp

section \<open>The poll thread is a run\<close>

lemma reaches_good: "reaches s t \<Longrightarrow> good s \<Longrightarrow> good t"
  unfolding reaches_def using run_good by blast

interpretation burst: drained_service "nm32a_service c" "\<lambda>s. good s \<and> c < 8" reaches for c
proof unfold_locales
  fix s t u b
  assume g: "good s \<and> c < 8" and r: "nm32a_service c s = Some (b, t)"
  show "reaches s t" using g r by (intro reaches_op [of "Service c"]) simp_all
  then show "good t \<and> c < 8" using g reaches_good by blast
next
  show "reaches s s" for s by (rule reaches_refl)
  show "reaches s u" if "reaches s t" "reaches t u" for s t u using that by (rule reaches_trans)
qed

lemma svc_burst_drain: "svc_burst n c s = burst.drain c n s"
  by (induction n arbitrary: s) (simp_all cong: if_cong)

lemma svc_burst_reaches:
  "svc_burst n c s = Some (b, s') \<Longrightarrow> good s \<Longrightarrow> c < 8 \<Longrightarrow> good s' \<and> reaches s s'"
  using burst.drain_spec [of c n s b s'] by (simp add: svc_burst_drain)

lemma poll_chips_reaches:
  assumes "poll_chips cs s = Some (a, w, s')" and "good s" and "\<forall>c \<in> set cs. c < 8"
  shows "good s' \<and> reaches s s'"
  using assms
proof (induction cs arbitrary: s a w)
  case (Cons c cs)
  show ?case
  proof (cases "chip_busy c s")
    case False
    with Cons show ?thesis by simp
  next
    case True
    let ?n = "unat (word_of_int (burst (par (nm32a_arm_tx c s))) :: u32)"
    from True Cons.prems(1) obtain w1 s1 a2 w2 where
        b: "svc_burst ?n c (nm32a_arm_tx c s) = Some (w1, s1)" and p: "poll_chips cs s1 = Some (a2, w2, s')"
      by (auto simp: Let_def elim!: bind_SomeE)
    have r: "reaches s (nm32a_arm_tx c s)"
      using Cons.prems(3) by (intro reaches_op [of "Arm c"]) simp_all
    then have "good (nm32a_arm_tx c s)" using Cons.prems(2) by (rule reaches_good)
    with svc_burst_reaches [OF b] Cons.prems(3) have "good s1" "reaches (nm32a_arm_tx c s) s1" by simp_all
    with Cons.IH [OF p] Cons.prems(3) r show ?thesis by (auto intro: reaches_trans)
  qed
qed simp

lemma poll_sweep_reaches:
  assumes "nm32a_poll_sweep s = Some s'" and "good s"
  shows "good s' \<and> reaches s s'"
proof -
  from assms(1) obtain a w t where p: "poll_chips [0..<8] s = Some (a, w, t)"
    and s': "s' = (if w then t else if a \<noteq> 0 then ev (Udelay (polldelay (par t))) t else ev (Msleep 50) t)"
    by (auto simp: nm32a_poll_sweep_def elim!: bind_SomeE)
  have "good t \<and> reaches s t" by (rule poll_chips_reaches [OF p assms(2)]) simp
  moreover have "reaches t s'"
    using reaches_op [of "Rest (polldelay (par t))" t] reaches_op [of Nap t] by (simp add: s')
  ultimately show ?thesis using reaches_trans reaches_good by blast
qed

section \<open>Where runs start\<close>

text \<open>
  \<open>nm32a_probe\<close> allocates the card zeroed, and \<open>nm32a_tty_setup\<close> gives every port its chip and
  channel before the ttys exist and before the poll thread runs.  The log of a run starts there:
  the microcode download before it has the card to itself.
\<close>

definition nm32a_tty_setup :: "nm32a \<Rightarrow> nm32a" where
  "nm32a_tty_setup s =
     foldl (\<lambda>s i. set_port i ((port i s)\<lparr>chip := i div 4, chan := i mod 4\<rparr>) s) s [0..<NM32A_PORTS_N]"

definition card_start :: "hwenv \<Rightarrow> params \<Rightarrow> nm32a" where
  "card_start h p = nm32a_tty_setup (kzalloc_card h p)"

lemma tty_setup_ports:
  "n \<le> length (ports s) \<Longrightarrow>
   foldl (\<lambda>s i. set_port i ((port i s)\<lparr>chip := i div 4, chan := i mod 4\<rparr>) s) s [0..<n] =
     s\<lparr>ports := map (\<lambda>i. (port i s)\<lparr>chip := i div 4, chan := i mod 4\<rparr>) [0..<n] @ drop n (ports s)\<rparr>"
proof (induction n)
  case 0
  then show ?case by simp
next
  case (Suc n)
  let ?f = "\<lambda>i. (port i s)\<lparr>chip := i div 4, chan := i mod 4\<rparr>"
  have p: "(map ?f [0..<n] @ drop n (ports s)) ! n = port n s"
    using Suc.prems by (simp add: nth_append port_def)
  have "drop n (ports s) = port n s # drop (Suc n) (ports s)"
    using Suc.prems by (simp add: Cons_nth_drop_Suc port_def)
  with Suc p show ?case
    by (simp add: set_port_def port_def list_update_append)
qed

lemma card_start_ports:
  "ports (card_start h p) = map (\<lambda>i. zero_port\<lparr>chip := i div 4, chan := i mod 4\<rparr>) [0..<32]"
  "evs (card_start h p) = []" "hw (card_start h p) = h" "par (card_start h p) = p"
  "trace (card_start h p) = 0"
proof -
  have z: "map (\<lambda>i. (port i (kzalloc_card h p))\<lparr>chip := i div 4, chan := i mod 4\<rparr>) [0..<32] =
      map (\<lambda>i. zero_port\<lparr>chip := i div 4, chan := i mod 4\<rparr>) [0..<32]"
    by (rule map_cong) (simp_all add: port_def kzalloc_card_def del: upt_rec_numeral)
  have "card_start h p = (kzalloc_card h p)\<lparr>ports :=
      map (\<lambda>i. (port i (kzalloc_card h p))\<lparr>chip := i div 4, chan := i mod 4\<rparr>) [0..<32]\<rparr>"
    unfolding card_start_def nm32a_tty_setup_def
    by (subst tty_setup_ports) (simp_all add: kzalloc_card_def del: upt_rec_numeral)
  then have e: "card_start h p = (kzalloc_card h p)\<lparr>ports :=
      map (\<lambda>i. zero_port\<lparr>chip := i div 4, chan := i mod 4\<rparr>) [0..<32]\<rparr>"
    by (simp only: z)
  show "ports (card_start h p) = map (\<lambda>i. zero_port\<lparr>chip := i div 4, chan := i mod 4\<rparr>) [0..<32]"
    "evs (card_start h p) = []" "hw (card_start h p) = h" "par (card_start h p) = p"
  "trace (card_start h p) = 0"
    by (simp_all add: e kzalloc_card_def del: upt_rec_numeral)
qed

lemma port_card_start: "i < 32 \<Longrightarrow> port i (card_start h p) = zero_port\<lparr>chip := i div 4, chan := i mod 4\<rparr>"
  by (simp add: port_def card_start_ports del: upt_rec_numeral)

lemma good_card_start: "good (card_start h p)"
  by (auto simp: good_def card_inv_def closed_def card_start_ports port_card_start zero_port_def
      ring_inv_def simp del: upt_rec_numeral)

lemma line_card_start:
  "i < 32 \<Longrightarrow> line i (card_start h p) = \<lparr>lsent = [], lqueue = [], ltaken = [], lgiven = [], lopen = False\<rparr>"
  by (simp add: line_def card_start_ports port_card_start zero_port_def ring_content_def ring_used_def)

section \<open>A card to run on\<close>

lemma demo_eoi:
  assumes "hw s = demo_hw" and "eoiretry (par s) \<noteq> 0"
  shows "nm32a_eoi 0 r v s = Some (ev (RdB (Reg 0 STK) 0) (cwr 0 r v s))"
proof -
  obtain n where n: "EOI_TRIES = Suc n" by (simp add: EOI_TRIES_def)
  show ?thesis using assms by (simp add: nm32a_eoi_def n demo_crd demo_dev_def)
qed

lemma demo_tx_fill:
  assumes "0 < length (ports s)" and "\<not> tx_empty (port 0 s)" and "tx_empty (tx_pop (port 0 s))"
  shows "tx_fill 16 0 0 s = (1, set_port 0 (tx_pop (port 0 s)) (cwr 0 TDR (tx_front (port 0 s)) s))"
proof -
  obtain n where n: "(16::nat) = Suc (Suc n)" by (metis numeral_eq_Suc pred_numeral_simps(2))
  show ?thesis using assms unfolding n by (simp add: Let_def)
qed

lemma demo_service_tx:
  assumes "hw s = demo_hw" and "eoiretry (par s) \<noteq> 0" and "0 < length (ports s)"
    and "\<not> tx_empty (port 0 s)" and "tx_empty (tx_pop (port 0 s))"
  shows "service_tx 0 0x40 s = Some (True, mutex_unlock (ev (RdB (Reg 0 STK) 0) (cwr 0 TEOIR 0
     (set_port 0 (tx_pop (port 0 s)) (cwr 0 TDR (tx_front (port 0 s)) (ev (RdB (Reg 0 TFTC) 16) s))))))"
  using assms demo_tx_fill [of "ev (RdB (Reg 0 TFTC) 16) s"]
  by (simp add: service_tx_def demo_crd demo_dev_def Let_def demo_eoi)

lemma demo_service:
  assumes "hw s = demo_hw" and "pilr (par s) = 0" and "eoiretry (par s) \<noteq> 0" and "trace s = 0"
    and "0 < length (ports s)" and "\<not> tx_empty (port 0 s)" and "tx_empty (tx_pop (port 0 s))"
  shows "\<exists>s'. nm32a_service 0 s = Some (True, s') \<and> ports s' = (ports s)[0 := tx_pop (port 0 s)] \<and>
    hw s' = hw s \<and> par s' = par s"
  using assms
  by (simp add: nm32a_service_def service_ack_def demo_crd demo_dev_def Let_def NM32A_ACK_TX_def
    mutex_lock_def demo_service_tx)

text \<open>One byte written, then sent: the example run of the witnesses.\<close>

lemma demo_written:
  "drv_execs [Write 0 [0x41]] (card_start demo_hw default_params) =
     Some (set_port 0 (nm32a_tx_put (port 0 (card_start demo_hw default_params)) 0x41)
             (card_start demo_hw default_params))"
  by (simp add: nm32a_tty_write_def Let_def nm32a_tx_space_def port_card_start zero_port_def)

lemma demo_run:
  "\<exists>s'. drv_execs [Write 0 [0x41], Service 0] (card_start demo_hw default_params) = Some s' \<and>
     ring_content (port 0 s') = []"
proof -
  let ?s = "set_port 0 (nm32a_tx_put (port 0 (card_start demo_hw default_params)) 0x41)
             (card_start demo_hw default_params)"
  have len: "length (ports (card_start demo_hw default_params)) = 32"
    by (simp add: card_start_ports del: upt_rec_numeral)
  have p: "port 0 ?s = (zero_port\<lparr>txb := (replicate 1024 0)[0 := 0x41], head := 1\<rparr>)"
    using len by (simp add: port_card_start nm32a_tx_put_def zero_port_def)
  have "\<exists>s'. nm32a_service 0 ?s = Some (True, s') \<and> ports s' = (ports ?s)[0 := tx_pop (port 0 ?s)] \<and>
      hw s' = hw ?s \<and> par s' = par ?s"
    by (rule demo_service)
      (use len p in \<open>simp_all add: card_start_ports default_params_def tx_empty_def tx_pop_def zero_port_def
         del: upt_rec_numeral\<close>)
  then obtain s' where r: "nm32a_service 0 ?s = Some (True, s')"
    and q: "ports s' = (ports ?s)[0 := tx_pop (port 0 ?s)]" by blast
  have "port 0 s' = tx_pop (port 0 ?s)" using len by (simp add: port_def q)
  then have "ring_content (port 0 s') = []"
    by (simp add: p tx_pop_def zero_port_def ring_content_def ring_used_def)
  moreover have "drv_execs ([Write 0 [0x41]] @ [Service 0]) (card_start demo_hw default_params) = Some s'"
    unfolding drv_execs_append demo_written using r by simp
  ultimately show ?thesis by auto
qed


end
