(* ===== verification/Nm32a_Claims.thy ===== *)
theory Nm32a_Claims
  imports Nm32a_Run
begin

text \<open>
  The end-to-end properties of the driver's run time behaviour: what holds of every sequence of
  poll-thread sections and tty calls from the moment the ttys are registered.
\<close>

section \<open>Nothing written is lost, repeated or reordered\<close>

text \<open>C1. However the poll thread's services and the tty calls interleave, and whatever the card
  answers, the bytes sent on a port followed by the bytes still in its ring are exactly the bytes
  that were accepted on it, in order: accepted characters with each NUL as an escape pair, and whole
  break commands.  Only reopening the port (which empties its ring) is excluded.\<close>

theorem tx_stream_exact:
  assumes "drv_execs ops s = Some s'" and "good s" and "i < NM32A_PORTS_N"
    and "\<forall>baud. Activate i baud \<notin> set ops"
  shows "tx_sent (i div 4) (i mod 4) (evs s') @ ring_content (port i s') =
    tx_sent (i div 4) (i mod 4) (evs s) @ ring_content (port i s) @ accepted_run i ops s"
  using run_stream [OF assms] by (simp add: tx_total_def)

lemma start_fields:
  "tx_sent 0 0 (evs (card_start h p)) = []" "ring_content (port 0 (card_start h p)) = []"
  by (simp_all add: card_start_ports port_card_start zero_port_def ring_content_def ring_used_def)

theorem tx_stream_exact_witness:
  "\<exists>s'. drv_execs [Write 0 [0x41], Service 0] (card_start demo_hw default_params) = Some s' \<and>
     tx_sent 0 0 (evs s') = [0x41]"
proof -
  obtain s' where r: "drv_execs [Write 0 [0x41], Service 0] (card_start demo_hw default_params) = Some s'"
    and c: "ring_content (port 0 s') = []" using demo_run by blast
  have "accepted_run 0 [Write 0 [0x41], Service 0] (card_start demo_hw default_params) = [0x41]"
    by (simp add: nm32a_tty_write_def Let_def nm32a_tx_space_def port_card_start zero_port_def
        split: option.split)
  with tx_stream_exact [OF r good_card_start, of 0] c r show ?thesis by (simp add: start_fields)
qed

section \<open>Every port is a line\<close>



section \<open>Every access of the card is legal\<close>

text \<open>C2. From registration on, in every state that the tty operations and the poll thread reach in any order (the
  self-tests take no lock and are not among them), and for every behaviour of the card: each access was made under hw_lock; each acknowledge followed two consecutive reads that both showed
  the request; the receive data register was only read, and the transmit data register only written,
  inside a context of that kind that the chip had granted; each context was ended by its own
  end-of-interrupt register; the lock was never taken twice, was released on every path and never
  while a context was open.\<close>

theorem accesses_legal:
  assumes "drv_execs ops (card_start h p) = Some s'"
  shows "legal_log (evs s') \<and> \<not> hw_locked (evs s') \<and> end_ctx (open_ctx (evs s')) = open_ctx (evs s')"
  using run_good [OF assms good_card_start] by (simp add: good_def closed_def)

theorem accesses_legal_witness:
  "\<exists>s'. drv_execs [Write 0 [0x41], Service 0] (card_start demo_hw default_params) = Some s' \<and>
     legal_log (evs s')"
proof -
  obtain s' where r: "drv_execs [Write 0 [0x41], Service 0] (card_start demo_hw default_params) = Some s'"
    using demo_run by blast
  with accesses_legal [OF r] show ?thesis by blast
qed

section \<open>Receive\<close>

text \<open>In every run, what a tty was given is a subsequence of what was read from its own
  channel's receiver: nothing is invented, repeated, reordered or delivered to another port.\<close>

theorem rx_delivers_in_order:
  assumes "drv_execs ops (card_start h p) = Some s'" and "i < NM32A_PORTS_N"
  shows "subseq (flipped i (evs s')) (rx_taken (i div 4) (i mod 4) (evs s'))"
proof -
  have "line_ok (line i (card_start h p))" using assms(2) by (simp add: line_card_start line_ok_def)
  from run_lines_ok [OF assms(1) good_card_start assms(2) this] show ?thesis
    by (simp add: line_ok_def line_def)
qed

theorem rx_delivers_in_order_witness:
  "\<exists>s'. drv_execs [Write 0 [0x41], Service 0] (card_start demo_hw default_params) = Some s' \<and>
     subseq (flipped 5 (evs s')) (rx_taken 1 1 (evs s'))"
proof -
  obtain s' where r: "drv_execs [Write 0 [0x41], Service 0] (card_start demo_hw default_params) = Some s'"
    using demo_run by blast
  with rx_delivers_in_order [OF r, of 5] show ?thesis by auto
qed

section \<open>One pass\<close>








section \<open>The poll thread\<close>

text \<open>A sweep of the poll thread over the eight chips is a run of arm and service sections, so
  every property of runs holds across sweeps: it keeps the card well formed and the log legal, and
  ends with the lock free.\<close>

theorem poll_sweep_is_run:
  assumes "nm32a_poll_sweep s = Some s'" and "good s"
  shows "(\<exists>ops. drv_execs ops s = Some s') \<and> good s'"
  using poll_sweep_reaches [OF assms] by (simp add: reaches_def)

lemma idle_sweep:
  "nm32a_poll_sweep (card_start demo_hw default_params) =
     Some (ev (Msleep 50) (card_start demo_hw default_params))"
proof -
  have "poll_chips cs (card_start demo_hw default_params) = Some (0, False, card_start demo_hw default_params)"
    if "set cs \<subseteq> {..<8}" for cs
    using that
    by (induction cs) (auto simp: chip_busy_def port_card_start zero_port_def)
  from this [of "[0..<8]"] show ?thesis
    by (simp add: nm32a_poll_sweep_def atLeast0LessThan del: upt_rec_numeral)
qed

theorem poll_sweep_is_run_witness:
  "good (ev (Msleep 50) (card_start demo_hw default_params))"
  using poll_sweep_is_run [OF idle_sweep good_card_start] by blast

end
