(* ===== verification/Nm32a_Grain.thy ===== *)
theory Nm32a_Grain
  imports Nm32a_Run
begin

text \<open>
  The grain of interleaving.  \<open>Nm32a_Run\<close> takes one pass of the service routine as one step.  In the code it
  is not: the writers and \<open>break_ctl\<close> hold \<open>np->lock\<close> and not \<open>hw_lock\<close>, so they run while a service is in the
  middle; and the service gives the bytes it read to the tty after it has released \<open>hw_lock\<close>, so that a close
  or an open of the port comes in between.  Here the pass is cut at the points where another call can get
  in, the calls run at every point where the locks let them, and two things are shown: a run at this grain
  is a run of whole sections, with the hand-over a step of its own; and at every point of such a run, a
  service in the middle or not, the accesses are legal, no byte is lost or reordered on the way out, and none
  invented on the way in.
\<close>

section \<open>One pass, cut at its points\<close>

text \<open>
  Where the poll thread is: after the first look (\<open>Asked\<close>), after the confirming one (\<open>Confirmed\<close>), in the
  branch that was granted (\<open>InRx\<close>, \<open>InTx\<close>), with bytes in \<open>rxbuf\<close> and \<open>hw_lock\<close> released (\<open>Give\<close>), or out of
  the routine with its result (\<open>Out\<close>).  The transmit branch is one piece: it holds the port's own lock.
\<close>

datatype svc_at =
    Asked nat u8 u8 bool
  | Confirmed nat u8 u8 bool
  | InRx nat u8 bool
  | InTx nat u8
  | Give nat "u8 list"
  | Out bool

definition svc_begin :: "nat \<Rightarrow> nm32a \<Rightarrow> (svc_at \<times> nm32a) option" where
  "svc_begin c s = do {
     let s = mutex_lock s;
     (tir0, s) \<leftarrow> crd c TIR s;
     (rir0, s) \<leftarrow> crd c RIR s;
     let tr = (trace s > 0 \<and> (tir0 OR rir0) AND 0x80 \<noteq> 0);
     let s = (if tr then s\<lparr>trace := trace s - 1\<rparr> else s);
     if (tir0 OR rir0) AND 0x80 = 0 then Some (Out False, mutex_unlock s)
     else Some (Asked c tir0 rir0 tr, s)
   }"

definition confirm_step :: "nat \<Rightarrow> u8 \<Rightarrow> u8 \<Rightarrow> bool \<Rightarrow> nm32a \<Rightarrow> (svc_at \<times> nm32a) option" where
  "confirm_step c tir0 rir0 tr s = do {
     (tirc, s) \<leftarrow> crd c TIR s;
     (rirc, s) \<leftarrow> crd c RIR s;
     if (tir0 OR rir0) AND (tirc OR rirc) AND 0x80 = 0 then Some (Out False, mutex_unlock s)
     else Some (Confirmed c tirc rirc tr, s)
   }"

definition ack_step :: "nat \<Rightarrow> u8 \<Rightarrow> u8 \<Rightarrow> bool \<Rightarrow> nm32a \<Rightarrow> (svc_at \<times> nm32a) option" where
  "ack_step c tir0 rir0 tr s = do {
     let ackaddr = (if rir0 AND 0x80 \<noteq> 0 then NM32A_ACK_RX s else NM32A_ACK_TX s);
     (_, s) \<leftarrow> rdb (Bar ackaddr) s;
     (tir1, s) \<leftarrow> crd c TIR s;
     (rir1, s) \<leftarrow> crd c RIR s;
     let rx_granted = (rir1 AND 0xC0 = 0x40);
     let tx_granted = (\<not> rx_granted \<and> tir1 AND 0xC0 = 0x40);
     if \<not> rx_granted \<and> \<not> tx_granted
     then Some (Out False, mutex_unlock (s\<lparr>st_nogrant := st_nogrant s + 1\<rparr>))
     else
       let s = (if rx_granted \<noteq> (rir0 AND 0x80 \<noteq> 0) then s\<lparr>st_misgrant := st_misgrant s + 1\<rparr> else s);
           rir = (if rx_granted then rir1 else 0);
           tir = (if tx_granted then tir1 else tir0)
       in Some (if rir \<noteq> 0 then InRx c rir tr else InTx c tir, s)
   }"

definition rx_step :: "nat \<Rightarrow> u8 \<Rightarrow> bool \<Rightarrow> nm32a \<Rightarrow> (svc_at \<times> nm32a) option" where
  "rx_step c rir tr s =
     (let ch = unat (rir AND 3) in
      if rir AND 0x0c \<noteq> 0x0c then do { (b, s) \<leftarrow> service_rx_exception c ch tr s; Some (Out b, s) }
      else do {
        (rf, s) \<leftarrow> crd c RFOC s;
        (bs, s) \<leftarrow> read_rdr c (rdrus (par s)) (rx_count rf) s;
        let s = s\<lparr>st_good := st_good s + 1, st_bytes := st_bytes s + word_of_nat (length bs)\<rparr>;
        s \<leftarrow> nm32a_eoi c REOIR 0x00 s;
        Some (Give (pidx c ch) bs, mutex_unlock s)
      })"

fun svc_next :: "svc_at \<Rightarrow> nm32a \<Rightarrow> (svc_at \<times> nm32a) option" where
  "svc_next (Asked c tir0 rir0 tr) s = confirm_step c tir0 rir0 tr s"
| "svc_next (Confirmed c tir0 rir0 tr) s = ack_step c tir0 rir0 tr s"
| "svc_next (InRx c rir tr) s = rx_step c rir tr s"
| "svc_next (InTx c tir) s = do { (b, s) \<leftarrow> service_tx c tir s; Some (Out b, s) }"
| "svc_next (Give i bs) s = Some (Out True, rx_deliver i bs s)"
| "svc_next (Out b) s = None"

text \<open>The pieces, one after the other, are the routine.\<close>

fun svc_rest :: "svc_at \<Rightarrow> nm32a \<Rightarrow> (bool \<times> nm32a) option" where
  "svc_rest (Asked c tir0 rir0 tr) s = do {
     (tirc, s) \<leftarrow> crd c TIR s;
     (rirc, s) \<leftarrow> crd c RIR s;
     if (tir0 OR rir0) AND (tirc OR rirc) AND 0x80 = 0 then Some (False, mutex_unlock s)
     else service_ack c tirc rirc tr s
   }"
| "svc_rest (Confirmed c tir0 rir0 tr) s = service_ack c tir0 rir0 tr s"
| "svc_rest (InRx c rir tr) s = service_rx c rir tr s"
| "svc_rest (InTx c tir) s = service_tx c tir s"
| "svc_rest (Give i bs) s = Some (True, rx_deliver i bs s)"
| "svc_rest (Out b) s = Some (b, s)"

lemma service_begins: "nm32a_service c s = do { (pc, s) \<leftarrow> svc_begin c s; svc_rest pc s }"
  by (simp add: nm32a_service_def svc_begin_def Let_def split: bind_splits)

lemma service_goes_on:
  assumes "\<forall>b. pc \<noteq> Out b"
  shows "svc_rest pc s = do { (pc, s) \<leftarrow> svc_next pc s; svc_rest pc s }"
proof (cases pc)
  case (Asked c t r tr)
  then show ?thesis by (simp add: confirm_step_def split: bind_splits)
next
  case (Confirmed c t r tr)
  then show ?thesis by (auto simp add: ack_step_def service_ack_def Let_def split: bind_splits)
next
  case (InRx c r tr)
  then show ?thesis
    by (auto simp add: rx_step_def service_rx_def service_rx_data_def Let_def split: bind_splits)
next
  case (InTx c t)
  then show ?thesis by (auto split: bind_splits)
qed (use assms in simp_all)

section \<open>Calls in between\<close>

fun holds_lock :: "svc_at \<Rightarrow> bool" where
  "holds_lock (Out b) = False"
| "holds_lock (Give i bs) = False"
| "holds_lock _ = True"

text \<open>Calls that need \<open>np->lock\<close> only, calls that need \<open>hw_lock\<close>, and the rest of the poll thread.\<close>

fun ring_call :: "drv_op \<Rightarrow> bool" where
  "ring_call (Write i bs) = True"
| "ring_call (Break i st) = True"
| "ring_call _ = False"

fun hw_call :: "drv_op \<Rightarrow> bool" where
  "hw_call (Activate i baud) = True"
| "hw_call (Shutdown i) = True"
| "hw_call (DtrRts i a) = True"
| "hw_call (Termios i rate) = True"
| "hw_call _ = False"

fun poll_call :: "drv_op \<Rightarrow> bool" where
  "poll_call (Arm c) = True"
| "poll_call (Rest d) = True"
| "poll_call Nap = True"
| "poll_call _ = False"

definition may_run :: "svc_at \<Rightarrow> drv_op \<Rightarrow> bool" where
  "may_run pc op \<longleftrightarrow> valid_op op \<and>
     (ring_call op \<or> hw_call op \<and> \<not> holds_lock pc \<or> poll_call op \<and> (\<exists>b. pc = Out b))"

text \<open>A call is recorded with the bytes that it got accepted on each port.\<close>

type_synonym call = "drv_op \<times> (nat \<Rightarrow> u8 list)"

definition call_of :: "drv_op \<Rightarrow> nm32a \<Rightarrow> call" where
  "call_of op s = (op, \<lambda>i. accepted i op s)"

inductive gstep :: "call list \<Rightarrow> nm32a \<times> svc_at \<Rightarrow> nm32a \<times> svc_at \<Rightarrow> bool" where
  call: "may_run pc op \<Longrightarrow> drv_exec op s = Some s' \<Longrightarrow> gstep [call_of op s] (s, pc) (s', pc)"
| start: "c < NM32A_CHIPS \<Longrightarrow> svc_begin c s = Some (pc, s') \<Longrightarrow> gstep [] (s, Out b) (s', pc)"
| proceed: "svc_next pc s = Some (pc', s') \<Longrightarrow> gstep [] (s, pc) (s', pc')"

inductive gruns :: "nm32a \<times> svc_at \<Rightarrow> call list \<Rightarrow> nm32a \<times> svc_at \<Rightarrow> bool" for x where
  none: "gruns x [] x"
| more: "gruns x cs y \<Longrightarrow> gstep ls y z \<Longrightarrow> gruns x (cs @ ls) z"

text \<open>The same with a service in one piece, up to the release of \<open>hw_lock\<close>.\<close>

inductive pass :: "nat \<Rightarrow> nm32a \<Rightarrow> svc_at \<Rightarrow> nm32a \<Rightarrow> bool" for c s where
  pass_begin: "svc_begin c s = Some (pc, t) \<Longrightarrow> pass c s pc t"
| pass_next: "pass c s pc t \<Longrightarrow> holds_lock pc \<Longrightarrow> svc_next pc t = Some (pc', u) \<Longrightarrow> pass c s pc' u"

inductive cstep :: "call list \<Rightarrow> nm32a \<times> svc_at \<Rightarrow> nm32a \<times> svc_at \<Rightarrow> bool" where
  section_call: "may_run pc op \<Longrightarrow> drv_exec op s = Some s' \<Longrightarrow> \<not> holds_lock pc \<Longrightarrow> cstep [call_of op s] (s, pc) (s', pc)"
| section_service: "c < NM32A_CHIPS \<Longrightarrow> pass c s pc s' \<Longrightarrow> \<not> holds_lock pc \<Longrightarrow> cstep [] (s, Out b) (s', pc)"
| section_give: "cstep [] (s, Give i bs) (rx_deliver i bs s, Out True)"

inductive cruns :: "nm32a \<times> svc_at \<Rightarrow> call list \<Rightarrow> nm32a \<times> svc_at \<Rightarrow> bool" for x where
  none: "cruns x [] x"
| more: "cruns x cs y \<Longrightarrow> cstep ls y z \<Longrightarrow> cruns x (cs @ ls) z"


lemma pass_is_service: "pass c s pc t \<Longrightarrow> nm32a_service c s = svc_rest pc t"
proof (induction rule: pass.induct)
  case (pass_begin pc t)
  then show ?case by (simp add: service_begins)
next
  case (pass_next pc t pc' u)
  then have "svc_rest pc t = svc_rest pc' u" by (subst service_goes_on) (auto elim: holds_lock.elims)
  with pass_next show ?case by simp
qed

section \<open>A run is a run of sections\<close>

text \<open>Before the branches nothing depends on the ports.\<close>

abbreviation (input) with_ports :: "nm32a \<Rightarrow> nport list \<Rightarrow> nm32a" where
  "with_ports s P \<equiv> s\<lparr>ports := P\<rparr>"

lemma ev_with_ports: "ev e (with_ports s P) = with_ports (ev e s) P"
  by (simp add: ev_def)

lemmas ports_free = crd_def rdb_def Let_def mutex_lock_def mutex_unlock_def ev_with_ports

lemma svc_begin_with_ports:
  "svc_begin c s = Some (pc, t) \<Longrightarrow> svc_begin c (with_ports s P) = Some (pc, with_ports t P) \<and> ports t = ports s"
  by (auto simp: svc_begin_def ports_free elim!: bind_SomeE split: if_splits option.splits)

lemma confirm_with_ports:
  "confirm_step c t0 r0 tr s = Some (pc, t) \<Longrightarrow>
     confirm_step c t0 r0 tr (with_ports s P) = Some (pc, with_ports t P) \<and> ports t = ports s"
  by (auto simp: confirm_step_def ports_free elim!: bind_SomeE split: if_splits option.splits)

lemma ack_with_ports:
  "ack_step c t0 r0 tr s = Some (pc, t) \<Longrightarrow>
     ack_step c t0 r0 tr (with_ports s P) = Some (pc, with_ports t P) \<and> ports t = ports s"
  by (auto simp: ack_step_def ports_free NM32A_ACK_RX_def NM32A_ACK_TX_def
      elim!: bind_SomeE split: if_splits option.splits)

text \<open>A service that still holds the lock has only read, so a call that changes a ring might as well have come first.\<close>

lemma pass_with_ports:
  assumes "pass c s pc t" and "holds_lock pc"
  shows "pass c (with_ports s P) pc (with_ports t P) \<and> ports t = ports s"
  using assms
proof (induction rule: pass.induct)
  case (pass_begin pc t)
  with svc_begin_with_ports [of c s pc t P] show ?case by (blast intro: pass.pass_begin)
next
  case (pass_next pc t pc' u)
  have "svc_next pc (with_ports t P) = Some (pc', with_ports u P) \<and> ports u = ports t"
  proof (cases pc)
    case (Asked c' a b tr)
    with pass_next confirm_with_ports show ?thesis by simp
  next
    case (Confirmed c' a b tr)
    with pass_next ack_with_ports show ?thesis by simp
  next
    case (InRx c' r tr)
    with pass_next(3,5) show ?thesis
      by (auto simp: rx_step_def Let_def elim!: bind_SomeE split: if_splits)
  next
    case (InTx c' r)
    with pass_next(3,5) show ?thesis by (auto elim!: bind_SomeE)
  qed (use pass_next in simp_all)
  with pass_next show ?case by (auto intro: pass.pass_next)
qed

text \<open>A ring call is an update of the ports, and what it accepts depends on them alone.\<close>

lemma ring_call_ports:
  assumes "ring_call op"
  shows "\<exists>f. \<forall>s. drv_exec op s = Some (with_ports s (f (ports s)))"
proof (cases op)
  case (Write i bs)
  show ?thesis
    by (rule exI [of _ "\<lambda>P. P[i := snd (tty_write_loop (P ! i) bs)]"])
      (simp add: Write nm32a_tty_write_def set_port_def port_def split: prod.splits)
next
  case (Break i st)
  show ?thesis
    by (rule exI [of _ "\<lambda>P. P[i := break_put (P ! i) st]"])
      (simp add: Break nm32a_break_ctl_def set_port_def port_def)
qed (use assms in simp_all)

lemma call_of_ports: "ports s = ports t \<Longrightarrow> call_of op s = call_of op t"
proof -
  assume p: "ports s = ports t"
  have "accepted i op s = accepted i op t" for i
    by (cases op) (simp_all add: nm32a_tty_write_def port_def p split: prod.splits)
  then show ?thesis by (simp add: call_of_def)
qed

text \<open>What has run in sections, and the section that is in the middle.\<close>

definition sectioned :: "nm32a \<times> svc_at \<Rightarrow> call list \<Rightarrow> nm32a \<times> svc_at \<Rightarrow> bool" where
  "sectioned x cs y \<longleftrightarrow> (case y of (s, pc) \<Rightarrow>
     if holds_lock pc then \<exists>s1 b c. cruns x cs (s1, Out b) \<and> c < NM32A_CHIPS \<and> pass c s1 pc s
     else cruns x cs (s, pc))"

lemma sectioned_step:
  assumes "sectioned x cs y" and "gstep ls y z"
  shows "sectioned x (cs @ ls) z"
proof -
  from assms(2) show ?thesis
  proof (cases rule: gstep.cases)
    case (call pc op s s')
    show ?thesis
    proof (cases "holds_lock pc")
      case False
      with assms(1) call have "cruns x cs (s, pc)" by (simp add: sectioned_def)
      from cruns.more [OF this section_call [OF call(4,5) False]] call False show ?thesis
        by (simp add: sectioned_def)
    next
      case True
      with assms(1) call(2) obtain s1 b c where m: "cruns x cs (s1, Out b)" "c < NM32A_CHIPS" "pass c s1 pc s"
        by (auto simp: sectioned_def)
      have ring: "ring_call op" "valid_op op" using call(4) True by (auto simp: may_run_def)
      from ring_call_ports [OF ring(1)] obtain f where f: "drv_exec op u = Some (with_ports u (f (ports u)))" for u
        by blast
      have p: "ports s = ports s1" using pass_with_ports [OF m(3) True] by simp
      have "cstep [call_of op s1] (s1, Out b) (with_ports s1 (f (ports s1)), Out b)"
        by (rule section_call) (use ring f in \<open>simp_all add: may_run_def\<close>)
      with cruns.more [OF m(1)] have "cruns x (cs @ [call_of op s]) (with_ports s1 (f (ports s1)), Out b)"
        unfolding call_of_ports [OF p] by blast
      moreover have "pass c (with_ports s1 (f (ports s1))) pc (with_ports s (f (ports s1)))"
        using pass_with_ports [OF m(3) True] by blast
      moreover have "s' = with_ports s (f (ports s1))" using call(5) f [of s] p by simp
      ultimately show ?thesis using call True m(2) by (auto simp: sectioned_def)
    qed
  next
    case (start c s pc' s' b)
    from assms(1) start(2) have r: "cruns x cs (s, Out b)" by (simp add: sectioned_def)
    show ?thesis
    proof (cases "holds_lock pc'")
      case True
      have "pass c s pc' s'" by (rule pass_begin [OF start(5)])
      with r start(1,3,4) True show ?thesis by (auto simp: sectioned_def)
    next
      case False
      with cruns.more [OF r section_service [OF start(4) pass_begin [OF start(5)]]] start show ?thesis
        by (simp add: sectioned_def)
    qed
  next
    case (proceed pc s pc' s')
    show ?thesis
    proof (cases "holds_lock pc")
      case True
      with assms(1) proceed(2) obtain s1 b c where m: "cruns x cs (s1, Out b)" "c < NM32A_CHIPS" "pass c s1 pc s"
        by (auto simp: sectioned_def)
      note p = pass_next [OF m(3) True proceed(4)]
      show ?thesis
      proof (cases "holds_lock pc'")
        case True
        with m p proceed show ?thesis by (auto simp: sectioned_def)
      next
        case False
        with cruns.more [OF m(1) section_service [OF m(2) p]] proceed show ?thesis by (simp add: sectioned_def)
      qed
    next
      case False
      then obtain i bs where g: "pc = Give i bs" using proceed(4) by (cases pc) simp_all
      with proceed have z: "pc' = Out True" "s' = rx_deliver i bs s" by simp_all
      have "cruns x cs (s, Give i bs)" using assms(1) g proceed(2) by (simp add: sectioned_def)
      from cruns.more [OF this section_give] z proceed(1,3) show ?thesis by (simp add: sectioned_def)
    qed
  qed
qed

lemma gruns_sectioned:
  assumes "gruns (s0, Out b0) cs y"
  shows "sectioned (s0, Out b0) cs y"
  using assms
proof (induction rule: gruns.induct)
  case none
  then show ?case by (simp add: sectioned_def cruns.none)
next
  case (more cs y ls z)
  then show ?case by (blast intro: sectioned_step)
qed

section \<open>At every point of a run\<close>

definition pending :: "nat \<Rightarrow> svc_at \<Rightarrow> u8 list" where
  "pending i pc = (case pc of Give j bs \<Rightarrow> if j = i then bs else [] | _ \<Rightarrow> [])"

lemma pending_simps [simp]:
  "pending i (Give j bs) = (if j = i then bs else [])" "pending i (Out b) = []" "pending i (Asked c t r tr) = []"
  "pending i (Confirmed c t r tr) = []" "pending i (InRx c r tr) = []" "pending i (InTx c t) = []"
  by (simp_all add: pending_def)

lemma subseq_front: "subseq (xs @ ys) zs \<Longrightarrow> subseq xs zs"
  by (rule subseq_order.trans [OF subseq_rev_drop_many [OF subseq_order.refl]])

fun at_ok :: "svc_at \<Rightarrow> nm32a \<Rightarrow> bool" where
  "at_ok (Asked c t r tr) s \<longleftrightarrow> c < 8 \<and> busy_ok s \<and> closed (evs s) \<and>
     (\<exists>h. evs s = RdB (Reg c RIR) r # RdB (Reg c TIR) t # h)"
| "at_ok (Confirmed c t r tr) s \<longleftrightarrow> c < 8 \<and> busy_ok s \<and> confirmed (evs s)"
| "at_ok (InRx c r tr) s \<longleftrightarrow> c < 8 \<and> busy_ok s \<and> open_ctx (evs s) = RxCtx c (unat (r AND 3))"
| "at_ok (InTx c t) s \<longleftrightarrow> c < 8 \<and> busy_ok s \<and> open_ctx (evs s) = TxCtx c (unat (t AND 3))"
| "at_ok (Give i bs) s \<longleftrightarrow> i < 32 \<and> length bs \<le> 31 \<and> good s"
| "at_ok (Out b) s \<longleftrightarrow> good s"

text \<open>What was given and what is still in \<open>rxbuf\<close> is part of what was taken.\<close>

definition rx_ok :: "svc_at \<Rightarrow> nm32a \<Rightarrow> bool" where
  "rx_ok pc s \<longleftrightarrow> (\<forall>i < 32. subseq (flipped i (evs s) @ pending i pc) (rx_taken (i div 4) (i mod 4) (evs s)))"

definition flows :: "svc_at \<Rightarrow> nm32a \<Rightarrow> svc_at \<Rightarrow> nm32a \<Rightarrow> bool" where
  "flows pc s pc' s' \<longleftrightarrow> (\<forall>i. tx_total i s' = tx_total i s) \<and> (rx_ok pc s \<longrightarrow> rx_ok pc' s')"

lemma flows_silent: "silent s s' \<Longrightarrow> (\<And>i. pending i pc = pending i pc') \<Longrightarrow> flows pc s pc' s'"
  by (simp add: flows_def silent_def rx_ok_def)

lemma flows_moves:
  assumes "rx_moves c ch taken given s s'" and "subseq given taken" and "ch < 4" and "\<And>i. tx_total i s' = tx_total i s"
    and "\<And>i. pending i pc = []" and "\<And>i. pending i pc' = []"
  shows "flows pc s pc' s'"
proof -
  have "subseq (flipped i (evs s')) (rx_taken (i div 4) (i mod 4) (evs s'))"
    if i: "i < 32" and s: "subseq (flipped i (evs s)) (rx_taken (i div 4) (i mod 4) (evs s))" for i
  proof -
    have "i div 4 = c \<and> i mod 4 = ch \<longleftrightarrow> i = pidx c ch" by (rule pidx_div_mod [OF assms(3)])
    with assms(1,2) s show ?thesis
      by (auto simp: rx_moves_def intro: list_emb_append_mono subseq_append)
  qed
  with assms(4-6) show ?thesis by (simp add: flows_def rx_ok_def)
qed

lemma begin_ok:
  assumes "svc_begin c s = Some (pc, s')" and "good s" and "c < 8"
  shows "at_ok pc s' \<and> flows (Out b) s pc s'"
proof -
  from assms(1) obtain t s1 r s2 where r: "crd c TIR (mutex_lock s) = Some (t, s1)" "crd c RIR s1 = Some (r, s2)"
    and k: "(let tr = 0 < trace s2 \<and> (t OR r) AND 0x80 \<noteq> 0; s = if tr then s2\<lparr>trace := trace s2 - 1\<rparr> else s2 in
      if (t OR r) AND 0x80 = 0 then Some (Out False, mutex_unlock s) else Some (Asked c t r tr, s)) = Some (pc, s')"
    by (auto simp: svc_begin_def elim!: bind_SomeE)
  define s3 where "s3 = (if 0 < trace s2 \<and> (t OR r) AND 0x80 \<noteq> 0 then s2\<lparr>trace := trace s2 - 1\<rparr> else s2)"
  have s2: "evs s2 = RdB (Reg c RIR) r # RdB (Reg c TIR) t # Lk # evs s" "ports s2 = ports s" "hw s2 = hw s" "par s2 = par s"
    using r by (simp_all add: crd_Some)
  have b0: "busy_ok (mutex_lock s)" "closed (evs s)" using assms(2) by (simp_all add: lock_busy good_def)
  have same: "evs s3 = evs s2" "ports s3 = ports s2" "hw s3 = hw s2" "par s3 = par s2" by (simp_all add: s3_def)
  have "busy_ok s2" using b0 s2 by (simp add: busy_ok_def just_acked_def card_inv_def port_def)
  then have b: "busy_ok s3" using keepsD(1) [OF keeps_same [OF same]] by blast
  have cl: "closed (evs s3)" using b0 s2 same by (simp add: closed_def just_acked_def)
  have sil: "silent s s3" using s2 same by (simp add: silent_def tx_total_def port_def just_acked_def)
  then have sil': "silent s (mutex_unlock s3)" by (simp add: silent_def)
  show ?thesis
  proof (cases "(t OR r) AND 0x80 = 0")
    case True
    with k have "pc = Out False" "s' = mutex_unlock s3" by (simp_all add: Let_def s3_def)
    with unlock_good [OF b cl] flows_silent [OF sil'] show ?thesis by simp
  next
    case False
    with k have "pc = Asked c t r (0 < trace s2)" "s' = s3" by (simp_all add: Let_def s3_def)
    with b cl s2 same(1) assms(3) flows_silent [OF sil] False show ?thesis by simp
  qed
qed

lemma confirm_ok:
  assumes "confirm_step c t r tr s = Some (pc, s')" and "at_ok (Asked c t r tr) s"
  shows "at_ok pc s' \<and> flows (Asked c t r tr) s pc s'"
proof -
  from assms(1) obtain t' s1 r' s2 where x: "crd c TIR s = Some (t', s1)" "crd c RIR s1 = Some (r', s2)"
    and k: "(if (t OR r) AND (t' OR r') AND 0x80 = 0 then Some (Out False, mutex_unlock s2)
      else Some (Confirmed c t' r' tr, s2)) = Some (pc, s')"
    by (auto simp: confirm_step_def elim!: bind_SomeE)
  from assms(2) obtain h where a: "c < 8" "busy_ok s" "closed (evs s)" "evs s = RdB (Reg c RIR) r # RdB (Reg c TIR) t # h"
    by auto
  have s2: "evs s2 = RdB (Reg c RIR) r' # RdB (Reg c TIR) t' # evs s" "ports s2 = ports s" "hw s2 = hw s" "par s2 = par s"
    using x by (simp_all add: crd_Some)
  have ja: "just_acked c (RdB (Reg c TIR) t' # evs s) = None" using a(4) by (simp add: just_acked_def)
  have b: "busy_ok s2" using a(2) s2 ja by (simp add: busy_ok_def card_inv_def port_def)
  have cl: "closed (evs s2)" using a(3) s2 ja by (simp add: closed_def)
  have sil: "silent s s2" using s2 ja by (simp add: silent_def tx_total_def port_def)
  then have sil': "silent s (mutex_unlock s2)" by (simp add: silent_def)
  show ?thesis
  proof (cases "(t OR r) AND (t' OR r') AND 0x80 = 0")
    case True
    with k have "pc = Out False" "s' = mutex_unlock s2" by simp_all
    with unlock_good [OF b cl] flows_silent [OF sil'] show ?thesis by simp
  next
    case False
    moreover have "confirmed (evs s2)" using False s2 a(4) by (simp add: confirmed_def)
    moreover have "pc = Confirmed c t' r' tr" "s' = s2" using False k by simp_all
    ultimately show ?thesis using b a(1) flows_silent [OF sil] by simp
  qed
qed

lemma ack_ok:
  assumes "ack_step c t r tr s = Some (pc, s')" and "at_ok (Confirmed c t r tr) s"
  shows "at_ok pc s' \<and> flows (Confirmed c t r tr) s pc s'"
proof -
  let ?a = "if r AND 0x80 \<noteq> 0 then NM32A_ACK_RX s else NM32A_ACK_TX s"
  let ?rxg = "\<lambda>rir1 :: u8. rir1 AND 0xC0 = 0x40"
  from assms(1) obtain v s1 tir1 s2 rir1 s3 where
      x: "rdb (Bar ?a) s = Some (v, s1)" "crd c TIR s1 = Some (tir1, s2)" "crd c RIR s2 = Some (rir1, s3)"
    and k: "(if \<not> ?rxg rir1 \<and> \<not> (\<not> ?rxg rir1 \<and> tir1 AND 0xC0 = 0x40)
      then Some (Out False, mutex_unlock (s3\<lparr>st_nogrant := st_nogrant s3 + 1\<rparr>))
      else (let s = (if ?rxg rir1 \<noteq> (r AND 0x80 \<noteq> 0) then s3\<lparr>st_misgrant := st_misgrant s3 + 1\<rparr> else s3);
                rir = (if ?rxg rir1 then rir1 else 0);
                tir = (if \<not> ?rxg rir1 \<and> tir1 AND 0xC0 = 0x40 then tir1 else t)
            in Some (if rir \<noteq> 0 then InRx c rir tr else InTx c tir, s))) = Some (pc, s')"
    unfolding ack_step_def Let_def by (auto elim!: bind_SomeE simp del: not_not)
  from assms(2) have a: "c < 8" "busy_ok s" "confirmed (evs s)" by simp_all
  note A = ack_reads [OF x a(2,3)]
  have sil: "silent s s3" using A(3-6) by (simp add: silent_def A(7,8,10) port_def)
  define s4 where "s4 = (if ?rxg rir1 \<noteq> (r AND 0x80 \<noteq> 0) then s3\<lparr>st_misgrant := st_misgrant s3 + 1\<rparr> else s3)"
  have same: "evs s4 = evs s3" "ports s4 = ports s3" "hw s4 = hw s3" "par s4 = par s3" by (simp_all add: s4_def)
  have b: "busy_ok s4" using keepsD(1) [OF keeps_same [OF same] A(1)] .
  have "silent s3 s4" using same by (simp add: silent_def tx_total_def port_def)
  with sil have sil4: "silent s s4" by (rule silent_trans)
  consider (rx) "?rxg rir1" | (tx) "\<not> ?rxg rir1" "tir1 AND 0xC0 = 0x40"
    | (none) "\<not> ?rxg rir1" "tir1 AND 0xC0 \<noteq> 0x40" by blast
  then show ?thesis
  proof cases
    case rx
    then have "rir1 \<noteq> 0" by auto
    with rx k have "pc = InRx c rir1 tr" "s' = s4" by (simp_all add: Let_def s4_def)
    moreover have "open_ctx (evs s4) = RxCtx c (unat (rir1 AND 3))" using A(2) rx same by simp
    ultimately show ?thesis using a(1) b flows_silent [OF sil4] by simp
  next
    case tx
    with k have "pc = InTx c tir1" "s' = s4" by (simp_all add: Let_def s4_def)
    moreover have "open_ctx (evs s4) = TxCtx c (unat (tir1 AND 3))" using A(2) tx same by simp
    ultimately show ?thesis using a(1) b flows_silent [OF sil4] by simp
  next
    case none
    define s5 where "s5 = s3\<lparr>st_nogrant := st_nogrant s3 + 1\<rparr>"
    from none k have z: "pc = Out False" "s' = mutex_unlock s5" by (simp_all add: s5_def)
    have "busy_ok s5" unfolding s5_def using keepsD(1) [OF keeps_counters(3) A(1)] .
    moreover have "closed (evs s5)" using A(2) none by (simp add: closed_def s5_def)
    ultimately have "good s'" unfolding z by (rule unlock_good)
    moreover have "silent s3 s'" by (simp add: z s5_def silent_def tx_total_def port_def)
    ultimately show ?thesis using flows_silent [OF silent_trans [OF sil]] z by simp
  qed
qed

lemma serves_total: "serves s s' \<Longrightarrow> tx_total i s' = tx_total i s \<and> good s'"
  by (simp add: serves_def)

lemma rx_step_ok:
  assumes "rx_step c rir tr s = Some (pc, s')" and "at_ok (InRx c rir tr) s"
  shows "at_ok pc s' \<and> flows (InRx c rir tr) s pc s'"
proof -
  let ?ch = "unat (rir AND 3)"
  from assms(2) have a: "c < 8" "busy_ok s" "open_ctx (evs s) = RxCtx c ?ch" by simp_all
  show ?thesis
  proof (cases "rir AND 0x0c = 0x0c")
    case False
    with assms(1) obtain b where e: "service_rx_exception c ?ch tr s = Some (b, s')" and pc: "pc = Out b"
      by (auto simp: rx_step_def Let_def elim!: bind_SomeE)
    from service_rx_exception_spec [OF e a(2,3) unat_and_3] obtain taken given where
      sv: "serves s s'" and m: "given = taken \<or> given = []" "rx_moves c ?ch taken given s s'" by blast
    have "flows (InRx c rir tr) s pc s'"
      by (rule flows_moves [OF m(2) _ unat_and_3]) (use m(1) serves_total [OF sv] pc in auto)
    with serves_total [OF sv] pc show ?thesis by simp
  next
    case True
    with assms(1) obtain rf s1 bs s2 s4 where
        r1: "crd c RFOC s = Some (rf, s1)"
      and r2: "read_rdr c (rdrus (par s1)) (rx_count rf) s1 = Some (bs, s2)"
      and r4: "nm32a_eoi c REOIR 0x00
          (s2\<lparr>st_good := st_good s2 + 1, st_bytes := st_bytes s2 + word_of_nat (length bs)\<rparr>) = Some s4"
      and z: "pc = Give (pidx c ?ch) bs" "s' = mutex_unlock s4"
      by (auto simp: rx_step_def Let_def elim!: bind_SomeE)
    let ?s3 = "s2\<lparr>st_good := st_good s2 + 1, st_bytes := st_bytes s2 + word_of_nat (length bs)\<rparr>"
    note P1 = crd_plain [OF r1, simplified]
    have o1: "open_ctx (evs s1) = RxCtx c ?ch" using P1 a(3) by simp
    note P2 = read_rdr_spec [OF r2 o1 unat_and_3]
    have o3: "REOIR = REOIR \<and> open_ctx (evs ?s3) = RxCtx c ?ch \<or> REOIR = TEOIR \<and> open_ctx (evs ?s3) = TxCtx c ?ch"
      using P2 by simp
    note P4 = eoi_spec [OF r4 o3 unat_and_3]
    have k: "keeps s s4" using P1(1) P2 P4 keeps_counters(1) keeps_trans by meson
    have cl: "closed (evs s4)" using P4 P2 by (simp add: closed_def)
    have g: "good s'" unfolding z using unlock_good [OF keeps_busy [OF k a(2)] cl] .
    have rt: "rx_taken c' ch' (evs s') = rx_taken c' ch' (evs s) @ (if c' = c \<and> ch' = ?ch then bs else [])"
      and fl: "flipped i (evs s') = flipped i (evs s)" for c' ch' i
      using P1 P2 P4 by (auto simp: z)
    have "subseq (flipped i (evs s') @ pending i pc) (rx_taken (i div 4) (i mod 4) (evs s'))"
      if i: "i < 32" and sub: "subseq (flipped i (evs s)) (rx_taken (i div 4) (i mod 4) (evs s))" for i
    proof (cases "i = pidx c ?ch")
      case True
      then have "i div 4 = c" "i mod 4 = ?ch" using pidx_channel [OF i unat_and_3] by blast+
      with True sub show ?thesis by (auto simp: rt fl z(1) intro: list_emb_append_mono)
    next
      case False
      then have "\<not> (i div 4 = c \<and> i mod 4 = ?ch)" using pidx_channel [OF i unat_and_3] by blast
      with False sub show ?thesis by (auto simp: rt fl z(1))
    qed
    moreover have "tx_total i s' = tx_total i s" for i using keepsD(2) [OF k] by (simp add: z)
    ultimately have fw: "flows (InRx c rir tr) s pc s'" by (simp add: flows_def rx_ok_def)
    have "pidx c ?ch < 32" using a(1) unat_and_3 [of rir] by linarith
    moreover have "length bs \<le> 31" using P2 rx_count_le [of rf] by simp
    ultimately have "at_ok pc s'" using g z(1) by simp
    with fw show ?thesis by blast
  qed
qed

lemma next_ok:
  assumes "svc_next pc s = Some (pc', s')" and "at_ok pc s"
  shows "at_ok pc' s' \<and> flows pc s pc' s'"
proof (cases pc)
  case (Asked c t r tr)
  with assms confirm_ok show ?thesis by simp
next
  case (Confirmed c t r tr)
  with assms ack_ok show ?thesis by simp
next
  case (InRx c r tr)
  with assms rx_step_ok show ?thesis by simp
next
  case (InTx c t)
  with assms obtain b where t: "service_tx c t s = Some (b, s')" and z: "pc' = Out b" by (auto elim!: bind_SomeE)
  from service_tx_spec [OF t] InTx assms(2) have sv: "serves s s'" and m: "rx_moves c 0 [] [] s s'" by auto
  have "flows pc s pc' s'"
    by (rule flows_moves [OF m]) (use serves_total [OF sv] InTx z in auto)
  with serves_total [OF sv] z show ?thesis by simp
next
  case (Give j bs)
  with assms have z: "pc' = Out True" "s' = rx_deliver j bs s" and g: "good s" "j < 32" by simp_all
  have "good s'" using g unfolding z by (auto simp: rx_deliver_def good_def closed_def)
  moreover have "tx_total i s' = tx_total i s" for i using keepsD(2) [OF keeps_deliver] z by simp
  moreover have "subseq (flipped i (evs s')) (rx_taken (i div 4) (i mod 4) (evs s'))"
    if "subseq (flipped i (evs s) @ pending i pc) (rx_taken (i div 4) (i mod 4) (evs s))" for i
    using that Give by (auto simp: z flipped_deliver dest: subseq_front split: if_splits)
  ultimately show ?thesis by (simp add: z(1) flows_def rx_ok_def)
next
  case (Out b)
  with assms show ?thesis by simp
qed

section \<open>A call at any point\<close>

lemma at_ok_free: "\<not> holds_lock pc \<Longrightarrow> at_ok pc s \<Longrightarrow> good s \<and> (good s' \<longrightarrow> at_ok pc s')"
  by (cases pc) simp_all

lemma at_ok_ports:
  "holds_lock pc \<Longrightarrow> at_ok pc s \<Longrightarrow> card_inv (with_ports s P) \<Longrightarrow> at_ok pc (with_ports s P)"
  by (cases pc) (simp_all add: busy_ok_def)

lemma at_ok_log: "at_ok pc s \<Longrightarrow> card_inv s \<and> legal_log (evs s)"
  by (cases pc) (simp_all add: busy_ok_def good_def)

text \<open>A call that is not a service leaves the receive side of every line as it is.\<close>

lemma call_reads_nothing:
  "line_step i op l l' \<Longrightarrow> \<forall>c. op \<noteq> Service c \<Longrightarrow> ltaken l' = ltaken l \<and> lgiven l' = lgiven l"
  by (cases rule: line_step.cases) auto

definition takes :: "drv_op \<Rightarrow> nm32a \<Rightarrow> nm32a \<Rightarrow> bool" where
  "takes op s s' \<longleftrightarrow>
     (\<forall>i < 32. (\<forall>baud. op \<noteq> Activate i baud) \<longrightarrow> tx_total i s' = tx_total i s @ accepted i op s)"

lemma ring_call_ok:
  assumes "ring_call op" and "valid_op op" and "drv_exec op s = Some s'" and "card_inv s"
  shows "evs s' = evs s \<and> card_inv s' \<and> (\<exists>P. s' = with_ports s P) \<and> takes op s s'"
proof -
  from ring_call_ports [OF assms(1)] obtain f where f: "drv_exec op u = Some (with_ports u (f (ports u)))" for u
    by blast
  let ?t = "s\<lparr>evs := []\<rparr>" and ?t' = "with_ports (s\<lparr>evs := []\<rparr>) (f (ports s))"
  have g: "good ?t" using assms(4) by (simp add: good_def closed_def card_inv_def port_def)
  have x: "drv_exec op ?t = Some ?t'" using f [of ?t] by simp
  have "good ?t'" using op_refines [OF g assms(2) x] by blast
  then have c: "card_inv s'" using f [of s] assms(3) by (simp add: good_def card_inv_def port_def)
  have "accepted i op ?t = accepted i op s" for i
    using fun_cong [OF arg_cong [OF call_of_ports [of ?t s op], of snd]] by (simp add: call_of_def)
  with op_stream [OF g assms(2) x] f [of s] assms(3) have "takes op s s'"
    by (simp add: takes_def tx_total_def port_def)
  with c f [of s] assms(3) show ?thesis by auto
qed

lemma call_ok:
  assumes "may_run pc op" and "drv_exec op s = Some s'" and "at_ok pc s"
  shows "at_ok pc s' \<and> takes op s s' \<and> (rx_ok pc s \<longrightarrow> rx_ok pc s')"
proof (cases "holds_lock pc")
  case True
  with assms(1) have r: "ring_call op" "valid_op op" by (auto simp: may_run_def)
  note R = ring_call_ok [OF r assms(2)] and A = at_ok_log [OF assms(3)]
  with at_ok_ports [OF True assms(3)] have "at_ok pc s'" by blast
  with R A show ?thesis by (simp add: rx_ok_def)
next
  case False
  from at_ok_free [OF False assms(3)] have g: "good s" by blast
  have v: "valid_op op" and n: "\<forall>c. op \<noteq> Service c" using assms(1) by (auto simp: may_run_def)
  note O = op_refines [OF g v assms(2)]
  have "takes op s s'" using op_stream [OF g v assms(2)] by (simp add: takes_def)
  moreover have "rx_taken (i div 4) (i mod 4) (evs s') = rx_taken (i div 4) (i mod 4) (evs s) \<and>
      flipped i (evs s') = flipped i (evs s)" if "i < 32" for i
    using O call_reads_nothing [OF _ n, of i "line i s" "line i s'"] that by (simp add: line_def)
  ultimately show ?thesis using O at_ok_free [OF False assms(3)] by (simp add: rx_ok_def)
qed

section \<open>Runs at this grain\<close>

lemma gruns_ok:
  assumes "gruns x cs y" and "at_ok (snd x) (fst x)" and "rx_ok (snd x) (fst x)"
  shows "at_ok (snd y) (fst y) \<and> rx_ok (snd y) (fst y) \<and>
    (\<forall>i < 32. (\<forall>(op, acc) \<in> set cs. \<forall>baud. op \<noteq> Activate i baud) \<longrightarrow>
       tx_total i (fst y) = tx_total i (fst x) @ concat (map (\<lambda>(op, acc). acc i) cs))"
  using assms
proof (induction rule: gruns.induct)
  case (more cs y ls z)
  from more.hyps(2) show ?case
  proof (cases rule: gstep.cases)
    case (call pc op s s')
    with more call_ok [OF call(4,5)] show ?thesis by (auto simp: call_of_def takes_def)
  next
    case (start c s pc s' b)
    with more begin_ok [OF start(5)] show ?thesis by (auto simp: flows_def)
  next
    case (proceed pc s pc' s')
    with more next_ok [OF proceed(4)] show ?thesis by (auto simp: flows_def)
  qed
qed simp

lemma gruns_trans: "gruns y ds z \<Longrightarrow> gruns x cs y \<Longrightarrow> gruns x (cs @ ds) z"
  by (induction rule: gruns.induct) (auto simp: gruns.more simp flip: append_assoc)

lemma rx_ok_card_start: "rx_ok (Out b) (card_start h p)"
  by (simp add: rx_ok_def card_start_ports)

section \<open>A write in the middle of a service\<close>

lemma gruns_step: "gstep [] x y \<Longrightarrow> gruns y cs z \<Longrightarrow> gruns x cs z"
  using gruns_trans [of y cs z x "[]"] gruns.more [OF gruns.none [of x], of "[]" y] by simp

lemma gruns_call: "gstep [k] x y \<Longrightarrow> gruns y cs z \<Longrightarrow> gruns x (k # cs) z"
  using gruns_trans [of y cs z x "[k]"] gruns.more [OF gruns.none [of x], of "[k]" y] by simp

definition looked :: "nm32a \<Rightarrow> nm32a" where
  "looked s = ev (RdB (Reg 0 RIR) 0) (ev (RdB (Reg 0 TIR) 0x80) s)"

lemma demo_confirmed:
  assumes "hw s = demo_hw" and "trace s = 0" and "gruns (looked (looked (mutex_lock s)), Confirmed 0 0x80 0 False) cs z"
  shows "gruns (s, Out b) cs z"
proof -
  have "svc_begin 0 s = Some (Asked 0 0x80 0 False, looked (mutex_lock s))"
    using assms(1,2) by (simp add: svc_begin_def demo_crd demo_dev_def Let_def looked_def mutex_lock_def)
  then have "gstep [] (s, Out b) (looked (mutex_lock s), Asked 0 0x80 0 False)" by (intro gstep.start [of 0]) simp_all
  moreover have "confirm_step 0 0x80 0 False (looked (mutex_lock s)) =
      Some (Confirmed 0 0x80 0 False, looked (looked (mutex_lock s)))"
    using assms(1) by (simp add: confirm_step_def demo_crd demo_dev_def looked_def)
  then have "gstep [] (looked (mutex_lock s), Asked 0 0x80 0 False) (looked (looked (mutex_lock s)), Confirmed 0 0x80 0 False)"
    by (intro gstep.proceed) simp
  ultimately show ?thesis using assms(3) by (blast intro: gruns_step)
qed

lemma demo_sent:
  assumes "hw s = demo_hw" and "pilr (par s) = 0" and "eoiretry (par s) \<noteq> 0" and "0 < length (ports s)"
    and "\<not> tx_empty (port 0 s)" and "tx_empty (tx_pop (port 0 s))"
  shows "\<exists>s'. gruns (s, Confirmed 0 0x80 0 False) [] (s', Out True) \<and> ports s' = (ports s)[0 := tx_pop (port 0 s)]"
proof -
  let ?t = "ev (RdB (Reg 0 RIR) 0) (ev (RdB (Reg 0 TIR) 0x40) (ev (RdB (Bar 0) 0) s))"
  have "ack_step 0 0x80 0 False s = Some (InTx 0 0x40, ?t)"
    using assms(1,2) by (simp add: ack_step_def demo_crd demo_dev_def Let_def NM32A_ACK_TX_def)
  then have g: "gstep [] (s, Confirmed 0 0x80 0 False) (?t, InTx 0 0x40)" by (intro gstep.proceed) simp
  note T = demo_service_tx [of ?t]
  let ?u = "mutex_unlock (ev (RdB (Reg 0 STK) 0) (cwr 0 TEOIR 0
     (set_port 0 (tx_pop (port 0 ?t)) (cwr 0 TDR (tx_front (port 0 ?t)) (ev (RdB (Reg 0 TFTC) 16) ?t)))))"
  have "gstep [] (?t, InTx 0 0x40) (?u, Out True)"
    by (rule gstep.proceed) (use T assms in simp)
  with g have "gruns (s, Confirmed 0 0x80 0 False) [] (?u, Out True)" by (blast intro: gruns_step gruns.none)
  moreover have "ports ?u = (ports s)[0 := tx_pop (port 0 s)]" by (simp add: set_port_def)
  ultimately show ?thesis by blast
qed

abbreviation (input) demo_card :: nm32a where "demo_card \<equiv> card_start demo_hw default_params"

lemma demo_grain:
  "\<exists>s'. gruns (demo_card, Out False) [call_of (Write 0 [0x41]) demo_card] (s', Out True) \<and> ring_content (port 0 s') = []"
proof -
  let ?s2 = "looked (looked (mutex_lock demo_card))"
  let ?s3 = "set_port 0 (nm32a_tx_put (port 0 demo_card) 0x41) ?s2"
  have len: "length (ports demo_card) = 32" by (simp add: card_start_ports del: upt_rec_numeral)
  have same: "ports ?s2 = ports demo_card" "hw ?s2 = demo_hw" "par ?s2 = default_params"
    by (simp_all add: looked_def card_start_ports del: upt_rec_numeral)
  have p: "port 0 ?s3 = zero_port\<lparr>txb := (replicate 1024 0)[0 := 0x41], head := 1\<rparr>"
    using len same by (simp add: port_card_start nm32a_tx_put_def zero_port_def)
  have "drv_exec (Write 0 [0x41]) ?s2 = Some ?s3"
    using same by (simp add: nm32a_tty_write_def Let_def nm32a_tx_space_def port_card_start zero_port_def port_def [of 0 ?s2]
      flip: port_def)
  then have w: "gstep [call_of (Write 0 [0x41]) demo_card] (?s2, Confirmed 0 0x80 0 False) (?s3, Confirmed 0 0x80 0 False)"
    using gstep.call [of "Confirmed 0 0x80 0 False" "Write 0 [0x41]" ?s2 ?s3] call_of_ports [OF same(1)]
    by (simp add: may_run_def)
  have "\<exists>s'. gruns (?s3, Confirmed 0 0x80 0 False) [] (s', Out True) \<and> ports s' = (ports ?s3)[0 := tx_pop (port 0 ?s3)]"
    by (rule demo_sent)
      (use len p same in \<open>simp_all add: default_params_def tx_empty_def tx_pop_def zero_port_def del: upt_rec_numeral\<close>)
  then obtain s' where r: "gruns (?s3, Confirmed 0 0x80 0 False) [] (s', Out True)"
    and q: "ports s' = (ports ?s3)[0 := tx_pop (port 0 ?s3)]" by blast
  have "port 0 s' = tx_pop (port 0 ?s3)" using len same by (simp add: port_def q)
  then have "ring_content (port 0 s') = []"
    by (simp add: p tx_pop_def zero_port_def ring_content_def ring_used_def)
  moreover have "gruns (demo_card, Out False) [call_of (Write 0 [0x41]) demo_card] (s', Out True)"
    by (rule demo_confirmed [OF _ _ gruns_call [OF w r]]) (simp_all add: card_start_ports)
  ultimately show ?thesis by blast
qed

section \<open>The hand-over comes late\<close>

text \<open>
  The service looks at \<open>np->open\<close> and calls the tty layer after it has released \<open>hw_lock\<close>.  An open of the port that gets in
  between receives what the line sent before it.
\<close>

lemma stale_bytes_delivered:
  assumes "good s" and "i < NM32A_PORTS_N" and "bs \<noteq> []" and "nm32a_port_activate i baud s = Some (0, t)"
  shows "gruns (s, Give i bs) [call_of (Activate i baud) s] (rx_deliver i bs t, Out True) \<and>
    flipped i (evs (rx_deliver i bs t)) = flipped i (evs s) @ bs"
proof -
  have x: "drv_exec (Activate i baud) s = Some t" using assms(4) by simp
  have v: "valid_op (Activate i baud)" using assms(2) by simp
  from op_refines [OF assms(1) v x] assms(2) have l: "line_step i (Activate i baud) (line i s) (line i t)" by simp
  then have "flipped i (evs t) = flipped i (evs s)"
    using call_reads_nothing [OF l] by (simp add: line_def)
  moreover have "popen (port i t)"
    using activate_section(2) [OF assms(4)] good_port [OF assms(1,2)]
    by (auto simp: port_def opened_def)
  ultimately have "flipped i (evs (rx_deliver i bs t)) = flipped i (evs s) @ bs" by (simp add: flipped_deliver)
  moreover have "gstep [call_of (Activate i baud) s] (s, Give i bs) (t, Give i bs)"
    using x v by (intro gstep.call) (simp_all add: may_run_def)
  moreover have "gstep [] (t, Give i bs) (rx_deliver i bs t, Out True)" by (rule gstep.proceed) simp
  ultimately show ?thesis by (blast intro: gruns_call gruns_step gruns.none)
qed

section \<open>What the grain gives\<close>

lemma pass_runs:
  assumes "pass c s pc t" and "c < NM32A_CHIPS"
  shows "gruns (s, Out b) [] (t, pc)"
  using assms
proof (induction rule: pass.induct)
  case (pass_begin pc t)
  then show ?case using gruns_step [OF gstep.start gruns.none] by blast
next
  case (pass_next pc t pc' u)
  from gruns.more [OF pass_next(4) [OF pass_next(5)] gstep.proceed [OF pass_next(3)]] show ?case by simp
qed

lemma cstep_gruns: "cstep ls y z \<Longrightarrow> gruns y ls z"
proof (induction rule: cstep.induct)
  case (section_call pc op s s')
  then show ?case by (blast intro: gruns_call gstep.call gruns.none)
next
  case (section_service c s pc s' b)
  then show ?case by (blast intro: pass_runs)
next
  case (section_give s i bs)
  show ?case by (rule gruns_step [OF gstep.proceed gruns.none]) simp
qed

lemma cruns_gruns: "cruns x cs y \<Longrightarrow> gruns x cs y"
proof (induction rule: cruns.induct)
  case (more cs y ls z)
  then show ?case by (blast intro: gruns_trans cstep_gruns)
qed (rule gruns.none)

text \<open>C5. The lock makes a service atomic up to its release.  Take any interleaving of the calls with the steps
  of the service: the writers and \<open>break_ctl\<close> anywhere, also between the looks of a service that is in the
  middle, and open, close, termios and dtr_rts wherever \<open>hw_lock\<close> is free, also while the bytes of a service wait
  in its buffer.  When no service holds \<open>hw_lock\<close> the same state, after the same calls with the same bytes accepted, is
  reached by running every service in one piece, from the lock to its release, with the hand-over to the tty a step
  of its own; and what such a piece leaves, followed by the hand-over, is what the routine returns.\<close>

theorem service_atomic:
  assumes "\<not> holds_lock pc"
  shows "(gruns (s, Out b) cs (s', pc) \<longleftrightarrow> cruns (s, Out b) cs (s', pc)) \<and>
    (\<forall>c t u. pass c t pc u \<longrightarrow> nm32a_service c t = svc_rest pc u)"
  using gruns_sectioned [of s b cs "(s', pc)"] cruns_gruns [of "(s, Out b)" cs "(s', pc)"] assms pass_is_service
  by (auto simp: sectioned_def)

theorem service_atomic_witness:
  "\<exists>s'. cruns (demo_card, Out False) [call_of (Write 0 [0x41]) demo_card] (s', Out True) \<and> ring_content (port 0 s') = []"
proof -
  obtain s' where r: "gruns (demo_card, Out False) [call_of (Write 0 [0x41]) demo_card] (s', Out True)"
    "ring_content (port 0 s') = []" using demo_grain by blast
  have "\<not> holds_lock (Out True)" by simp
  from service_atomic [OF this] r show ?thesis by blast
qed

text \<open>C4. Whatever the interleaving, at every point of every run of a card, a service in the middle or not: the
  accesses made are legal (every acknowledge after a confirmed request, the data registers touched in the granted
  channel only, every context ended, \<open>hw_lock\<close> held); of what the tty got from a port, followed by what waits in the
  receive buffer for it, nothing was invented, repeated or reordered; and between any two points of a run what
  was sent on a line followed by what its ring holds grew by exactly the bytes the writers were told were
  accepted, in the order they were accepted, as long as the port is not opened anew.\<close>

theorem streams_any_grain:
  assumes "gruns (card_start h p, Out b) cs0 (s, pc)" and "gruns (s, pc) cs (s', pc')" and "i < NM32A_PORTS_N"
  shows "legal_log (evs s') \<and>
    subseq (flipped i (evs s') @ pending i pc') (rx_taken (i div 4) (i mod 4) (evs s')) \<and>
    ((\<forall>(op, acc) \<in> set cs. \<forall>baud. op \<noteq> Activate i baud) \<longrightarrow>
      tx_sent (i div 4) (i mod 4) (evs s') @ ring_content (port i s') =
      tx_sent (i div 4) (i mod 4) (evs s) @ ring_content (port i s) @ concat (map (\<lambda>(op, acc). acc i) cs))"
proof -
  have a: "at_ok pc s" "rx_ok pc s"
    using gruns_ok [OF assms(1)] by (simp_all add: good_card_start rx_ok_card_start)
  note R = gruns_ok [OF assms(2), simplified, OF a]
  then have "legal_log (evs s')" using at_ok_log by blast
  with R assms(3) show ?thesis by (auto simp: rx_ok_def tx_total_def)
qed

theorem streams_any_grain_witness:
  "\<exists>s'. gruns (demo_card, Out False) [call_of (Write 0 [0x41]) demo_card] (s', Out True) \<and>
     legal_log (evs s') \<and> tx_sent 0 0 (evs s') = [0x41]"
proof -
  obtain s' where r: "gruns (demo_card, Out False) [call_of (Write 0 [0x41]) demo_card] (s', Out True)"
    "ring_content (port 0 s') = []" using demo_grain by blast
  have acc: "accepted 0 (Write 0 [0x41]) demo_card = [0x41]"
    by (simp add: nm32a_tty_write_def Let_def nm32a_tx_space_def port_card_start zero_port_def)
  have z: "tx_sent 0 0 (evs demo_card) = []" "ring_content (port 0 demo_card) = []"
    using line_card_start [of 0 demo_hw default_params] by (simp_all add: line_def)
  note T = streams_any_grain [OF gruns.none r(1), of 0]
  then have "legal_log (evs s') \<and> tx_sent 0 0 (evs s') @ ring_content (port 0 s') = [0x41]"
    using acc z by (simp add: call_of_def)
  then show ?thesis using r by auto
qed

fun pc_typed :: "svc_at \<Rightarrow> bool" where
  "pc_typed (Asked c t r tr) = (c < NM32A_CHIPS)"
| "pc_typed (Confirmed c t r tr) = (c < NM32A_CHIPS)"
| "pc_typed (InRx c r tr) = (c < NM32A_CHIPS)"
| "pc_typed (InTx c t) = (c < NM32A_CHIPS)"
| "pc_typed (Give i bs) = (i < NM32A_PORTS_N \<and> length bs \<le> 32)"
| "pc_typed (Out b) = True"

text \<open>C8. Every state a card can be in is well typed, whatever the interleaving and wherever a service is: there
  are 32 ports, port \<open>i\<close> names chip \<open>i / 4\<close> and channel \<open>i % 4\<close>, its transmit buffer has 1024 bytes and both its
  indices are inside; and what a service holds is in range: its chip is one of the eight, the port it hands bytes to is one of the 32, and
  the bytes fit in \<open>rxbuf\<close>.\<close>

theorem state_well_typed:
  assumes "gruns (card_start h p, Out b) cs (s, pc)"
  shows "length (ports s) = NM32A_PORTS_N \<and> pc_typed pc \<and>
    (\<forall>i < NM32A_PORTS_N. chip (port i s) = i div 4 \<and> chan (port i s) = i mod 4 \<and>
       length (txb (port i s)) = NM32A_TXBUF \<and> unat (head (port i s)) < NM32A_TXBUF \<and>
       unat (tail (port i s)) < NM32A_TXBUF)"
proof -
  have a: "at_ok pc s" using gruns_ok [OF assms] by (simp add: good_card_start rx_ok_card_start)
  then have "pc_typed pc" by (cases pc) simp_all
  with at_ok_log [OF a] show ?thesis by (simp add: card_inv_def ring_inv_def)
qed

theorem state_well_typed_witness:
  "\<exists>s'. gruns (demo_card, Out False) [call_of (Write 0 [0x41]) demo_card] (s', Out True) \<and>
     length (ports s') = 32 \<and> chan (port 6 s') = 2"
proof -
  obtain s' where r: "gruns (demo_card, Out False) [call_of (Write 0 [0x41]) demo_card] (s', Out True)"
    using demo_grain by blast
  from state_well_typed [OF r] r show ?thesis by auto
qed

end
