(* ===== verification/Nm32a_Tty.thy ===== *)
theory Nm32a_Tty
  imports Nm32a_Run
begin

text \<open>
  More of the driver's run time behaviour: a sweep of the poll thread returns, a port
  that was shut down stays silent, opening a port checks for microcode, and a noisy line is muted.
\<close>

section \<open>Code that returns\<close>

text \<open>
  \<open>returns h st m\<close>: the computation \<open>m\<close> yields a result, in a state (found by \<open>st\<close>) that still has
  the hardware \<open>h\<close>.
\<close>

definition returns :: "hwenv \<Rightarrow> ('a \<Rightarrow> nm32a) \<Rightarrow> 'a option \<Rightarrow> bool" where
  "returns h st m \<longleftrightarrow> (\<exists>y. m = Some y \<and> hw (st y) = h)"

definition here :: "nm32a \<Rightarrow> nm32a" where "here s = s"

lemma here_simp [simp]: "hw (here s) = hw s"
  by (simp add: here_def)

named_theorems returns \<open>computations that return on a responsive card\<close>

lemma returns_Some [returns]: "hw (st y) = h \<Longrightarrow> returns h st (Some y)"
  by (simp add: returns_def)

lemma returns_bind:
  assumes "returns h st m" and "\<And>y. hw (st y) = h \<Longrightarrow> returns h st' (f y)"
  shows "returns h st' (Option.bind m f)"
  using assms by (auto simp: returns_def)

lemma returns_bind_pair [returns]:
  assumes "returns h snd m" and "\<And>v t. hw t = h \<Longrightarrow> returns h st' (f v t)"
  shows "returns h st' (Option.bind m (\<lambda>(v, t). f v t))"
  by (rule returns_bind [OF assms(1)]) (use assms(2) in \<open>auto simp: case_prod_unfold\<close>)

lemma returns_bind_state [returns]:
  assumes "returns h here m" and "\<And>t. hw t = h \<Longrightarrow> returns h st' (f t)"
  shows "returns h st' (Option.bind m f)"
  by (rule returns_bind [OF assms(1)]) (use assms(2) in simp)

lemma returns_if [returns]:
  "(b \<Longrightarrow> returns h st m) \<Longrightarrow> (\<not> b \<Longrightarrow> returns h st n) \<Longrightarrow> returns h st (if b then m else n)"
  by simp

lemma returns_crd [returns]: "responsive h \<Longrightarrow> hw s = h \<Longrightarrow> returns h snd (crd c r s)"
  using crd_responsive [of s c r] by (auto simp: returns_def)

lemma returns_rdb [returns]: "responsive h \<Longrightarrow> hw s = h \<Longrightarrow> returns h snd (rdb a s)"
  using rdb_responsive [of s a] by (auto simp: returns_def)

lemma hw_simps [simp]:
  "hw (cwr c r v s) = hw s" "hw (tty_flip i bs s) = hw s" "hw (rx_deliver i bs s) = hw s"
  "hw (bump_st_break e s) = hw s" "hw (nm32a_rx_exception c ch e s) = hw s"
  by (simp_all add: cwr_def tty_flip_def rx_deliver_def bump_st_break_def nm32a_rx_exception_def Let_def)

lemma returns_read_rdr [returns]:
  "responsive h \<Longrightarrow> hw s = h \<Longrightarrow> returns h snd (read_rdr c us n s)"
proof (induction n arbitrary: s)
  case (Suc n)
  note Suc.IH [OF Suc.prems(1), returns]
  show ?case using Suc.prems by (simp only: read_rdr.simps Let_def) (intro returns, simp_all)
qed (simp add: returns)

lemma returns_eoi_retry [returns]:
  "responsive h \<Longrightarrow> hw s = h \<Longrightarrow> returns h here (eoi_retry n c r v s)"
proof (induction n arbitrary: s)
  case 0
  then show ?case by (simp only: eoi_retry.simps read_rdr.simps svc_burst.simps Let_def) (intro returns, simp_all)
next
  case (Suc n)
  note Suc.IH [OF Suc.prems(1), returns]
  show ?case using Suc.prems by (simp only: eoi_retry.simps read_rdr.simps svc_burst.simps Let_def) (intro returns, simp_all)
qed

lemma returns_eoi [returns]: "responsive h \<Longrightarrow> hw s = h \<Longrightarrow> returns h here (nm32a_eoi c r v s)"
  unfolding nm32a_eoi_def Let_def by (intro returns, simp_all)

lemma hw_tx_fill: "tx_fill n c i s = (k, t) \<Longrightarrow> hw t = hw s"
proof (induction n arbitrary: k s)
  case (Suc n)
  then show ?case by (auto simp: Let_def split: if_splits prod.splits)
qed simp

lemma returns_rx_data [returns]:
  assumes "responsive h" and "hw s = h"
  shows "returns h snd (service_rx_data c ch s)"
  using assms unfolding service_rx_data_def Let_def by (intro returns, simp_all)

lemma returns_rx_exception [returns]:
  assumes "responsive h" and "hw s = h"
  shows "returns h snd (service_rx_exception c ch tr s)"
  using assms unfolding service_rx_exception_def Let_def by (intro returns, simp_all)

lemma returns_service_rx [returns]:
  assumes "responsive h" and "hw s = h"
  shows "returns h snd (service_rx c rir tr s)"
  using assms unfolding service_rx_def Let_def by (intro returns, simp_all)

lemma returns_tx_fill [returns]:
  "hw s = h \<Longrightarrow> (\<And>k t. hw t = h \<Longrightarrow> returns h st (f k t)) \<Longrightarrow>
     returns h st (case tx_fill n c i s of (k, t) \<Rightarrow> f k t)"
  by (cases "tx_fill n c i s") (use hw_tx_fill in auto)

lemma returns_service_tx [returns]:
  assumes "responsive h" and "hw s = h"
  shows "returns h snd (service_tx c tir s)"
  using assms unfolding service_tx_def Let_def by (intro returns, simp_all)

lemma returns_service [returns]:
  assumes "responsive h" and "hw s = h"
  shows "returns h snd (nm32a_service c s)"
  using assms unfolding nm32a_service_def service_ack_def Let_def
  by (intro returns, simp_all)

lemma returns_svc_burst [returns]:
  "responsive h \<Longrightarrow> hw s = h \<Longrightarrow> returns h snd (svc_burst n c s)"
proof (induction n arbitrary: s)
  case (Suc n)
  note Suc.IH [OF Suc.prems(1), returns]
  show ?case using Suc.prems by (simp only: eoi_retry.simps read_rdr.simps svc_burst.simps Let_def) (intro returns, simp_all)
qed (simp add: returns)

lemma hw_arm_tx [simp]: "hw (nm32a_arm_tx c s) = hw s"
  by (simp add: nm32a_arm_tx_def arm_chan_def Let_def)

lemma returns_poll_chips:
  "responsive h \<Longrightarrow> hw s = h \<Longrightarrow> returns h (\<lambda>(a, w, s). s) (poll_chips cs s)"
proof (induction cs arbitrary: s)
  case (Cons c cs)
  show ?case
  proof (cases "chip_busy c s")
    case False
    with Cons show ?thesis by simp
  next
    case True
    let ?n = "unat (word_of_int (burst (par (nm32a_arm_tx c s))) :: u32)"
    obtain w t where t: "svc_burst ?n c (nm32a_arm_tx c s) = Some (w, t)" "hw t = h"
      using returns_svc_burst [of h "nm32a_arm_tx c s" ?n c] Cons.prems by (auto simp: returns_def)
    from Cons.IH [OF Cons.prems(1) t(2)] t(1) True show ?thesis
      by (auto simp: returns_def Let_def)
  qed
qed (simp add: returns_def)

section \<open>What arming writes\<close>

lemma arm_chan_regs:
  assumes "closed (evs s)" and "ch < 4" and "ch' < 4"
  shows "closed (evs (arm_chan c s ch)) \<and> ports (arm_chan c s ch) = ports s \<and>
    chan_reg c ch' IER (evs (arm_chan c s ch)) =
      (if ch' = ch \<and> popen (port (pidx c ch) s) \<and> head (port (pidx c ch) s) \<noteq> tail (port (pidx c ch) s)
       then Some (if rx_off (port (pidx c ch) s) then 0x01 else 0x29) else chan_reg c ch' IER (evs s))"
proof -
  have "closed (evs (arm_chan c s ch))" "ports (arm_chan c s ch) = ports s"
    using arm_chan_grows [of s c ch] assms(1) grows_fields(1) [OF arm_chan_grows]
    by (auto elim!: growsE simp: closed_plain)
  moreover have "sel_chan c (WrB (Reg c CAR) (word_of_nat ch) # evs s) = Some ch"
    using assms(1,2) chan_car_value [OF assms(2)] by (simp add: sel_chan_car closed_def)
  ultimately show ?thesis by (auto simp: arm_chan_def Let_def cwr_def)
qed

lemma arm_chans_regs:
  assumes "closed (evs s)" and "distinct chs" and "set chs \<subseteq> {..<4}" and "ch' < 4"
  shows "closed (evs (foldl (arm_chan c) s chs)) \<and> ports (foldl (arm_chan c) s chs) = ports s \<and>
    chan_reg c ch' IER (evs (foldl (arm_chan c) s chs)) =
      (if ch' \<in> set chs \<and> popen (port (pidx c ch') s) \<and> head (port (pidx c ch') s) \<noteq> tail (port (pidx c ch') s)
       then Some (if rx_off (port (pidx c ch') s) then 0x01 else 0x29) else chan_reg c ch' IER (evs s))"
  using assms
proof (induction chs arbitrary: s)
  case (Cons ch chs)
  then have "ch < 4" by simp
  note A = arm_chan_regs [OF Cons.prems(1) this Cons.prems(4), of c]
  then have p: "port j (arm_chan c s ch) = port j s" for j by (simp add: port_def)
  from Cons.IH [of "arm_chan c s ch"] A Cons.prems p show ?case by auto
qed simp

lemma arm_tx_regs:
  assumes "closed (evs s)" and "ch < 4"
  shows "chan_reg c ch IER (evs (nm32a_arm_tx c s)) =
    (if popen (port (pidx c ch) s) \<and> head (port (pidx c ch) s) \<noteq> tail (port (pidx c ch) s)
     then Some (if rx_off (port (pidx c ch) s) then 0x01 else 0x29) else chan_reg c ch IER (evs s))"
proof -
  have "closed (evs (mutex_lock s))" using assms(1) by (simp add: closed_def)
  from arm_chans_regs [OF this, of "[0, 1, 2, 3]" ch c] assms(2) show ?thesis
    by (auto simp: nm32a_arm_tx_def dest!: less_4_cases)
qed

lemma arm_tx_other_chip:
  assumes "c' \<noteq> c"
  shows "chan_reg c' ch r (evs (nm32a_arm_tx c s)) = chan_reg c' ch r (evs s)"
proof -
  have "chan_reg c' ch r (evs (arm_chan c s k)) = chan_reg c' ch r (evs s)" for k s
    using assms by (simp add: arm_chan_def Let_def cwr_def)
  then show ?thesis by (simp add: nm32a_arm_tx_def)
qed

section \<open>Properties\<close>

text \<open>Arming the transmitters of a chip enables interrupts exactly on its open channels with bytes
  waiting: the full set, or only the transmit side where the receiver has been muted, so it never
  unmutes one.  Every other channel keeps its interrupt enables.\<close>

theorem arm_tx_enables:
  assumes "good s" and "c < NM32A_CHIPS" and "ch < 4"
  shows "chan_reg c ch IER (evs (nm32a_arm_tx c s)) =
      (if popen (port (c * 4 + ch) s) \<and> ring_content (port (c * 4 + ch) s) \<noteq> []
       then Some (if rx_off (port (c * 4 + ch) s) then 0x01 else 0x29) else chan_reg c ch IER (evs s)) \<and>
    (c' = c \<or> chan_reg c' ch' r (evs (nm32a_arm_tx c s)) = chan_reg c' ch' r (evs s))"
proof -
  have i: "c * 4 + ch < NM32A_PORTS_N" using assms(2,3) by simp
  from good_port [OF assms(1) i] have "ring_inv (port (c * 4 + ch) s)" by simp
  then have "ring_content (port (c * 4 + ch) s) \<noteq> [] \<longleftrightarrow>
      head (port (c * 4 + ch) s) \<noteq> tail (port (c * 4 + ch) s)"
    using ring_empty_iff by (simp add: tx_empty_def ring_content_def)
  moreover have "closed (evs s)" using assms(1) by (simp add: good_def)
  ultimately show ?thesis
    using arm_tx_regs [OF _ assms(3), of s c] arm_tx_other_chip [of c' c ch' r s] by auto
qed

theorem arm_tx_enables_witness:
  "\<exists>s'. drv_exec (Write 0 [0x41]) (card_start demo_hw default_params) = Some s' \<and>
     chan_reg 0 0 IER (evs (nm32a_arm_tx 0 s')) = None"
proof -
  let ?s = "card_start demo_hw default_params"
  let ?s' = "snd (nm32a_tty_write (Some 0) [0x41] ?s)"
  have e: "drv_exec (Write 0 [0x41]) ?s = Some ?s'" by simp
  from op_refines [OF good_card_start _ e] have g: "good ?s'" by simp
  have "popen (port 0 ?s') = False" "evs ?s' = evs ?s"
    by (simp_all add: nm32a_tty_write_def Let_def nm32a_tx_space_def nm32a_tx_put_def port_card_start zero_port_def
        card_start_ports port_set_port)
  with arm_tx_enables [OF g, of 0 0] e show ?thesis by (simp add: card_start_ports)
qed

section \<open>Closing a port\<close>

lemma shutdown_regs:
  assumes "good s" and "i < NM32A_PORTS_N"
  shows "list_all (\<lambda>r. chan_reg (i div 4) (i mod 4) r (evs (nm32a_port_shutdown i s)) = Some 0) [IER, MSVR_DTR, MSVR_RTS]"
    and "c \<noteq> i div 4 \<or> ch \<noteq> i mod 4 \<Longrightarrow> r \<noteq> CAR \<Longrightarrow>
      chan_reg c ch r (evs (nm32a_port_shutdown i s)) = chan_reg c ch r (evs s)"
proof -
  let ?c = "i div 4" and ?ch = "i mod 4"
  have p: "chip (port i s) = ?c" "chan (port i s) = ?ch"
    using assms card_inv_port [of s i] by (simp_all add: good_def)
  let ?s1 = "cwr ?c CAR (word_of_nat ?ch) (set_port i ((port i s)\<lparr>popen := False\<rparr>) (mutex_lock s))"
  let ?ws = "[(IER, 0x00), (CAR, word_of_nat ?ch), (MSVR_DTR, 0x00), (MSVR_RTS, 0x00 :: u8)]"
  have e: "evs (nm32a_port_shutdown i s) = Ulk # evs (cwrs ?c ?ws ?s1)"
    by (simp add: nm32a_port_shutdown_def Let_def p nm32a_set_mctrl_def cwrs_def)
  have "closed (Lk # evs s)" using assms(1) by (simp add: good_def closed_def)
  then have sel: "sel_chan ?c (evs ?s1) = Some ?ch"
    using chan_car_value [of ?ch] by (simp add: cwr_def sel_chan_car closed_def)
  have "closed (evs ?s1)" using assms(1) by (simp add: cwr_def good_def closed_def)
  then have sel2: "sel_chan ?c (WrB (Reg ?c CAR) (word_of_nat ?ch) # WrB (Reg ?c IER) 0 # evs ?s1) = Some ?ch"
    using chan_car_value [of ?ch] by (simp add: sel_chan_car closed_def)
  have h: "evs (cwrs ?c ?ws ?s1) = WrB (Reg ?c MSVR_RTS) 0 # WrB (Reg ?c MSVR_DTR) 0 #
      WrB (Reg ?c CAR) (word_of_nat ?ch) # WrB (Reg ?c IER) 0 # evs ?s1"
    by (simp add: cwrs_def cwr_def)
  show "list_all (\<lambda>r. chan_reg ?c ?ch r (evs (nm32a_port_shutdown i s)) = Some 0) [IER, MSVR_DTR, MSVR_RTS]"
    unfolding e h using sel sel2 by (simp add: sel_chan_write)
  show "chan_reg c ch r (evs (nm32a_port_shutdown i s)) = chan_reg c ch r (evs s)"
    if "c \<noteq> ?c \<or> ch \<noteq> ?ch" and "r \<noteq> CAR"
    unfolding e h using sel sel2 that by (auto simp: sel_chan_write cwr_def)
qed

text \<open>C31. Shutting a port down leaves it closed with all its channel's interrupts off and DTR and RTS
  dropped, touching no register of any other channel; and the arming that follows, of any chip,
  does not enable it again.\<close>

theorem shutdown_silences:
  assumes "good s" and "i < NM32A_PORTS_N"
  shows "\<not> popen (port i (nm32a_port_shutdown i s)) \<and>
    list_all (\<lambda>r. chan_reg (i div 4) (i mod 4) r (evs (nm32a_port_shutdown i s)) = Some 0) [IER, MSVR_DTR, MSVR_RTS] \<and>
    chan_reg (i div 4) (i mod 4) IER (evs (nm32a_arm_tx c (nm32a_port_shutdown i s))) = Some 0 \<and>
    ((c = i div 4 \<and> ch = i mod 4) \<or> r = CAR \<or>
     chan_reg c ch r (evs (nm32a_port_shutdown i s)) = chan_reg c ch r (evs s))"
proof -
  let ?s = "nm32a_port_shutdown i s"
  have i: "i < length (ports s)" using good_port [OF assms] by simp
  then have p: "\<not> popen (port i ?s)"
    using shutdown_section(2) [of i s] by (simp add: port_def)
  have "drv_exec (Shutdown i) s = Some ?s" by simp
  from op_refines [OF assms(1) _ this] assms(2) have g: "good ?s" by simp
  note R = shutdown_regs [OF assms]
  have "chan_reg (i div 4) (i mod 4) IER (evs (nm32a_arm_tx c ?s)) = Some 0"
  proof (cases "c = i div 4")
    case True
    have "closed (evs ?s)" using g by (simp add: good_def)
    from arm_tx_regs [OF this, of "i mod 4" c] True p R(1) show ?thesis by simp
  next
    case False
    with arm_tx_other_chip [of "i div 4" c] R(1) show ?thesis by simp
  qed
  with p R show ?thesis by auto
qed

theorem shutdown_silences_witness:
  "chan_reg 1 2 IER (evs (nm32a_arm_tx 1 (nm32a_port_shutdown 6 (card_start demo_hw default_params)))) = Some 0"
  using shutdown_silences [OF good_card_start, of 6 demo_hw default_params 1] by simp

section \<open>Opening a port\<close>

text \<open>C32. Opening a port first looks for microcode.  On a chip that still shows its boot revision it fails
  with -ENODEV, writes no register and changes no port; otherwise it returns 0, whatever the channel
  commands did, with the port open, its ring empty, its receiver not muted, and the channel's
  interrupts enabled.\<close>

theorem activate_checks_microcode:
  assumes "nm32a_port_activate i baud s = Some (r, s')" and "good s" and "i < NM32A_PORTS_N"
  shows "if dev (hw s) (Lk # evs s) (chip_off ! (i div 4) + GFRCR) = Some 0xE0
    then r = - ENODEV \<and> evs s' = [Ulk, RdB (Reg (i div 4) GFRCR) 0xE0, Lk] @ evs s \<and> ports s' = ports s
    else r = 0 \<and> popen (port i s') \<and> ring_content (port i s') = [] \<and> \<not> rx_off (port i s') \<and>
      chan_reg (i div 4) (i mod 4) IER (evs s') = Some 0x29"
proof -
  let ?c = "i div 4"
  have p: "chip (port i s) = ?c" "chan (port i s) = i mod 4" and i: "i < length (ports s)"
    using assms card_inv_port [of s i] by (simp_all add: good_def)
  let ?rate = "case baud of Some r \<Rightarrow> r | None \<Rightarrow> 0"
  let ?r = "if ?rate \<noteq> 0 then ?rate else 9600"
  from assms(1) obtain v s1 where r1: "crd ?c GFRCR (mutex_lock s) = Some (v, s1)"
    by (cases "crd ?c GFRCR (mutex_lock s)") (auto simp: nm32a_port_activate_def Let_def p)
  then have d: "dev (hw s) (Lk # evs s) (chip_off ! ?c + GFRCR) = Some v"
    and s1: "s1 = ev (RdB (Reg ?c GFRCR) v) (mutex_lock s)" by (simp_all add: crd_Some)
  show ?thesis
  proof (cases "v = 0xE0")
    case True
    with assms(1) r1 d s1 show ?thesis by (auto simp: nm32a_port_activate_def Let_def p)
  next
    case False
    with assms(1) r1 obtain s2 where r2: "nm32a_chan_init ?c (i mod 4) ?r s1 = Some s2"
      by (cases "nm32a_chan_init ?c (i mod 4) ?r s1") (auto simp: nm32a_port_activate_def Let_def p)
    from False assms(1) r1 r2 have r: "r = 0"
      and s': "s' = mutex_unlock (set_port i (opened (jiffies s2) (port i s2)) s2)"
      by (simp_all add: nm32a_port_activate_def Let_def opened_def p)
    have "closed (evs s1)" using assms(2) s1 by (simp add: good_def closed_def)
    from chan_init_regs(2) [OF r2 _ this, of IER "i mod 4"] have "chan_reg ?c (i mod 4) IER (evs s') = Some 0x29"
      by (simp add: s' bring_up_def final_regs_def)
    moreover have "i < length (ports s2)"
      using grows_fields(1) [OF chan_init_grows [OF r2]] i s1 by simp
    ultimately show ?thesis
      using r d False by (simp add: s' opened_def ring_content_def ring_used_def)
  qed
qed

definition blank_hw :: hwenv where
  "blank_hw = demo_hw\<lparr>dev := \<lambda>h a. Some 0xE0\<rparr>"

theorem activate_checks_microcode_witness:
  "\<exists>s'. nm32a_port_activate 9 (Some 9600) (card_start blank_hw default_params) = Some (- ENODEV, s') \<and>
     ports s' = ports (card_start blank_hw default_params)"
proof -
  let ?s = "card_start blank_hw default_params"
  have "\<exists>s'. nm32a_port_activate 9 (Some 9600) ?s = Some (- ENODEV, s')"
    by (simp add: nm32a_port_activate_def crd_def rdb_def card_start_ports port_card_start blank_hw_def Let_def)
  then obtain s' where r: "nm32a_port_activate 9 (Some 9600) ?s = Some (- ENODEV, s')" by blast
  have "hw ?s = blank_hw" by (simp add: card_start_ports)
  with activate_checks_microcode [OF r good_card_start] r show ?thesis by (simp add: blank_hw_def)
qed

section \<open>A noisy line\<close>

text \<open>The exceptions of one channel in a row, as their status bytes.\<close>

definition rx_exceptions :: "nat \<Rightarrow> nat \<Rightarrow> u8 list \<Rightarrow> nm32a \<Rightarrow> nm32a" where
  "rx_exceptions c ch es s = foldl (\<lambda>s e. nm32a_rx_exception c ch e s) s es"

text \<open>The clock stays in the error window that starts at \<open>w\<close>.\<close>

definition in_window :: "u32 \<Rightarrow> nm32a \<Rightarrow> bool" where
  "in_window w s \<longleftrightarrow> (\<forall>h. \<not> time_after (jif (hw s) h) (w + NM32A_ERR_WINDOW s))"

lemma rx_exceptions_snoc: "rx_exceptions c ch (es @ [e]) s = nm32a_rx_exception c ch e (rx_exceptions c ch es s)"
  by (simp add: rx_exceptions_def)

lemma storm_step:
  fixes s :: nm32a and e :: u8
  assumes "pidx c ch < length (ports s)" and "in_window (err_win (port (pidx c ch) s)) s"
  defines "np \<equiv> port (pidx c ch) s" and "s' \<equiv> nm32a_rx_exception c ch e s"
  shows "port (pidx c ch) s' = np\<lparr>err_cnt := err_cnt np + 1, rx_off := rx_off np \<or> err_cnt np + 1 = NM32A_ERR_LIMIT\<rparr> \<and>
    evs s' = (if err_cnt np + 1 = NM32A_ERR_LIMIT \<and> \<not> rx_off np
              then [WrB (Reg c IER) 0x01, WrB (Reg c CAR) (word_of_nat ch)] else []) @ evs s \<and>
    length (ports s') = length (ports s) \<and> hw s' = hw s"
proof -
  have w: "\<not> time_after (jiffies s) (err_win np + NM32A_ERR_WINDOW s)"
    using assms(2) by (simp add: in_window_def jiffies_def np_def)
  then show ?thesis
    using assms(1) by (simp add: s'_def nm32a_rx_exception_def Let_def np_def [symmetric] cwr_def)
      (auto simp: np_def intro!: nport.equality)
qed

text \<open>C33. Receive exceptions on a line that keep coming within one error window are counted, and the
  200th mutes the receiver: the flag is set and the channel's receive interrupts are masked by one
  pair of register writes, leaving transmit on.  Before that nothing is written, after it no
  exception is counted as a new reason to write.\<close>

theorem storm_muted:
  fixes s :: nm32a and es :: "u8 list"
  assumes "c * 4 + ch < length (ports s)" and "in_window (err_win (port (c * 4 + ch) s)) s"
    and "err_cnt (port (c * 4 + ch) s) = 0" and "\<not> rx_off (port (c * 4 + ch) s)" and "length es < 2 ^ 32"
  defines "s' \<equiv> rx_exceptions c ch es s"
  shows "err_cnt (port (c * 4 + ch) s') = word_of_nat (length es) \<and>
    rx_off (port (c * 4 + ch) s') = (200 \<le> length es) \<and>
    evs s' = (if 200 \<le> length es then [WrB (Reg c IER) 0x01, WrB (Reg c CAR) (word_of_nat ch)] else []) @ evs s"
proof -
  have "port (pidx c ch) s' = (port (pidx c ch) s)\<lparr>err_cnt := word_of_nat (length es), rx_off := 200 \<le> length es\<rparr> \<and>
    evs s' = (if 200 \<le> length es then [WrB (Reg c IER) 0x01, WrB (Reg c CAR) (word_of_nat ch)] else []) @ evs s \<and>
    length (ports s') = length (ports s) \<and> hw s' = hw s"
    using assms(5) unfolding s'_def
  proof (induction es rule: rev_induct)
    case Nil
    then show ?case using assms(3,4) by (simp add: rx_exceptions_def)
  next
    case (snoc e es)
    let ?t = "rx_exceptions c ch es s"
    have l: "length es + 1 < 2 ^ 32" using snoc.prems by simp
    then have IH: "port (pidx c ch) ?t = (port (pidx c ch) s)\<lparr>err_cnt := word_of_nat (length es), rx_off := 200 \<le> length es\<rparr>"
      "evs ?t = (if 200 \<le> length es then [WrB (Reg c IER) 0x01, WrB (Reg c CAR) (word_of_nat ch)] else []) @ evs s"
      "length (ports ?t) = length (ports s)" "hw ?t = hw s"
      using snoc.IH by simp_all
    have "in_window (err_win (port (pidx c ch) ?t)) ?t"
      using assms(2) IH by (simp add: in_window_def NM32A_ERR_WINDOW_def)
    note S = storm_step [OF _ this, of e]
    have n: "(word_of_nat (length es) :: u32) + 1 = 200 \<longleftrightarrow> length es + 1 = 200"
    proof -
      have "(word_of_nat (length es + 1) :: u32) = word_of_nat 200 \<longleftrightarrow> length es + 1 = 200"
        using l by (subst word_of_nat_eq_iff) (simp add: take_bit_nat_eq_self)
      then show ?thesis by (simp add: add.commute)
    qed
    show ?case
      using S assms(1) IH n by (auto simp: rx_exceptions_snoc add.commute)
  qed
  then show ?thesis by simp
qed

theorem storm_muted_witness:
  "rx_off (port 5 (rx_exceptions 1 1 (replicate 200 0x01) ((card_start demo_hw default_params)\<lparr>hw := demo_hw\<lparr>jif := \<lambda>h. 0\<rparr>\<rparr>)))"
proof -
  let ?s = "(card_start demo_hw default_params)\<lparr>hw := demo_hw\<lparr>jif := \<lambda>h. 0\<rparr>\<rparr>"
  have p: "port 5 ?s = zero_port\<lparr>chip := 1, chan := 1\<rparr>"
    using port_card_start [of 5 demo_hw default_params] by (simp add: port_def)
  have "in_window 0 ?s" by (simp add: in_window_def NM32A_ERR_WINDOW_def demo_hw_def time_after_def time_before_def)
  with storm_muted [of 1 1 ?s "replicate 200 0x01"] p show ?thesis
    by (simp add: zero_port_def card_start_ports)
qed

end
