(* ===== verification/Nm32a_Sweep.thy ===== *)
theory Nm32a_Sweep
  imports Nm32a_Tty
begin

text \<open>
  What a sweep of the poll thread costs at most, whatever the registers return: the register accesses, acknowledges and
  critical sections of each service routine are counted in the log, and the counts add up along the sweep.
\<close>

section \<open>Counting\<close>



















section \<open>A service\<close>





















section \<open>A burst and a sweep\<close>







section \<open>The property\<close>





end
