(* ===== verification/Nm32a_Progress.thy ===== *)
theory Nm32a_Progress
  imports Nm32a_Run
begin

text \<open>
  Progress, as far as single calls and services go: what the callers' writes and breaks amount to when the ring has
  room for them, how the transmit branch empties a ring, and a receive service that takes every byte that is
  announced.  The card's part is stated as the documentation gives it (quoted in \<open>nm32a_service\<close>, datasheet
  9.5.2.2): a request shows Ren, and from the acknowledge to the end of the interrupt Ract with the channel.
  \<open>Nm32a_Poll\<close> shows that the poll thread sends what is queued.
\<close>

section \<open>Calls that feed a port\<close>

fun feeds :: "nat \<Rightarrow> drv_op \<Rightarrow> bool" where
  "feeds i (Write j _) = (j = i)"
| "feeds i (drv_op.Break j _) = (j = i)"
| "feeds i _ = False"

fun fed :: "drv_op \<Rightarrow> u8 list" where
  "fed (Write _ bs) = stuff 0 bs"
| "fed (drv_op.Break _ st) = [0, if st then 0x81 else 0x83]"
| "fed _ = []"

abbreviation (input) fed_all :: "drv_op list \<Rightarrow> u8 list" where
  "fed_all ops \<equiv> concat (map fed ops)"

lemma stuff_stops:
  assumes "n < length bs"
  shows "length (stuff 0 (take n bs)) + need (bs ! n) \<le> length (stuff 0 bs)"
proof -
  have "stuff 0 bs = stuff 0 (take n bs) @ stuff 0 (bs ! n # drop (Suc n) bs)"
    by (subst id_take_nth_drop [OF assms]) (simp only: stuff_append)
  then show ?thesis by (simp add: need_def)
qed

text \<open>A call that finds room feeds all it has.\<close>

lemma feeds_all:
  assumes "good s" and "i < NM32A_PORTS_N" and "feeds i op" and "drv_exec op s = Some t"
    and "ring_used (port i s) + length (fed op) \<le> 1023"
  shows "accepted i op s = fed op \<and> ring_used (port i t) = ring_used (port i s) + length (fed op)"
proof -
  note G = good_port [OF assms(1,2)]
  show ?thesis
  proof (cases op)
    case (Write j bs)
    obtain r where r: "nm32a_tty_write (Some i) bs s = (r, t)"
      using assms(3,4) Write by (cases "nm32a_tty_write (Some i) bs s") simp
    obtain n where n: "n \<le> length bs" "r = int n"
      and c: "ring_content (port i t) = ring_content (port i s) @ stuff 0 (take n bs)"
      and stop: "n < length bs \<longrightarrow> 1023 - ring_used (port i t) < need (bs ! n)"
      using tty_write_fifo [OF _ _ r] G by blast
    have u: "ring_used (port i t) = ring_used (port i s) + length (stuff 0 (take n bs))"
      using arg_cong [OF c, of length] by simp
    have "n = length bs"
    proof (rule ccontr)
      assume "n \<noteq> length bs"
      with n have lt: "n < length bs" by simp
      with stuff_stops [OF lt] stop u assms(5) Write show False by simp
    qed
    with n r u Write assms(3) show ?thesis by simp
  next
    case (Break j st)
    then have "t = snd (nm32a_break_ctl (Some i) st s)" using assms(3,4) by simp
    then have "port i t = break_put (port i s) st" using G by (simp add: nm32a_break_ctl_def)
    moreover have "ring_used (port i s) \<le> 1021" using assms(5) Break by simp
    ultimately have "ring_content (port i t) = ring_content (port i s) @ fed op"
      using break_put_spec [of "port i s" st] G Break by simp
    from arg_cong [OF this, of length] show ?thesis
      using \<open>ring_used (port i s) \<le> 1021\<close> Break assms(3) by simp
  qed (use assms(3) in simp_all)
qed

text \<open>Every other call leaves the queue alone or takes from it.\<close>

lemma line_step_shrinks:
  "line_step i op l l' \<Longrightarrow> \<not> feeds i op \<Longrightarrow> length (lqueue l') \<le> length (lqueue l)"
  by (cases rule: line_step.cases) auto

lemma others_shrink:
  assumes "good s" and "i < NM32A_PORTS_N" and "valid_op op" and "drv_exec op s = Some t" and "\<not> feeds i op"
  shows "ring_used (port i t) \<le> ring_used (port i s)" and "accepted i op s = []"
proof -
  have "line_step i op (line i s) (line i t)" using op_refines [OF assms(1,3,4)] assms(2) by blast
  from line_step_shrinks [OF this assms(5)] show "ring_used (port i t) \<le> ring_used (port i s)"
    by (simp add: line_def)
  show "accepted i op s = []" using assms(5) by (cases op) simp_all
qed

text \<open>Each call that feeds the port finds room when its turn comes.\<close>

fun finds_room :: "nat \<Rightarrow> drv_op list \<Rightarrow> nm32a \<Rightarrow> bool" where
  "finds_room i [] s = True"
| "finds_room i (op # ops) s =
     ((feeds i op \<longrightarrow> ring_used (port i s) + length (fed op) \<le> 1023) \<and>
      (case drv_exec op s of None \<Rightarrow> True | Some t \<Rightarrow> finds_room i ops t))"

lemma run_feeds_room:
  assumes "drv_execs ops s = Some s'" and "good s" and "i < NM32A_PORTS_N" and "finds_room i ops s"
  shows "accepted_run i ops s = fed_all (filter (feeds i) ops)"
  using assms
proof (induction ops arbitrary: s)
  case (Cons op ops)
  then obtain t where t: "valid_op op" "drv_exec op s = Some t" "drv_execs ops t = Some s'"
    by (auto split: if_splits elim!: bind_SomeE)
  have g: "good t" using op_refines [OF Cons.prems(2) t(1,2)] by simp
  have r: "finds_room i ops t" "feeds i op \<Longrightarrow> ring_used (port i s) + length (fed op) \<le> 1023"
    using Cons.prems(4) t(2) by simp_all
  note IH = Cons.IH [OF t(3) g Cons.prems(3) r(1)]
  show ?case
  proof (cases "feeds i op")
    case True
    with feeds_all [OF Cons.prems(2,3) True t(2) r(2)] IH t(2) show ?thesis by simp
  next
    case False
    with others_shrink(2) [OF Cons.prems(2,3) t(1,2) False] IH t(2) show ?thesis by simp
  qed
qed simp

text \<open>It is enough that there is room for all of them at the start.\<close>

lemma run_finds_room:
  assumes "drv_execs ops s = Some s'" and "good s" and "i < NM32A_PORTS_N"
    and "ring_used (port i s) + length (fed_all (filter (feeds i) ops)) \<le> 1023"
  shows "finds_room i ops s"
  using assms
proof (induction ops arbitrary: s)
  case (Cons op ops)
  then obtain t where t: "valid_op op" "drv_exec op s = Some t" "drv_execs ops t = Some s'"
    by (auto split: if_splits elim!: bind_SomeE)
  have g: "good t" using op_refines [OF Cons.prems(2) t(1,2)] by simp
  show ?case
  proof (cases "feeds i op")
    case True
    with feeds_all [OF Cons.prems(2,3) True t(2)] Cons.prems(4) Cons.IH [OF t(3) g Cons.prems(3)] t(2)
    show ?thesis by simp
  next
    case False
    with others_shrink [OF Cons.prems(2,3) t(1,2) False] Cons.prems(4) Cons.IH [OF t(3) g Cons.prems(3)] t(2)
    show ?thesis by simp
  qed
qed simp

lemmas run_feeds = run_feeds_room [OF _ _ _ run_finds_room]

section \<open>A card that grants a service\<close>

text \<open>An acknowledge without an end of interrupt on chip \<open>c\<close> since.\<close>

fun acked :: "nat \<Rightarrow> cev list \<Rightarrow> bool" where
  "acked c [] = False"
| "acked c (RdB (Bar a) v # h) = True"
| "acked c (WrB (Reg c' r) v # h) = (if c' = c \<and> (r = TEOIR \<or> r = REOIR) then False else acked c h)"
| "acked c (_ # h) = acked c h"

text \<open>Good data, vector 3 in bits 3:2, with \<open>n\<close> bytes announced.\<close>

definition offers_rx :: "nat \<Rightarrow> nat \<Rightarrow> u8 \<Rightarrow> hwenv \<Rightarrow> bool" where
  "offers_rx c ch n h \<longleftrightarrow> (\<forall>l.
     dev h l (chip_off ! c + RIR) = Some ((if acked c l then 0x4C else 0x80) OR word_of_nat ch) \<and>
     dev h l (chip_off ! c + TIR) = Some 0 \<and>
     dev h l (chip_off ! c + RFOC) = Some n \<and> dev h l (chip_off ! c + RDR) \<noteq> None \<and>
     dev h l (chip_off ! c + STK) = Some 0 \<and> (\<forall>a < 4. dev h l a \<noteq> None))"

lemma reads_rx:
  assumes "offers_rx c ch n (hw s)"
  shows "crd c RIR s = Some ((if acked c (evs s) then 0x4C else 0x80) OR word_of_nat ch,
      ev (RdB (Reg c RIR) ((if acked c (evs s) then 0x4C else 0x80) OR word_of_nat ch)) s)"
    and "crd c TIR s = Some (0, ev (RdB (Reg c TIR) 0) s)" and "crd c STK s = Some (0, ev (RdB (Reg c STK) 0) s)"
    and "crd c RFOC s = Some (n, ev (RdB (Reg c RFOC) n) s)"
    and "\<exists>v. crd c RDR s = Some (v, ev (RdB (Reg c RDR) v) s)"
    and "a < 4 \<Longrightarrow> \<exists>v. rdb (Bar a) s = Some (v, ev (RdB (Bar a) v) s)"
  using assms by (auto simp: offers_rx_def crd_Some rdb_Some)

lemma eoi_pops:
  assumes "crd c STK (cwr c r v s) = Some (0, t)"
  shows "nm32a_eoi c r v s = Some (if eoiretry (par s) = 0 then cwr c r v s else t)"
proof -
  obtain n where n: "EOI_TRIES = Suc n" by (simp add: EOI_TRIES_def)
  show ?thesis using assms by (simp add: nm32a_eoi_def n)
qed

lemma channel_bits:
  assumes "ch < (4::nat)"
  shows "(0x80 OR word_of_nat ch :: u8) AND 0x80 \<noteq> 0" and "(0x40 OR word_of_nat ch :: u8) AND 0xC0 = 0x40"
    and "unat ((0x40 OR word_of_nat ch :: u8) AND 3) = ch" and "(0x4C OR word_of_nat ch :: u8) AND 0xC0 = 0x40"
    and "unat ((0x4C OR word_of_nat ch :: u8) AND 3) = ch" and "(0x4C OR word_of_nat ch :: u8) AND 0x0c = 0x0c"
    and "(0x4C OR word_of_nat ch :: u8) \<noteq> 0"
  using less_4_cases [OF assms] by (elim disjE; simp)+

lemma ack_small: "NM32A_ACK_TX s < 4" "NM32A_ACK_RX s < 4"
  by (simp_all add: NM32A_ACK_TX_def NM32A_ACK_RX_def)

section \<open>Transmit\<close>

lemma tx_fill_takes:
  assumes "tx_fill n c i s = (k, s')" and "i < length (ports s)" and "ring_inv (port i s)"
  shows "k = min n (ring_used (port i s)) \<and> ring_content (port i s') = drop k (ring_content (port i s)) \<and>
    hw s' = hw s \<and> par s' = par s"
  using assms
proof (induction n arbitrary: s k)
  case (Suc n)
  show ?case
  proof (cases "tx_empty (port i s)")
    case True
    then have "ring_used (port i s) = 0" using ring_empty_iff [OF Suc.prems(3)] by simp
    with True Suc.prems show ?thesis by (simp add: ring_content_def)
  next
    case False
    let ?np = "port i s" let ?t = "set_port i (tx_pop ?np) (cwr c TDR (tx_front ?np) s)"
    obtain m where m: "tx_fill n c i ?t = (m, s')" "k = Suc m"
      using Suc.prems(1) False by (auto simp: Let_def split: prod.splits)
    have p: "port i ?t = tx_pop ?np" using Suc.prems(2) by simp
    have c: "ring_content ?np = tx_front ?np # ring_content (tx_pop ?np)"
      by (rule tx_total_put [OF Suc.prems(3) False])
    from arg_cong [OF c, of length] have u: "ring_used ?np = Suc (ring_used (tx_pop ?np))" by simp
    from Suc.IH [OF m(1)] Suc.prems(2,3) p ring_inv_pop [OF Suc.prems(3)] c u m(2) show ?thesis by simp
  qed
qed simp

section \<open>Receive\<close>

lemma read_rdr_all:
  assumes "offers_rx c ch n (hw s)"
  shows "\<exists>bs s'. read_rdr c us k s = Some (bs, s') \<and> hw s' = hw s \<and> par s' = par s \<and> acked c (evs s') = acked c (evs s) \<and>
    (\<forall>v \<in> set bs. \<exists>l. dev (hw s) l (chip_off ! c + RDR) = Some v)"
  using assms
proof (induction k arbitrary: s)
  case (Suc k)
  obtain v where v: "crd c RDR s = Some (v, ev (RdB (Reg c RDR) v) s)" using reads_rx(5) [OF Suc.prems] by blast
  let ?t = "if us \<noteq> 0 then ev (Udelay us) (ev (RdB (Reg c RDR) v) s) else ev (RdB (Reg c RDR) v) s"
  have t: "hw ?t = hw s" "par ?t = par s" "acked c (evs ?t) = acked c (evs s)" by simp_all
  from Suc.IH [of ?t] Suc.prems t obtain bs s' where "read_rdr c us k ?t = Some (bs, s')"
      "hw s' = hw s" "par s' = par s" "acked c (evs s') = acked c (evs s)"
      "\<forall>v \<in> set bs. \<exists>l. dev (hw s) l (chip_off ! c + RDR) = Some v" by metis
  moreover have "dev (hw s) (evs s) (chip_off ! c + RDR) = Some v" using v by (simp add: crd_Some)
  ultimately show ?case using v by (auto simp: Let_def)
qed simp

lemma rx_pass:
  assumes "offers_rx c ch n (hw s)" and "good s" and "c < NM32A_CHIPS" and "ch < 4" and "\<not> acked c (evs s)"
  shows "\<exists>bs s'. nm32a_service c s = Some (True, s') \<and> length bs = unat (n AND 0x1f) \<and>
    rx_taken c ch (evs s') = rx_taken c ch (evs s) @ bs \<and>
    flipped (pidx c ch) (evs s') = flipped (pidx c ch) (evs s) @ (if popen (port (pidx c ch) s) then bs else []) \<and>
    (\<forall>v \<in> set bs. \<exists>l. dev (hw s) l (chip_off ! c + RDR) = Some v)"
proof -
  note R = reads_rx(1-3) [of c ch n] and B = channel_bits(1,4-7) [OF assms(4)]
  define s1 where "s1 = (let t = ev (RdB (Reg c RIR) (0x80 OR word_of_nat ch)) (ev (RdB (Reg c TIR) 0) (mutex_lock s));
      u = (if 0 < trace s then t\<lparr>trace := trace s - 1\<rparr> else t)
    in ev (RdB (Reg c RIR) (0x80 OR word_of_nat ch)) (ev (RdB (Reg c TIR) 0) u))"
  have s1: "hw s1 = hw s" "par s1 = par s" "ports s1 = ports s" "rx_taken c ch (evs s1) = rx_taken c ch (evs s)"
      "flipped i (evs s1) = flipped i (evs s)" for i
    by (simp_all add: s1_def Let_def mutex_lock_def)
  have a: "nm32a_service c s = service_ack c 0 (0x80 OR word_of_nat ch) (0 < trace s) s1"
    using assms(1,5) B by (simp add: nm32a_service_def R mutex_lock_def Let_def s1_def)
  obtain v where v: "rdb (Bar (NM32A_ACK_RX s1)) s1 = Some (v, ev (RdB (Bar (NM32A_ACK_RX s1)) v) s1)"
    using reads_rx(6) [of c ch n s1 "NM32A_ACK_RX s1"] assms(1) s1(1) ack_small by auto
  define s2 where "s2 = ev (RdB (Reg c RFOC) n) (ev (RdB (Reg c RIR) (0x4C OR word_of_nat ch)) (ev (RdB (Reg c TIR) 0)
      (ev (RdB (Bar (NM32A_ACK_RX s1)) v) s1)))"
  have s2: "hw s2 = hw s" "par s2 = par s" "ports s2 = ports s" by (simp_all add: s2_def s1)
  have o2: "open_ctx (evs s2) = RxCtx c ch" using B by (simp add: s2_def just_acked_def)
  have m2: "rx_taken c ch (evs s2) = rx_taken c ch (evs s)" "flipped i (evs s2) = flipped i (evs s)" for i
    by (simp_all add: s2_def s1)
  obtain bs s3 where r: "read_rdr c (rdrus (par s)) (rx_count n) s2 = Some (bs, s3)" and h: "hw s3 = hw s" "par s3 = par s"
      and dv: "\<forall>v \<in> set bs. \<exists>l. dev (hw s) l (chip_off ! c + RDR) = Some v"
    using read_rdr_all [of c ch n s2] assms(1) s2 by metis
  note D = read_rdr_spec [OF r o2 assms(4)]
  let ?u = "s3\<lparr>st_good := st_good s3 + 1, st_bytes := st_bytes s3 + word_of_nat (length bs)\<rparr>"
  have "\<exists>t. nm32a_eoi c REOIR 0x00 ?u = Some t"
    using eoi_pops [OF reads_rx(3) [of c ch n]] assms(1) h by (simp add: cwr_def)
  then obtain t where e: "nm32a_eoi c REOIR 0x00 ?u = Some t" ..
  have b: "nm32a_service c s = Some (True, rx_deliver (pidx c ch) bs (mutex_unlock t))"
    unfolding a using assms(1) B e r
    by (simp add: service_ack_def v R Let_def service_rx_def service_rx_data_def reads_rx(4) s1 s2(2) flip: s2_def)
  have E: "ports t = ports s" "rx_taken c ch (evs t) = rx_taken c ch (evs s) @ bs"
      "flipped i (evs t) = flipped i (evs s)" for i
    using eoi_spec [OF e, of ch c ch i] D assms(4) m2 s2 by simp_all
  have "rx_count n = unat (n AND 0x1f)" by (simp add: rx_count_def Let_def not_less less_imp_le)
  moreover have "popen (port i (mutex_unlock t)) = popen (port i s)" for i
    using E(1) by (simp add: mutex_unlock_def port_def)
  ultimately show ?thesis
    using b D E dv by (auto simp: rx_deliver_def tty_flip_def mutex_unlock_def)
qed

text \<open>C14. What has arrived is taken.  On a card that grants a receive request for good data with \<open>n\<close> bytes announced, one
  service reads exactly the low five bits of that count from the channel, whatever the bytes are, and gives all of
  them, in order, to the tty if the port is open.\<close>

theorem rx_service_takes_all:
  assumes "offers_rx c ch n (hw s)" and "good s" and "c < NM32A_CHIPS" and "ch < 4" and "\<not> acked c (evs s)"
  shows "\<exists>bs s'. nm32a_service c s = Some (True, s') \<and> length bs = unat (n AND 0x1f) \<and>
    rx_taken c ch (evs s') = rx_taken c ch (evs s) @ bs \<and>
    flipped (pidx c ch) (evs s') = flipped (pidx c ch) (evs s) @ (if popen (port (pidx c ch) s) then bs else [])"
  using rx_pass [OF assms] by blast

text \<open>A card on which channel 2 of chip 2 announces three bytes.\<close>

definition rx3_hw :: hwenv where
  "rx3_hw = demo_hw\<lparr>dev := (\<lambda>l a. Some (if a = 0x6ED then if acked 2 l then 0x4E else 0x82
     else if a = 0x630 then 3 else if a = 0x6F8 then 0x5a else 0))\<rparr>"

theorem rx_service_takes_all_witness:
  "\<exists>bs s'. nm32a_service 2 (card_start rx3_hw default_params) = Some (True, s') \<and> length bs = 3 \<and>
     rx_taken 2 2 (evs s') = bs"
proof -
  have "offers_rx 2 2 3 (hw (card_start rx3_hw default_params))"
    by (simp add: card_start_ports offers_rx_def rx3_hw_def chip_off_def)
  from rx_service_takes_all [OF this good_card_start] show ?thesis by (auto simp: card_start_ports)
qed

text \<open>A card on which channel 0 of chip 0 announces one byte, 0x43, whenever it is asked.\<close>

definition wire_hw :: hwenv where
  "wire_hw = demo_hw\<lparr>dev := (\<lambda>l a. Some (if a = 0x4ED then if acked 0 l then 0x4C else 0x80
     else if a = 0x430 then 1 else if a = 0x4F8 then 0x43 else 0))\<rparr>"

lemma wire_reads:
  assumes "hw s = wire_hw"
  shows "crd 0 GFRCR s = Some (0, ev (RdB (Reg 0 GFRCR) 0) s)" "crd 0 CCR s = Some (0, ev (RdB (Reg 0 CCR) 0) s)"
    "ccr_wait 0 s = Some (0, ev (RdB (Reg 0 CCR) 0) s)"
  using assms by (simp_all add: ccr_wait_def ccr_poll.simps crd_def rdb_def wire_hw_def demo_hw_def chip_off_def Let_def)

lemma wire_run:
  "\<exists>s'. drv_execs [Activate 0 (Some 9600), Service 0] (card_start wire_hw default_params) = Some s' \<and>
     flipped 0 (evs s') = [0x43]"
proof -
  let ?s = "card_start wire_hw default_params"
  have f: "hw ?s = wire_hw" "evs ?s = []" "par ?s = default_params" "chip (port 0 ?s) = 0" "chan (port 0 ?s) = 0"
      "length (ports ?s) = 32"
    by (simp_all add: card_start_ports port_card_start zero_port_def)
  obtain s1 where a: "nm32a_port_activate 0 (Some 9600) ?s = Some (0, s1)" and p: "popen (port 0 s1)"
    and s1: "hw s1 = wire_hw" "\<not> acked 0 (evs s1)" "flipped 0 (evs s1) = []"
    using f by (simp add: nm32a_port_activate_def nm32a_chan_init_def nm32a_set_rate_def rate_regs_def
        wire_reads cwrs_def cwr_def mutex_lock_def mutex_unlock_def Let_def split: prod.splits)
  have e: "drv_exec (Activate 0 (Some 9600)) ?s = Some s1" using a by simp
  have g: "good s1" using op_refines [OF good_card_start _ e] by simp
  have "offers_rx 0 0 1 (hw s1)" by (simp add: s1 offers_rx_def wire_hw_def chip_off_def)
  from rx_pass [OF this g _ _ s1(2)] obtain bs s' where r: "nm32a_service 0 s1 = Some (True, s')" "length bs = 1"
      "flipped 0 (evs s') = bs" "\<forall>v \<in> set bs. \<exists>l. dev (hw s1) l (chip_off ! 0 + RDR) = Some v"
    using p s1(3) by auto
  then have "bs = [0x43]" by (cases bs) (simp_all add: s1(1) wire_hw_def chip_off_def)
  with a r show ?thesis by simp
qed

end
