(* ===== verification/C2811_Pci.thy ===== *)
theory C2811_Pci
  imports Prelude
begin

text \<open>
  The PCI host bridge support \<open>kernel/cisco2811/pci.c\<close>: the byte-swapped register access, the
  config space accessors, the bridge set-up, and the fixup that drops the bridge's own resources.

  The bridge is a parameter: what a raw 32-bit read of a register returns, as a function of the
  accesses made so far (newest first).  The theorems about config space assume the documented
  behaviour of the part, written as the concrete device \<open>mv_dev\<close>: plain registers hold what was
  last written, and the data register is a window on the config word that the address register
  selects.  Config words are plain memory in it and its reads can be repeated.  Real devices differ in two ways: the status
  half of the command word is cleared by writing ones to it, and of this controller \<open>pciscan.c\<close> says that the
  first read of the data register cannot be trusted (\<open>mv_dev_late\<close> in \<open>Tool_Pciscan\<close>).
\<close>

datatype pev = RawR nat u32 | RawW nat u32 | CpldR nat u8 | CpldW nat u8 | SetIoBase u32 | RegisterController | FlushR

record bridge =
  mvdev :: "pev list \<Rightarrow> nat \<Rightarrow> u32"
  cpld :: "pev list \<Rightarrow> nat \<Rightarrow> u8"
  pevs :: "pev list"

abbreviation (input) PCI1_CONFIG_ADDR :: nat where "PCI1_CONFIG_ADDR \<equiv> 0xc78"
abbreviation (input) PCI1_CONFIG_DATA :: nat where "PCI1_CONFIG_DATA \<equiv> 0xc7c"
abbreviation (input) BASE_ADDR_ENABLE :: nat where "BASE_ADDR_ENABLE \<equiv> 0x278"

section \<open>Register access\<close>

definition swab32 :: "u32 \<Rightarrow> u32" where
  "swab32 x = push_bit 24 (x AND 0xff) OR push_bit 8 (x AND 0xff00) OR
     (drop_bit 8 x AND 0xff00) OR (drop_bit 24 x AND 0xff)"

definition mv_read :: "nat \<Rightarrow> bridge \<Rightarrow> u32 \<times> bridge" where
  "mv_read off s = (let raw = mvdev s (pevs s) off in (swab32 raw, s\<lparr>pevs := RawR off raw # pevs s\<rparr>))"

definition mv_write :: "nat \<Rightarrow> u32 \<Rightarrow> bridge \<Rightarrow> bridge" where
  "mv_write off v s = s\<lparr>pevs := RawW off (swab32 v) # pevs s\<rparr>"

section \<open>Config space\<close>

definition cfg_addr :: "u8 \<Rightarrow> u32 \<Rightarrow> u32 \<Rightarrow> u32" where
  "cfg_addr bus devfn wh =
     0x80000000 OR push_bit 16 (ucast bus) OR push_bit 11 (drop_bit 3 devfn AND 0x1f) OR
     push_bit 8 (devfn AND 0x07) OR (wh AND 0xfc)"

definition c2811_pci_addr :: "u8 \<Rightarrow> u32 \<Rightarrow> u32 \<Rightarrow> bridge \<Rightarrow> int \<times> bridge" where
  "c2811_pci_addr bus devfn wh s =
     (if bus \<noteq> 0 then (-1, s) else (0, mv_write PCI1_CONFIG_ADDR (cfg_addr bus devfn wh) s))"

abbreviation (input) PCIBIOS_SUCCESSFUL :: int where "PCIBIOS_SUCCESSFUL \<equiv> 0"
abbreviation (input) PCIBIOS_DEVICE_NOT_FOUND :: int where "PCIBIOS_DEVICE_NOT_FOUND \<equiv> 0x86"

definition field_of :: "u32 \<Rightarrow> nat \<Rightarrow> u32 \<Rightarrow> u32" where
  "field_of wh sz data =
     (if sz = 1 then drop_bit (unat (push_bit 3 (wh AND 3))) data AND 0xff
      else if sz = 2 then drop_bit (unat (push_bit 3 (wh AND 2))) data AND 0xffff
      else data)"

definition c2811_pci_read :: "u8 \<Rightarrow> u32 \<Rightarrow> u32 \<Rightarrow> nat \<Rightarrow> bridge \<Rightarrow> int \<times> u32 \<times> bridge" where
  "c2811_pci_read bus devfn wh sz s =
     (let (rc, s) = c2811_pci_addr bus devfn wh s in
      if rc \<noteq> 0 then (PCIBIOS_DEVICE_NOT_FOUND, 0xffffffff, s)
      else
        let (_, s) = mv_read PCI1_CONFIG_ADDR s;
            (data, s) = mv_read PCI1_CONFIG_DATA s
        in (PCIBIOS_SUCCESSFUL, field_of wh sz data, s))"

definition merge_field :: "u32 \<Rightarrow> nat \<Rightarrow> u32 \<Rightarrow> u32 \<Rightarrow> u32" where
  "merge_field wh sz data val =
     (if sz = 1 then
        let shift = unat (push_bit 3 (wh AND 3))
        in (data AND NOT (push_bit shift 0xff)) OR push_bit shift (val AND 0xff)
      else
        let shift = unat (push_bit 3 (wh AND 2))
        in (data AND NOT (push_bit shift 0xffff)) OR push_bit shift (val AND 0xffff))"

definition c2811_pci_write :: "u8 \<Rightarrow> u32 \<Rightarrow> u32 \<Rightarrow> nat \<Rightarrow> u32 \<Rightarrow> bridge \<Rightarrow> int \<times> bridge" where
  "c2811_pci_write bus devfn wh sz val s =
     (let (rc, s) = c2811_pci_addr bus devfn wh s in
      if rc \<noteq> 0 then (PCIBIOS_DEVICE_NOT_FOUND, s)
      else
        let (_, s) = mv_read PCI1_CONFIG_ADDR s;
            (data, s) =
              (if sz = 4 then (val, s)
               else
                 let (data, s) = mv_read PCI1_CONFIG_DATA s;
                     data = merge_field wh sz data val;
                     (_, s) = c2811_pci_addr bus devfn wh s;
                     (_, s) = mv_read PCI1_CONFIG_ADDR s
                 in (data, s))
        in (PCIBIOS_SUCCESSFUL, mv_write PCI1_CONFIG_DATA data s))"

abbreviation (input) PCI1_MEM_CPU_BASE :: u32 where "PCI1_MEM_CPU_BASE \<equiv> 0x18000000"
abbreviation (input) PCI1_MEM_SIZE :: u32 where "PCI1_MEM_SIZE \<equiv> 0x04000000"
abbreviation (input) PCI1_IO_CPU_BASE :: u32 where "PCI1_IO_CPU_BASE \<equiv> 0x1C000000"
abbreviation (input) PCI1_IO_SIZE :: u32 where "PCI1_IO_SIZE \<equiv> 0x00100000"

section \<open>What the PCI core is handed\<close>

record pci_resource =
  rstart :: u32
  rend :: u32
  rflags :: u32

text \<open>A resource of the host has a name too.  The limit is the MIPS one.\<close>

record host_resource = pci_resource +
  rname :: string

abbreviation (input) IORESOURCE_IO :: u32 where "IORESOURCE_IO \<equiv> 0x100"
abbreviation (input) IORESOURCE_MEM :: u32 where "IORESOURCE_MEM \<equiv> 0x200"
abbreviation (input) IO_SPACE_LIMIT :: u32 where "IO_SPACE_LIMIT \<equiv> 0xffff"

definition c2811_pci_mem :: host_resource where
  "c2811_pci_mem = \<lparr>rstart = PCI1_MEM_CPU_BASE, rend = PCI1_MEM_CPU_BASE + PCI1_MEM_SIZE - 1,
     rflags = IORESOURCE_MEM, rname = ''PCI1 memory''\<rparr>"

definition c2811_pci_io :: host_resource where
  "c2811_pci_io = \<lparr>rstart = 0x1000, rend = IO_SPACE_LIMIT, rflags = IORESOURCE_IO, rname = ''PCI1 I/O''\<rparr>"

record pci_ops =
  bus_read :: "u8 \<Rightarrow> u32 \<Rightarrow> u32 \<Rightarrow> nat \<Rightarrow> bridge \<Rightarrow> int \<times> u32 \<times> bridge"
  bus_write :: "u8 \<Rightarrow> u32 \<Rightarrow> u32 \<Rightarrow> nat \<Rightarrow> u32 \<Rightarrow> bridge \<Rightarrow> int \<times> bridge"

definition c2811_pci_ops :: pci_ops where
  "c2811_pci_ops = \<lparr>bus_read = c2811_pci_read, bus_write = c2811_pci_write\<rparr>"

record pci_controller =
  ctl_ops :: pci_ops
  mem_resource :: host_resource
  io_resource :: host_resource

definition c2811_pci_controller :: pci_controller where
  "c2811_pci_controller = \<lparr>ctl_ops = c2811_pci_ops, mem_resource = c2811_pci_mem, io_resource = c2811_pci_io\<rparr>"

section \<open>Bring-up\<close>

definition c2811_slot_enable :: "bool \<Rightarrow> bridge \<Rightarrow> bridge" where
  "c2811_slot_enable mapped s =
     (if \<not> mapped then s
      else
        let s = s\<lparr>pevs := CpldR 0x13 (cpld s (pevs s) 0x13) # pevs s\<rparr>;
            s = s\<lparr>pevs := CpldW 0x13 0x9b # pevs s\<rparr>
        in s\<lparr>pevs := CpldR 0x13 (cpld s (pevs s) 0x13) # pevs s\<rparr>)"

text \<open>The memory window, the bridge command, the byte lanes, the decode enables.\<close>

definition init_windows :: "bridge \<Rightarrow> bridge" where
  "init_windows s =
     (let s = mv_write 0x0a0 (0x01000000 OR drop_bit 16 PCI1_MEM_CPU_BASE) s;
          s = mv_write 0x0a8 (drop_bit 16 PCI1_MEM_SIZE - 1) s;
          s = mv_write 0x110 (drop_bit 16 PCI1_MEM_CPU_BASE) s
      in mv_write 0x340 0 s)"

definition init_command :: "bridge \<Rightarrow> bridge" where
  "init_command s =
     (let s = mv_write PCI1_CONFIG_ADDR (0x80000000 OR 0x04) s;
          (_, s) = mv_read PCI1_CONFIG_ADDR s;
          (cmd, s) = mv_read PCI1_CONFIG_DATA s;
          cmd = (cmd AND 0xffff0000) OR 0x2 OR 0x4 OR 0x1;
          s = mv_write PCI1_CONFIG_ADDR (0x80000000 OR 0x04) s;
          (_, s) = mv_read PCI1_CONFIG_ADDR s
      in mv_write PCI1_CONFIG_DATA cmd s)"

definition init_decode :: "bridge \<Rightarrow> bridge" where
  "init_decode s =
     (let s = mv_write 0xc00 0x00170F41 s;
          s = mv_write 0xc80 0x00170F41 s;
          (bae, s) = mv_read BASE_ADDR_ENABLE s;
          s = mv_write BASE_ADDR_ENABLE (bae AND NOT (push_bit 10 1 OR push_bit 15 1)) s;
          s = mv_write 0xc3c 0xFFFFFDFE s
      in mv_write 0xcbc 0xFFFFFDFE s)"

text \<open>The I/O window, with the readbacks that are logged (in the order they are written).\<close>

definition init_io :: "bridge \<Rightarrow> bridge" where
  "init_io s =
     (let s = mv_write 0x090 (drop_bit 16 PCI1_IO_CPU_BASE) s;
          s = mv_write 0x098 (drop_bit 16 PCI1_IO_SIZE - 1) s;
          s = mv_write 0x108 0 s;
          (before, s) = mv_read BASE_ADDR_ENABLE s;
          s = mv_write BASE_ADDR_ENABLE (before AND NOT (push_bit 14 1)) s;
          (after, s) = mv_read BASE_ADDR_ENABLE s;
          (_, s) = mv_read 0x090 s;
          (_, s) = mv_read 0x098 s;
          (_, s) = mv_read 0x108 s
      in s)"

definition CKSEG1ADDR :: "u32 \<Rightarrow> u32" where
  "CKSEG1ADDR a = (a AND 0x1fffffff) OR 0xa0000000"

definition c2811_pci_init :: "bool \<Rightarrow> bool \<Rightarrow> bridge \<Rightarrow> int \<times> bridge" where
  "c2811_pci_init mv_mapped cpld_mapped s =
     (if \<not> mv_mapped then (- ENOMEM, s)
      else
        let s = c2811_slot_enable cpld_mapped s;
            s = init_io (init_decode (init_command (init_windows s)));
            s = s\<lparr>pevs := SetIoBase (CKSEG1ADDR PCI1_IO_CPU_BASE) # pevs s\<rparr>
        in (0, s\<lparr>pevs := RegisterController # pevs s\<rparr>))"

section \<open>The fixup and the trivial hooks\<close>

record pci_dev =
  resources :: "pci_resource list"
  dclass :: u32

definition zero_resource :: pci_resource where
  "zero_resource = \<lparr>rstart = 0, rend = 0, rflags = 0\<rparr>"

text \<open>The loop over \<open>PCI_NUM_RESOURCES\<close> entries, the length of the list.\<close>

definition c2811_bridge_no_resources :: "pci_dev \<Rightarrow> pci_dev" where
  "c2811_bridge_no_resources d =
     (let d = d\<lparr>resources := foldl (\<lambda>rs i. rs[i := zero_resource]) (resources d) [0..<length (resources d)]\<rparr>
      in d\<lparr>dclass := push_bit 8 0x0600\<rparr>)"

definition pcibios_map_irq :: "pci_dev \<Rightarrow> u8 \<Rightarrow> u8 \<Rightarrow> int" where
  "pcibios_map_irq d slot pin = 0"

definition pcibios_plat_dev_init :: "pci_dev \<Rightarrow> int" where
  "pcibios_plat_dev_init d = 0"

section \<open>Byte swapping\<close>

lemma bit_mask_byte: "bit (0xff :: u32) n \<longleftrightarrow> n < 8" "bit (0xff00 :: u32) n \<longleftrightarrow> 8 \<le> n \<and> n < 16"
proof -
  have "(0xff :: u32) = mask 8" "(0xff00 :: u32) = push_bit 8 (mask 8)"
    by (simp_all add: mask_eq_exp_minus_1 push_bit_eq_mult)
  then show "bit (0xff :: u32) n \<longleftrightarrow> n < 8" "bit (0xff00 :: u32) n \<longleftrightarrow> 8 \<le> n \<and> n < 16"
    by (simp_all only: bit_push_bit_iff bit_mask_iff) auto
qed

lemma bit_swab32:
  "bit (swab32 x) n \<longleftrightarrow> n < 32 \<and> bit x (n mod 8 + 8 * (3 - n div 8))"
proof -
  have e: "bit (swab32 x) n \<longleftrightarrow>
      (24 \<le> n \<and> n < 32 \<and> bit x (n - 24)) \<or> (16 \<le> n \<and> n < 24 \<and> bit x (n - 8)) \<or>
      (8 \<le> n \<and> n < 16 \<and> bit x (n + 8)) \<or> (n < 8 \<and> bit x (n + 24))"
    unfolding swab32_def bit_or_iff bit_and_iff bit_push_bit_iff bit_drop_bit_eq comp_apply bit_mask_byte
    by (auto simp: add.commute)
  consider "n < 8" | "8 \<le> n" "n < 16" | "16 \<le> n" "n < 24" | "24 \<le> n" "n < 32" | "32 \<le> n" by linarith
  then show ?thesis
  proof cases
    case 1
    then show ?thesis by (simp add: e)
  next
    case 2
    then have "n div 8 = 1" "n mod 8 = n - 8" by (simp_all add: div_nat_eqI mod_nat_eqI)
    with 2 show ?thesis by (simp add: e add.commute)
  next
    case 3
    then have "n div 8 = 2" "n mod 8 = n - 16" by (simp_all add: div_nat_eqI mod_nat_eqI)
    moreover have "n - 16 + 8 = n - 8" using 3 by linarith
    ultimately show ?thesis using 3 by (simp add: e)
  next
    case 4
    then have "n div 8 = 3" "n mod 8 = n - 24" by (simp_all add: div_nat_eqI mod_nat_eqI)
    with 4 show ?thesis by (simp add: e)
  next
    case 5
    then show ?thesis by (simp add: e)
  qed
qed

lemma swab32_swab32 [simp]: "swab32 (swab32 x) = x"
proof (rule bit_word_eqI)
  fix n
  assume "n < LENGTH(32)"
  then have n: "n < 32" by simp
  let ?m = "n mod 8 + 8 * (3 - n div 8)"
  have d: "n div 8 \<le> 3" using n by linarith
  have m: "?m mod 8 = n mod 8" "?m div 8 = 3 - n div 8" "?m < 32" using n by auto
  have "?m mod 8 + 8 * (3 - ?m div 8) = n" unfolding m using d by simp
  then show "bit (swab32 (swab32 x)) n = bit x n"
    using n m(3) by (simp only: bit_swab32) simp
qed

section \<open>The documented bridge\<close>

fun last_raw :: "nat \<Rightarrow> pev list \<Rightarrow> u32 option" where
  "last_raw off [] = None"
| "last_raw off (RawW o' v # h) = (if o' = off then Some v else last_raw off h)"
| "last_raw off (_ # h) = last_raw off h"

definition cfg_sel :: "pev list \<Rightarrow> u32" where
  "cfg_sel h = (case last_raw PCI1_CONFIG_ADDR h of Some v \<Rightarrow> swab32 v | None \<Rightarrow> 0)"

text \<open>The config word at a config address, starting from \<open>cs0\<close>.\<close>

fun cfg :: "(u32 \<Rightarrow> u32) \<Rightarrow> pev list \<Rightarrow> u32 \<Rightarrow> u32" where
  "cfg cs0 [] a = cs0 a"
| "cfg cs0 (RawW off v # h) a = (if off = PCI1_CONFIG_DATA \<and> cfg_sel h = a then swab32 v else cfg cs0 h a)"
| "cfg cs0 (_ # h) a = cfg cs0 h a"

definition mv_dev :: "(u32 \<Rightarrow> u32) \<Rightarrow> (nat \<Rightarrow> u32) \<Rightarrow> pev list \<Rightarrow> nat \<Rightarrow> u32" where
  "mv_dev cs0 r0 h off =
     (if off = PCI1_CONFIG_DATA then swab32 (cfg cs0 h (cfg_sel h))
      else case last_raw off h of Some v \<Rightarrow> v | None \<Rightarrow> r0 off)"

text \<open>The value of a register as the code sees it.\<close>

definition mv_reg :: "(nat \<Rightarrow> u32) \<Rightarrow> pev list \<Rightarrow> nat \<Rightarrow> u32" where
  "mv_reg r0 h off = swab32 (case last_raw off h of Some v \<Rightarrow> v | None \<Rightarrow> r0 off)"

lemma mv_simps [simp]:
  "mvdev (mv_write off v s) = mvdev s" "pevs (mv_write off v s) = RawW off (swab32 v) # pevs s"
  "mvdev (snd (mv_read off s)) = mvdev s" "cpld (snd (mv_read off s)) = cpld s" "cpld (mv_write off v s) = cpld s"
  by (simp_all add: mv_write_def mv_read_def Let_def)

lemma mv_read_dev:
  assumes "mvdev s = mv_dev cs0 r0"
  shows "mv_read PCI1_CONFIG_DATA s = (cfg cs0 (pevs s) (cfg_sel (pevs s)),
      s\<lparr>pevs := RawR PCI1_CONFIG_DATA (swab32 (cfg cs0 (pevs s) (cfg_sel (pevs s)))) # pevs s\<rparr>)"
    and "off \<noteq> PCI1_CONFIG_DATA \<Longrightarrow> fst (mv_read off s) = mv_reg r0 (pevs s) off"
    and "\<exists>v. pevs (snd (mv_read off s)) = RawR off v # pevs s"
  using assms by (simp_all add: mv_read_def mv_dev_def mv_reg_def Let_def)

lemma cfg_sel_simps [simp]:
  "cfg_sel (RawW PCI1_CONFIG_ADDR v # h) = swab32 v" "cfg_sel (RawR off v # h) = cfg_sel h"
  "off \<noteq> PCI1_CONFIG_ADDR \<Longrightarrow> cfg_sel (RawW off v # h) = cfg_sel h"
  by (simp_all add: cfg_sel_def)

section \<open>Fields\<close>

lemma bit_low_mask: "bit (0xff :: u32) n \<longleftrightarrow> n < 8" "bit (0xffff :: u32) n \<longleftrightarrow> n < 16"
proof -
  have "(0xff :: u32) = mask 8" "(0xffff :: u32) = mask 16" by (simp_all add: mask_eq_exp_minus_1)
  then show "bit (0xff :: u32) n \<longleftrightarrow> n < 8" "bit (0xffff :: u32) n \<longleftrightarrow> n < 16"
    by (simp_all only: bit_mask_iff) auto
qed

lemma unat_and_3_mod: "unat (wh AND 3 :: u32) = unat wh mod 4"
proof -
  have "wh AND 3 = take_bit 2 wh" by (simp add: take_bit_eq_mask mask_eq_exp_minus_1)
  then show ?thesis by (simp add: take_bit_eq_mod unat_mod_distrib)
qed

lemma unat_and_2_mod:
  assumes "even (unat (wh :: u32))"
  shows "unat (wh AND 2) = unat wh mod 4"
proof -
  have "wh AND 3 = wh AND 2"
  proof (rule bit_word_eqI)
    fix n
    have "\<not> bit (unat wh) 0" using assms by (simp add: bit_0)
    then have "\<not> bit wh 0" by (simp add: bit_unsigned_iff)
    moreover have "(3 :: u32) = mask 2" "(2 :: u32) = push_bit 1 (mask 1)"
      by (simp_all add: mask_eq_exp_minus_1)
    then have "bit (3 :: u32) n \<longleftrightarrow> n < 2" "bit (2 :: u32) n \<longleftrightarrow> n = 1"
      by (simp_all only: bit_push_bit_iff bit_mask_iff) auto
    ultimately show "bit (wh AND 3) n = bit (wh AND 2) n"
      unfolding bit_and_iff by (cases n) auto
  qed
  then show ?thesis using unat_and_3_mod [of wh] by simp
qed

lemma shift_amount:
  "unat (push_bit 3 (wh AND 3 :: u32)) = 8 * (unat wh mod 4)"
  "even (unat wh) \<Longrightarrow> unat (push_bit 3 (wh AND 2 :: u32)) = 8 * (unat wh mod 4)"
proof -
  have p: "unat (push_bit 3 x) = 8 * unat x" if "unat x < 4" for x :: u32
    using that by (simp add: push_bit_eq_mult unat_word_ariths)
  show "unat (push_bit 3 (wh AND 3 :: u32)) = 8 * (unat wh mod 4)"
    by (subst p) (simp_all add: unat_and_3_mod)
  show "unat (push_bit 3 (wh AND 2 :: u32)) = 8 * (unat wh mod 4)" if "even (unat wh)"
    by (subst p) (simp_all add: unat_and_2_mod [OF that])
qed

text \<open>An access the PCI core makes: one, two or four bytes, aligned.\<close>

definition aligned :: "u32 \<Rightarrow> nat \<Rightarrow> bool" where
  "aligned wh sz \<longleftrightarrow> sz \<in> {1, 2, 4} \<and> unat wh mod sz = 0"

lemma aligned_even: "aligned wh 2 \<Longrightarrow> even (unat wh)"
  by (auto simp: aligned_def)

lemma field_cases:
  "field_of wh 1 d = drop_bit (unat (push_bit 3 (wh AND 3))) d AND 0xff"
  "field_of wh 2 d = drop_bit (unat (push_bit 3 (wh AND 2))) d AND 0xffff"
  "field_of wh 4 d = d"
  unfolding field_of_def by simp_all

lemma field_bits:
  assumes "aligned wh sz"
  shows "bit (field_of wh sz data) j \<longleftrightarrow> j < 8 * sz \<and> bit data (8 * (unat wh mod 4) + j)"
proof -
  consider "sz = 1" | "sz = 2" | "sz = 4" using assms by (auto simp: aligned_def)
  then show ?thesis
  proof cases
    case 1
    show ?thesis
      unfolding 1 field_cases shift_amount(1) bit_and_iff bit_drop_bit_eq comp_apply bit_low_mask by auto
  next
    case 2
    then have ev: "even (unat wh)" using assms aligned_even by simp
    show ?thesis
      unfolding 2 field_cases shift_amount(2) [OF ev] bit_and_iff bit_drop_bit_eq comp_apply bit_low_mask by auto
  next
    case 3
    then have "unat wh mod 4 = 0" using assms by (simp add: aligned_def)
    with 3 show ?thesis by (auto simp: field_of_def dest: bit_imp_le_length)
  qed
qed

lemma merge_cases:
  "merge_field wh 1 d v = (d AND NOT (push_bit (unat (push_bit 3 (wh AND 3))) 0xff)) OR
     push_bit (unat (push_bit 3 (wh AND 3))) (v AND 0xff)"
  "merge_field wh 2 d v = (d AND NOT (push_bit (unat (push_bit 3 (wh AND 2))) 0xffff)) OR
     push_bit (unat (push_bit 3 (wh AND 2))) (v AND 0xffff)"
  unfolding merge_field_def Let_def by simp_all

lemma bit_merge:
  assumes "\<And>k. bit m k \<longleftrightarrow> k < w" and "sh + w \<le> 32"
  shows "bit ((d AND NOT (push_bit sh m)) OR push_bit sh (v AND m) :: u32) n \<longleftrightarrow>
    (if sh \<le> n \<and> n < sh + w then bit v (n - sh) else bit d n)"
proof -
  have "bit d n \<Longrightarrow> n < 32" by (auto dest: bit_imp_le_length)
  then show ?thesis
    using assms(2) by (auto simp: bit_or_iff bit_and_iff bit_not_iff bit_push_bit_iff assms(1))
qed

lemma merge_bits:
  assumes "aligned wh sz" and "sz \<noteq> 4"
  shows "bit (merge_field wh sz data val) n \<longleftrightarrow>
    (if 8 * (unat wh mod 4) \<le> n \<and> n < 8 * (unat wh mod 4) + 8 * sz
     then bit val (n - 8 * (unat wh mod 4)) else bit data n)"
proof -
  let ?sh = "8 * (unat wh mod 4)"
  consider (one) "sz = 1" | (two) "sz = 2" using assms by (auto simp: aligned_def)
  then show ?thesis
  proof cases
    case one
    have "?sh + 8 \<le> 32" by presburger
    then show ?thesis
      unfolding one merge_cases shift_amount(1) by (subst bit_merge [OF bit_low_mask(1)]) simp_all
  next
    case two
    then have ev: "even (unat wh)" using assms(1) aligned_even by simp
    then have "unat wh mod 4 \<le> 2" by presburger
    then have "?sh + 16 \<le> 32" by simp
    then show ?thesis
      unfolding two merge_cases shift_amount(2) [OF ev] by (subst bit_merge [OF bit_low_mask(2)]) simp_all
  qed
qed

section \<open>Config accesses on the documented bridge\<close>

lemma pci_read_run:
  assumes "mvdev s = mv_dev cs0 r0"
  shows "\<exists>s'. c2811_pci_read 0 devfn wh sz s =
      (PCIBIOS_SUCCESSFUL, field_of wh sz (cfg cs0 (pevs s) (cfg_addr 0 devfn wh)), s') \<and>
    mvdev s' = mvdev s \<and> (\<forall>a. cfg cs0 (pevs s') a = cfg cs0 (pevs s) a)"
proof -
  let ?a = "cfg_addr 0 devfn wh"
  define s1 where "s1 = mv_write PCI1_CONFIG_ADDR ?a s"
  define s2 where "s2 = snd (mv_read PCI1_CONFIG_ADDR s1)"
  have d1: "mvdev s1 = mv_dev cs0 r0" and d2: "mvdev s2 = mv_dev cs0 r0"
    using assms by (simp_all add: s1_def s2_def)
  obtain v where e2: "pevs s2 = RawR PCI1_CONFIG_ADDR v # pevs s1"
    unfolding s2_def using mv_read_dev(3) [OF d1] by blast
  have e1: "pevs s1 = RawW PCI1_CONFIG_ADDR (swab32 ?a) # pevs s" by (simp add: s1_def)
  have sel: "cfg_sel (pevs s2) = ?a" by (simp add: e2 e1)
  have "c2811_pci_read 0 devfn wh sz s =
      (PCIBIOS_SUCCESSFUL, field_of wh sz (cfg cs0 (pevs s2) ?a),
       s2\<lparr>pevs := RawR PCI1_CONFIG_DATA (swab32 (cfg cs0 (pevs s2) ?a)) # pevs s2\<rparr>)"
    using mv_read_dev(1) [OF d2] sel
    by (simp add: c2811_pci_read_def c2811_pci_addr_def Let_def case_prod_unfold s2_def s1_def)
  moreover have "cfg cs0 (pevs s2) a = cfg cs0 (pevs s) a" for a by (simp add: e2 e1)
  moreover have "mvdev s2 = mvdev s" by (simp add: s2_def s1_def)
  ultimately show ?thesis by simp
qed

lemma pci_write_run:
  assumes "mvdev s = mv_dev cs0 r0"
  shows "\<exists>s'. c2811_pci_write 0 devfn wh sz val s = (PCIBIOS_SUCCESSFUL, s') \<and> mvdev s' = mvdev s \<and>
    (\<forall>a. cfg cs0 (pevs s') a = (if a = cfg_addr 0 devfn wh
       then (if sz = 4 then val else merge_field wh sz (cfg cs0 (pevs s) a) val) else cfg cs0 (pevs s) a))"
proof -
  let ?a = "cfg_addr 0 devfn wh"
  define s1 where "s1 = mv_write PCI1_CONFIG_ADDR ?a s"
  define s2 where "s2 = snd (mv_read PCI1_CONFIG_ADDR s1)"
  have d1: "mvdev s1 = mv_dev cs0 r0" and d2: "mvdev s2 = mv_dev cs0 r0"
    using assms by (simp_all add: s1_def s2_def)
  obtain v where e2: "pevs s2 = RawR PCI1_CONFIG_ADDR v # pevs s1"
    unfolding s2_def using mv_read_dev(3) [OF d1] by blast
  have e1: "pevs s1 = RawW PCI1_CONFIG_ADDR (swab32 ?a) # pevs s" by (simp add: s1_def)
  have sel: "cfg_sel (pevs s2) = ?a" by (simp add: e2 e1)
  have c2: "cfg cs0 (pevs s2) a = cfg cs0 (pevs s) a" for a by (simp add: e2 e1)
  show ?thesis
  proof (cases "sz = 4")
    case True
    then have "c2811_pci_write 0 devfn wh sz val s = (PCIBIOS_SUCCESSFUL, mv_write PCI1_CONFIG_DATA val s2)"
      by (simp add: c2811_pci_write_def c2811_pci_addr_def Let_def case_prod_unfold s2_def s1_def)
    with True sel c2 d2 assms show ?thesis by auto
  next
    case False
    let ?d = "merge_field wh sz (cfg cs0 (pevs s2) ?a) val"
    define s3 where "s3 = snd (mv_read PCI1_CONFIG_DATA s2)"
    define s4 where "s4 = mv_write PCI1_CONFIG_ADDR ?a s3"
    define s5 where "s5 = snd (mv_read PCI1_CONFIG_ADDR s4)"
    have d4: "mvdev s4 = mv_dev cs0 r0" using d2 by (simp add: s4_def s3_def)
    obtain v3 where e3: "pevs s3 = RawR PCI1_CONFIG_DATA v3 # pevs s2"
      unfolding s3_def using mv_read_dev(3) [OF d2] by blast
    obtain v5 where e5: "pevs s5 = RawR PCI1_CONFIG_ADDR v5 # pevs s4"
      unfolding s5_def using mv_read_dev(3) [OF d4] by blast
    have e4: "pevs s4 = RawW PCI1_CONFIG_ADDR (swab32 ?a) # pevs s3" by (simp add: s4_def)
    have "fst (mv_read PCI1_CONFIG_DATA s2) = cfg cs0 (pevs s2) ?a"
      using mv_read_dev(1) [OF d2] sel by simp
    with False have "c2811_pci_write 0 devfn wh sz val s = (PCIBIOS_SUCCESSFUL, mv_write PCI1_CONFIG_DATA ?d s5)"
      by (simp add: c2811_pci_write_def c2811_pci_addr_def Let_def case_prod_unfold s5_def s4_def s3_def s2_def s1_def)
    moreover have "cfg_sel (pevs s5) = ?a" by (simp add: e5 e4)
    moreover have "cfg cs0 (pevs s5) a = cfg cs0 (pevs s) a" for a by (simp add: e5 e4 e3 c2)
    moreover have "mvdev s5 = mvdev s" by (simp add: s5_def s4_def s3_def s2_def s1_def)
    ultimately show ?thesis using False c2 by auto
  qed
qed

text \<open>C20. On the documented bridge a config read on bus 0 succeeds and returns exactly the selected
  byte, half word or word of the device's config space, zero extended, and changes no config word.\<close>

theorem pci_read_field:
  assumes "mvdev s = mv_dev cs0 r0" and "aligned wh sz"
    and "c2811_pci_read 0 devfn wh sz s = (rc, val, s')"
  shows "rc = PCIBIOS_SUCCESSFUL \<and>
    (\<forall>j. bit val j \<longleftrightarrow> j < 8 * sz \<and> bit (cfg cs0 (pevs s) (cfg_addr 0 devfn wh)) (8 * (unat wh mod 4) + j)) \<and>
    (\<forall>a. cfg cs0 (pevs s') a = cfg cs0 (pevs s) a)"
  using pci_read_run [OF assms(1), of devfn wh sz] assms(3) field_bits [OF assms(2)] by auto

definition demo_bridge :: bridge where
  "demo_bridge = \<lparr>mvdev = mv_dev (\<lambda>a. 0x12345678) (\<lambda>off. 0), cpld = (\<lambda>h off. 0x0f), pevs = []\<rparr>"

theorem pci_read_field_witness:
  "\<exists>val s'. c2811_pci_read 0 8 2 1 demo_bridge = (0, val, s') \<and> bit val 2 \<and> \<not> bit val 0"
proof -
  obtain rc val s' where r: "c2811_pci_read 0 8 2 1 demo_bridge = (rc, val, s')" by (metis prod_cases3)
  have d: "mvdev demo_bridge = mv_dev (\<lambda>a. 0x12345678) (\<lambda>off. 0)" by (simp add: demo_bridge_def)
  have al: "aligned 2 1" by (simp add: aligned_def)
  have w: "(2 :: u32) \<noteq> 0" by simp
  from pci_read_field [OF d al r] r show ?thesis by (auto simp: demo_bridge_def)
qed

text \<open>C21. On the documented bridge a config write of one, two or four aligned bytes on bus 0 succeeds and changes exactly those
  bytes of that config word: the rest of the word is rewritten with what it held, and no other config
  word changes.\<close>

theorem pci_write_field:
  assumes "mvdev s = mv_dev cs0 r0" and "aligned wh sz"
    and "c2811_pci_write 0 devfn wh sz val s = (rc, s')"
  shows "rc = PCIBIOS_SUCCESSFUL \<and>
    (\<forall>a n. bit (cfg cs0 (pevs s') a) n \<longleftrightarrow>
      (if a = cfg_addr 0 devfn wh \<and> 8 * (unat wh mod 4) \<le> n \<and> n < 8 * (unat wh mod 4) + 8 * sz
       then bit val (n - 8 * (unat wh mod 4)) else bit (cfg cs0 (pevs s) a) n))"
proof -
  obtain s'' where w: "c2811_pci_write 0 devfn wh sz val s = (PCIBIOS_SUCCESSFUL, s'')"
      "\<forall>a. cfg cs0 (pevs s'') a = (if a = cfg_addr 0 devfn wh
       then (if sz = 4 then val else merge_field wh sz (cfg cs0 (pevs s) a) val) else cfg cs0 (pevs s) a)"
    using pci_write_run [OF assms(1)] by blast
  have four: "sz = 4 \<Longrightarrow> unat wh mod 4 = 0" using assms(2) by (simp add: aligned_def)
  have lt: "bit (v :: u32) n \<Longrightarrow> n < 32" for v n by (auto dest: bit_imp_le_length)
  have "rc = PCIBIOS_SUCCESSFUL" "s' = s''" using assms(3) w(1) by simp_all
  with w(2) merge_bits [OF assms(2)] four show ?thesis by (auto dest: lt)
qed

theorem pci_write_field_witness:
  "\<exists>s'. c2811_pci_write 0 8 4 2 0x0006 demo_bridge = (0, s') \<and>
     bit (cfg (\<lambda>a. 0x12345678) (pevs s') (cfg_addr 0 8 4)) 1 \<and>
     bit (cfg (\<lambda>a. 0x12345678) (pevs s') (cfg_addr 0 8 4)) 18"
proof -
  obtain rc s' where r: "c2811_pci_write 0 8 4 2 0x0006 demo_bridge = (rc, s')" by fastforce
  have d: "mvdev demo_bridge = mv_dev (\<lambda>a. 0x12345678) (\<lambda>off. 0)" by (simp add: demo_bridge_def)
  have al: "aligned 4 2" by (simp add: aligned_def)
  from pci_write_field [OF d al r] r show ?thesis by (auto simp: demo_bridge_def)
qed

text \<open>Nothing behind another bus is ever touched: there the read returns all ones and the
  not-found code, the write the not-found code, without a single access to the bridge.\<close>

lemma pci_other_bus_untouched:
  assumes "bus \<noteq> 0"
  shows "c2811_pci_read bus devfn wh sz s = (PCIBIOS_DEVICE_NOT_FOUND, 0xffffffff, s) \<and>
    c2811_pci_write bus devfn wh sz val s = (PCIBIOS_DEVICE_NOT_FOUND, s)"
  using assms by (simp add: c2811_pci_read_def c2811_pci_write_def c2811_pci_addr_def)

section \<open>Bring-up on the documented bridge\<close>

text \<open>What a run of register writes and reads leaves, register by register.\<close>

lemma last_raw_read: "last_raw off (pevs (snd (mv_read o' s))) = last_raw off (pevs s)"
  "cfg_sel (pevs (snd (mv_read o' s))) = cfg_sel (pevs s)"
  "cfg cs0 (pevs (snd (mv_read o' s))) a = cfg cs0 (pevs s) a"
  by (simp_all add: mv_read_def Let_def)

lemma slot_enable_frame:
  "last_raw off (pevs (c2811_slot_enable m s)) = last_raw off (pevs s)"
  "cfg cs0 (pevs (c2811_slot_enable m s)) a = cfg cs0 (pevs s) a"
  "mvdev (c2811_slot_enable m s) = mvdev s"
  by (simp_all add: c2811_slot_enable_def Let_def)

lemma init_windows_regs:
  "last_raw off (pevs (init_windows s)) =
    (if off = 0x0a0 then Some (swab32 0x01001800) else if off = 0x0a8 then Some (swab32 0x3ff)
     else if off = 0x110 then Some (swab32 0x1800) else if off = 0x340 then Some (swab32 0)
     else last_raw off (pevs s))"
  "cfg cs0 (pevs (init_windows s)) a = cfg cs0 (pevs s) a" "mvdev (init_windows s) = mvdev s"
  by (simp_all add: init_windows_def Let_def)

definition bridge_cmd :: "u32 \<Rightarrow> u32" where
  "bridge_cmd c = (c AND 0xffff0000) OR 0x2 OR 0x4 OR 0x1"

lemma init_command_regs:
  assumes "mvdev s = mv_dev cs0 r0"
  shows "off \<noteq> PCI1_CONFIG_ADDR \<Longrightarrow> off \<noteq> PCI1_CONFIG_DATA \<Longrightarrow>
      last_raw off (pevs (init_command s)) = last_raw off (pevs s)"
    and "cfg cs0 (pevs (init_command s)) a =
      (if a = 0x80000004 then bridge_cmd (cfg cs0 (pevs s) a) else cfg cs0 (pevs s) a)"
    and "mvdev (init_command s) = mvdev s"
proof -
  define s1 where "s1 = mv_write PCI1_CONFIG_ADDR 0x80000004 s"
  define s2 where "s2 = snd (mv_read PCI1_CONFIG_ADDR s1)"
  define s3 where "s3 = snd (mv_read PCI1_CONFIG_DATA s2)"
  define s4 where "s4 = mv_write PCI1_CONFIG_ADDR 0x80000004 s3"
  define s5 where "s5 = snd (mv_read PCI1_CONFIG_ADDR s4)"
  have d2: "mvdev s2 = mv_dev cs0 r0" using assms by (simp add: s2_def s1_def)
  have sel2: "cfg_sel (pevs s2) = 0x80000004" by (simp add: s2_def s1_def last_raw_read)
  have c2: "cfg cs0 (pevs s2) a = cfg cs0 (pevs s) a" for a by (simp add: s2_def s1_def last_raw_read)
  have "fst (mv_read PCI1_CONFIG_DATA s2) = cfg cs0 (pevs s) 0x80000004"
    using mv_read_dev(1) [OF d2] sel2 c2 by simp
  then have e: "init_command s = mv_write PCI1_CONFIG_DATA (bridge_cmd (cfg cs0 (pevs s) 0x80000004)) s5"
    by (simp add: init_command_def Let_def case_prod_unfold s5_def s4_def s3_def s2_def s1_def bridge_cmd_def)
  have sel5: "cfg_sel (pevs s5) = 0x80000004" by (simp add: s5_def s4_def last_raw_read)
  have c5: "cfg cs0 (pevs s5) a = cfg cs0 (pevs s) a" for a
    by (simp add: s5_def s4_def s3_def last_raw_read c2)
  show "off \<noteq> PCI1_CONFIG_ADDR \<Longrightarrow> off \<noteq> PCI1_CONFIG_DATA \<Longrightarrow>
      last_raw off (pevs (init_command s)) = last_raw off (pevs s)"
    by (simp add: e s5_def s4_def s3_def s2_def s1_def last_raw_read)
  show "cfg cs0 (pevs (init_command s)) a =
      (if a = 0x80000004 then bridge_cmd (cfg cs0 (pevs s) a) else cfg cs0 (pevs s) a)"
    by (simp add: e sel5 c5)
  show "mvdev (init_command s) = mvdev s" by (simp add: e s5_def s4_def s3_def s2_def s1_def)
qed

lemma mv_reg_reads [simp]:
  "mv_reg r0 (pevs (snd (mv_read o' s))) off = mv_reg r0 (pevs s) off"
  by (simp add: mv_reg_def last_raw_read)

lemma mv_reg_write [simp]:
  "mv_reg r0 (RawW o' (swab32 v) # h) off = (if o' = off then v else mv_reg r0 h off)"
  by (simp add: mv_reg_def)

lemma init_decode_regs:
  assumes "mvdev s = mv_dev cs0 r0"
  shows "mv_reg r0 (pevs (init_decode s)) off =
      (if off = 0xc00 \<or> off = 0xc80 then 0x00170F41
       else if off = BASE_ADDR_ENABLE
       then mv_reg r0 (pevs s) off AND NOT (push_bit 10 1 OR push_bit 15 1)
       else if off = 0xc3c \<or> off = 0xcbc then 0xFFFFFDFE else mv_reg r0 (pevs s) off)"
    and "cfg cs0 (pevs (init_decode s)) a = cfg cs0 (pevs s) a" and "mvdev (init_decode s) = mvdev s"
proof -
  define s2 where "s2 = mv_write 0xc80 0x00170F41 (mv_write 0xc00 0x00170F41 s)"
  have d2: "mvdev s2 = mv_dev cs0 r0" using assms by (simp add: s2_def)
  have r: "fst (mv_read BASE_ADDR_ENABLE s2) = mv_reg r0 (pevs s) BASE_ADDR_ENABLE"
    using mv_read_dev(2) [OF d2, of BASE_ADDR_ENABLE] by (simp add: s2_def)
  have e: "init_decode s = mv_write 0xcbc 0xFFFFFDFE (mv_write 0xc3c 0xFFFFFDFE
      (mv_write BASE_ADDR_ENABLE (mv_reg r0 (pevs s) BASE_ADDR_ENABLE AND NOT (push_bit 10 1 OR push_bit 15 1))
        (snd (mv_read BASE_ADDR_ENABLE s2))))"
    unfolding r [symmetric] by (simp add: init_decode_def Let_def case_prod_unfold s2_def)
  show "mv_reg r0 (pevs (init_decode s)) off =
      (if off = 0xc00 \<or> off = 0xc80 then 0x00170F41
       else if off = BASE_ADDR_ENABLE
       then mv_reg r0 (pevs s) off AND NOT (push_bit 10 1 OR push_bit 15 1)
       else if off = 0xc3c \<or> off = 0xcbc then 0xFFFFFDFE else mv_reg r0 (pevs s) off)"
    unfolding e by (simp add: s2_def del: push_bit_of_1)
  show "cfg cs0 (pevs (init_decode s)) a = cfg cs0 (pevs s) a" "mvdev (init_decode s) = mvdev s"
    by (simp_all add: e s2_def last_raw_read)
qed

lemma init_io_regs:
  assumes "mvdev s = mv_dev cs0 r0"
  shows "mv_reg r0 (pevs (init_io s)) off =
      (if off = 0x090 then 0x1C00 else if off = 0x098 then 0xf else if off = 0x108 then 0
       else if off = BASE_ADDR_ENABLE then mv_reg r0 (pevs s) off AND NOT (push_bit 14 1)
       else mv_reg r0 (pevs s) off)"
    and "cfg cs0 (pevs (init_io s)) a = cfg cs0 (pevs s) a"
proof -
  define s3 where "s3 = mv_write 0x108 0 (mv_write 0x098 0xf (mv_write 0x090 0x1C00 s))"
  have d3: "mvdev s3 = mv_dev cs0 r0" using assms by (simp add: s3_def)
  have r: "fst (mv_read BASE_ADDR_ENABLE s3) = mv_reg r0 (pevs s) BASE_ADDR_ENABLE"
    using mv_read_dev(2) [OF d3, of BASE_ADDR_ENABLE] by (simp add: s3_def)
  have e: "init_io s = snd (mv_read 0x108 (snd (mv_read 0x098 (snd (mv_read 0x090 (snd (mv_read BASE_ADDR_ENABLE
      (mv_write BASE_ADDR_ENABLE (mv_reg r0 (pevs s) BASE_ADDR_ENABLE AND NOT (push_bit 14 1))
        (snd (mv_read BASE_ADDR_ENABLE s3))))))))))"
    unfolding r [symmetric] by (simp add: init_io_def Let_def case_prod_unfold s3_def)
  show "mv_reg r0 (pevs (init_io s)) off =
      (if off = 0x090 then 0x1C00 else if off = 0x098 then 0xf else if off = 0x108 then 0
       else if off = BASE_ADDR_ENABLE then mv_reg r0 (pevs s) off AND NOT (push_bit 14 1)
       else mv_reg r0 (pevs s) off)"
    unfolding e by (simp add: s3_def del: push_bit_of_1)
  show "cfg cs0 (pevs (init_io s)) a = cfg cs0 (pevs s) a"
    by (simp add: e s3_def last_raw_read)
qed

lemma bit_bridge_cmd: "bit (bridge_cmd c) n \<longleftrightarrow> n < 3 \<or> (16 \<le> n \<and> bit c n)"
proof -
  have m: "(0xffff0000 :: u32) = NOT (mask 16)" "(0x2 :: u32) OR 0x4 OR 0x1 = mask 3"
    by (simp_all add: mask_eq_exp_minus_1)
  have e: "bridge_cmd c = (c AND NOT (mask 16)) OR mask 3"
    unfolding bridge_cmd_def m(1) or.assoc m(2) ..
  have "bit c n \<Longrightarrow> n < 32" by (auto dest: bit_imp_le_length)
  then show ?thesis
    by (auto simp: e bit_or_iff bit_and_iff bit_not_iff bit_mask_iff)
qed

lemma enabled_bits: "bit (w AND NOT (push_bit 10 1 OR push_bit 15 1) AND NOT (push_bit 14 1) :: u32) n \<longleftrightarrow>
    bit w n \<and> n \<noteq> 10 \<and> n \<noteq> 14 \<and> n \<noteq> 15"
proof -
  have "bit w n \<Longrightarrow> n < 32" by (auto dest: bit_imp_le_length)
  then show ?thesis
    by (auto simp del: push_bit_of_1 simp: bit_or_iff bit_and_iff bit_not_iff bit_push_bit_iff bit_1_iff)
qed

lemma bring_up_state:
  assumes "mvdev s = mv_dev cs0 r0"
  shows "\<exists>u. c2811_pci_init True cpld_ok s = (0, u\<lparr>pevs := RegisterController # SetIoBase 0xbc000000 # pevs u\<rparr>) \<and>
    cfg cs0 (pevs u) 0x80000004 = bridge_cmd (cfg cs0 (pevs s) 0x80000004) \<and>
    mv_reg r0 (pevs u) BASE_ADDR_ENABLE =
      mv_reg r0 (pevs s) BASE_ADDR_ENABLE AND NOT (push_bit 10 1 OR push_bit 15 1) AND NOT (push_bit 14 1) \<and>
    map (mv_reg r0 (pevs u)) [0x0a0, 0x0a8, 0x110, 0x340, 0x090, 0x098, 0x108] =
      [0x01001800, 0x3ff, 0x1800, 0, 0x1C00, 0xf, 0]"
proof -
  define s1 where "s1 = c2811_slot_enable cpld_ok s"
  define s2 where "s2 = init_windows s1"
  define s3 where "s3 = init_command s2"
  define s4 where "s4 = init_decode s3"
  define s5 where "s5 = init_io s4"
  have d2: "mvdev s2 = mv_dev cs0 r0"
    using assms by (simp add: s2_def s1_def init_windows_regs slot_enable_frame)
  note C = init_command_regs [OF d2, folded s3_def]
  have d3: "mvdev s3 = mv_dev cs0 r0" using C(3) d2 by simp
  note D = init_decode_regs [OF d3, folded s4_def]
  have d4: "mvdev s4 = mv_dev cs0 r0" using D(3) d3 by simp
  note I = init_io_regs [OF d4, folded s5_def]
  have k: "CKSEG1ADDR PCI1_IO_CPU_BASE = 0xbc000000" by (simp add: CKSEG1ADDR_def)
  have e: "c2811_pci_init True cpld_ok s =
      (0, s5\<lparr>pevs := RegisterController # SetIoBase 0xbc000000 # pevs s5\<rparr>)"
    using k by (simp add: c2811_pci_init_def Let_def s5_def s4_def s3_def s2_def s1_def)
  have r2: "mv_reg r0 (pevs s3) off = mv_reg r0 (pevs s2) off" if "off \<noteq> PCI1_CONFIG_ADDR" "off \<noteq> PCI1_CONFIG_DATA" for off
    using C(1) [OF that] by (simp add: mv_reg_def)
  have r1: "mv_reg r0 (pevs s2) off = (if off = 0x0a0 then 0x01001800 else if off = 0x0a8 then 0x3ff
      else if off = 0x110 then 0x1800 else if off = 0x340 then 0 else mv_reg r0 (pevs s) off)" for off
    by (simp add: mv_reg_def s2_def s1_def init_windows_regs slot_enable_frame)
  have c2: "cfg cs0 (pevs s2) a = cfg cs0 (pevs s) a" for a
    by (simp add: s2_def s1_def init_windows_regs slot_enable_frame)
  have cmd: "cfg cs0 (pevs s5) 0x80000004 = bridge_cmd (cfg cs0 (pevs s) 0x80000004)"
    using I(2) D(2) C(2) c2 by simp
  have bae: "mv_reg r0 (pevs s5) BASE_ADDR_ENABLE =
      mv_reg r0 (pevs s) BASE_ADDR_ENABLE AND NOT (push_bit 10 1 OR push_bit 15 1) AND NOT (push_bit 14 1)"
    unfolding I(1) D(1) by (simp add: r2 r1 and.assoc del: push_bit_of_1)
  show ?thesis
    by (rule exI [of _ s5], unfold e cmd bae) (simp add: I(1) D(1) r2 r1)
qed

text \<open>C22. On the documented bridge, initialisation succeeds and leaves: memory, bus master and I/O
  enabled in the bridge's command word with parity and SERR reporting off and its upper half kept;
  the CPU decode of both PCI memory windows and of the PCI1 I/O window switched on and every other
  decode bit as it was; the PCI1 memory window at the address and of the size of the memory resource that the PCI core is
  handed, to the byte, with the remap equal to the window; the PCI1 I/O window at its address and mapped from port 0, with
  the whole of the I/O resource inside it; and only then registers the controller.  If the registers cannot be
  mapped it fails with -ENOMEM and touches nothing.\<close>

theorem pci_bring_up:
  assumes "mvdev s = mv_dev cs0 r0"
  shows "(case c2811_pci_init mapped cpld_ok s of (rc, s') \<Rightarrow>
    if mapped then rc = 0 \<and>
      (\<forall>n. bit (cfg cs0 (pevs s') 0x80000004) n \<longleftrightarrow> n < 3 \<or> (16 \<le> n \<and> bit (cfg cs0 (pevs s) 0x80000004) n)) \<and>
      (\<forall>n. bit (mv_reg r0 (pevs s') BASE_ADDR_ENABLE) n \<longleftrightarrow>
        bit (mv_reg r0 (pevs s) BASE_ADDR_ENABLE) n \<and> n \<noteq> 10 \<and> n \<noteq> 14 \<and> n \<noteq> 15) \<and>
      mv_reg r0 (pevs s') 0x110 = 0x1800 \<and> mv_reg r0 (pevs s') 0x0a0 = 0x01001800 \<and>
      rstart (mem_resource c2811_pci_controller) = push_bit 16 (mv_reg r0 (pevs s') 0x110) \<and>
      rend (mem_resource c2811_pci_controller) - rstart (mem_resource c2811_pci_controller) =
        push_bit 16 (mv_reg r0 (pevs s') 0x0a8 + 1) - 1 \<and>
      mv_reg r0 (pevs s') 0x090 = 0x1C00 \<and> mv_reg r0 (pevs s') 0x108 = 0 \<and>
      0 < rstart (io_resource c2811_pci_controller) \<and>
      rend (io_resource c2811_pci_controller) < push_bit 16 (mv_reg r0 (pevs s') 0x098 + 1) \<and>
      (\<exists>h. pevs s' = RegisterController # SetIoBase 0xbc000000 # h)
    else rc = - ENOMEM \<and> s' = s)"
proof (cases mapped)
  case False
  then show ?thesis by (simp add: c2811_pci_init_def)
next
  case True
  from bring_up_state [OF assms, of cpld_ok] obtain u where
      e: "c2811_pci_init True cpld_ok s = (0, u\<lparr>pevs := RegisterController # SetIoBase 0xbc000000 # pevs u\<rparr>)"
    and cmd: "cfg cs0 (pevs u) 0x80000004 = bridge_cmd (cfg cs0 (pevs s) 0x80000004)"
    and bae: "mv_reg r0 (pevs u) BASE_ADDR_ENABLE =
      mv_reg r0 (pevs s) BASE_ADDR_ENABLE AND NOT (push_bit 10 1 OR push_bit 15 1) AND NOT (push_bit 14 1)"
    and w: "map (mv_reg r0 (pevs u)) [0x0a0, 0x0a8, 0x110, 0x340, 0x090, 0x098, 0x108] =
      [0x01001800, 0x3ff, 0x1800, 0, 0x1C00, 0xf, 0]"
    by (elim exE conjE) (rule that)
  have x: "mv_reg r0 (RegisterController # SetIoBase v # h) off = mv_reg r0 h off"
      "cfg cs0 (RegisterController # SetIoBase v # h) a = cfg cs0 h a" for v h off a
    by (simp_all add: mv_reg_def)
  have bits: "bit (mv_reg r0 (pevs u) BASE_ADDR_ENABLE) n \<longleftrightarrow>
      bit (mv_reg r0 (pevs s) BASE_ADDR_ENABLE) n \<and> n \<noteq> 10 \<and> n \<noteq> 14 \<and> n \<noteq> 15" for n
    unfolding bae by (rule enabled_bits)
  show ?thesis
    using True
    by (simp add: e x cmd bits w [simplified] bit_bridge_cmd c2811_pci_controller_def c2811_pci_mem_def c2811_pci_io_def)
qed

theorem pci_bring_up_witness:
  "bit (cfg (\<lambda>a. 0x12345678) (pevs (snd (c2811_pci_init True True demo_bridge))) 0x80000004) 2 \<and>
   \<not> bit (cfg (\<lambda>a. 0x12345678) (pevs (snd (c2811_pci_init True True demo_bridge))) 0x80000004) 6"
proof -
  have d: "mvdev demo_bridge = mv_dev (\<lambda>a. 0x12345678) (\<lambda>off. 0)" by (simp add: demo_bridge_def)
  from pci_bring_up [OF d, of True True] show ?thesis by (simp add: case_prod_unfold)
qed

text \<open>The fixup leaves the bridge no resource at all, keeps their number, and classes it as a host
  bridge.\<close>

lemma bridge_keeps_no_resource:
  "list_all (\<lambda>r. r = zero_resource) (resources (c2811_bridge_no_resources d)) \<and>
   length (resources (c2811_bridge_no_resources d)) = length (resources d) \<and>
   dclass (c2811_bridge_no_resources d) = 0x060000"
proof -
  have "foldl (\<lambda>rs i. rs[i := zero_resource]) rs [0..<n] = replicate n zero_resource @ drop n rs"
    if "n \<le> length rs" for n rs
    using that
  proof (induction n)
    case (Suc n)
    then show ?case
      by (simp add: list_update_append replicate_append_same [symmetric] del: replicate_append_same)
        (metis Cons_nth_drop_Suc Suc_le_eq list_update_code(2) replicate_app_Cons_same)
  qed simp
  from this [of "length (resources d)" "resources d"] show ?thesis
    by (simp add: c2811_bridge_no_resources_def Let_def list_all_iff)
qed

end
