(* ===== verification/C2811_Board.thy ===== *)
theory C2811_Board
  imports C2811_Pci
begin

text \<open>
  The board file: \<open>kernel/cisco2811/setup.c\<close>, \<open>serial.c\<close>, \<open>time.c\<close>, \<open>eth.c\<close>, the device table of \<open>pata.c\<close>
  and the constants of \<open>cisco2811.h\<close>.  These files hand addresses and interrupt numbers to the kernel;
  the model keeps what they hand over.  Constants of the kernel's own headers (where the Ethernet
  block sits in the controller, the generic interrupt number of its port) are arguments.
\<close>

section \<open>Constants\<close>

definition C2811_DRAM_SIZE :: nat where "C2811_DRAM_SIZE = 256 * 2 ^ 20"
definition C2811_UART0_BASE :: nat where "C2811_UART0_BASE = 0x1fa80000"
definition C2811_UART1_BASE :: nat where "C2811_UART1_BASE = 0x1fa80040"
definition C2811_UART_REGSHIFT :: nat where "C2811_UART_REGSHIFT = 3"
definition C2811_UART_CLK :: nat where "C2811_UART_CLK = 3686400"
definition C2811_HPT_FREQUENCY :: nat where "C2811_HPT_FREQUENCY = 175000000"
definition C2811_CF_BASE :: nat where "C2811_CF_BASE = 0x1FB00000"
definition C2811_MV64340_BASE :: nat where "C2811_MV64340_BASE = 0x14000000"
definition C2811_MV_IRQ_BASE :: nat where "C2811_MV_IRQ_BASE = 8"
definition C2811_MV_NR_IRQS :: nat where "C2811_MV_NR_IRQS = 64"
definition C2811_ETH_PHY_ADDR :: nat where "C2811_ETH_PHY_ADDR = 1"
definition C2811_ETH_PORT0 :: nat where "C2811_ETH_PORT0 = 0"
definition C2811_ETH_PORT1 :: nat where "C2811_ETH_PORT1 = 1"
definition C2811_DMA_BASE :: nat where "C2811_DMA_BASE = 0x00600000"
definition C2811_DMA_SIZE :: nat where "C2811_DMA_SIZE = 0x00200000"

lemmas board_consts = C2811_DRAM_SIZE_def C2811_UART0_BASE_def C2811_UART1_BASE_def C2811_UART_REGSHIFT_def
  C2811_UART_CLK_def C2811_HPT_FREQUENCY_def C2811_CF_BASE_def C2811_MV64340_BASE_def C2811_MV_IRQ_BASE_def
  C2811_MV_NR_IRQS_def C2811_ETH_PHY_ADDR_def C2811_DMA_BASE_def C2811_DMA_SIZE_def

section \<open>Devices\<close>

datatype reskind = IORESOURCE_MEM | IORESOURCE_IRQ

record hwres =
  rname :: string
  rstart :: nat
  rend :: nat
  rflags :: reskind

datatype iotype = UPIO_MEM

datatype upf = UPF_IOREMAP | UPF_BOOT_AUTOCONF | UPF_SKIP_TEST

record uart =
  mapbase :: nat
  uirq :: nat
  uartclk :: nat
  uiotype :: iotype
  regshift :: nat
  uflags :: "upf list"

record eth_port =
  shared_dev :: "string \<times> int"
  port_number :: nat
  phy_addr :: nat
  mac_addr :: "u8 list"

datatype pdata = NoData | Uarts "uart list" | EthShared nat | EthPort eth_port

record platdev =
  pname :: string
  pid :: int
  resources :: "hwres list"
  platform_data :: pdata

definition mem_res :: "string \<Rightarrow> nat \<Rightarrow> nat \<Rightarrow> hwres" where
  "mem_res nm a b = \<lparr>rname = nm, rstart = a, rend = b, rflags = IORESOURCE_MEM\<rparr>"

definition irq_res :: "string \<Rightarrow> nat \<Rightarrow> hwres" where
  "irq_res nm n = \<lparr>rname = nm, rstart = n, rend = n, rflags = IORESOURCE_IRQ\<rparr>"

definition uart_flags :: "upf list" where
  "uart_flags = [UPF_IOREMAP, UPF_BOOT_AUTOCONF, UPF_SKIP_TEST]"

definition c2811_serial8250_port :: "uart list" where
  "c2811_serial8250_port =
     [\<lparr>mapbase = C2811_UART0_BASE, uirq = 0, uartclk = C2811_UART_CLK,
         uiotype = UPIO_MEM, regshift = C2811_UART_REGSHIFT, uflags = uart_flags\<rparr>,
      \<lparr>mapbase = C2811_UART1_BASE, uirq = 0, uartclk = C2811_UART_CLK,
         uiotype = UPIO_MEM, regshift = C2811_UART_REGSHIFT, uflags = uart_flags\<rparr>]"

text \<open>\<open>PLAT8250_DEV_PLATFORM\<close> is -1.\<close>

definition c2811_serial8250_device :: platdev where
  "c2811_serial8250_device = \<lparr>pname = ''serial8250'', pid = -1, resources = [],
     platform_data = Uarts c2811_serial8250_port\<rparr>"

definition c2811_serial_init :: "(platdev \<Rightarrow> int) \<Rightarrow> int" where
  "c2811_serial_init platform_device_register = platform_device_register c2811_serial8250_device"

definition c2811_cf_device :: platdev where
  "c2811_cf_device = \<lparr>pname = ''pata_cisco2811'', pid = -1,
     resources = [mem_res '''' C2811_CF_BASE (C2811_CF_BASE + 0x40 - 1)], platform_data = NoData\<rparr>"

text \<open>\<open>shared\<close> and \<open>shared_size\<close> are \<open>MV643XX_ETH_SHARED_REGS\<close> and its size, \<open>irqbit\<close> the configured interrupt bit.\<close>

definition MV_ETH_REGS_BASE :: "nat \<Rightarrow> nat" where
  "MV_ETH_REGS_BASE shared = C2811_MV64340_BASE + shared"

definition c2811_eth_shared_device :: "nat \<Rightarrow> nat \<Rightarrow> platdev" where
  "c2811_eth_shared_device shared shared_size = \<lparr>pname = ''mv643xx_eth'', pid = 0,
     resources = [mem_res ''ethernet shared base'' (MV_ETH_REGS_BASE shared) (MV_ETH_REGS_BASE shared + shared_size - 1)],
     platform_data = EthShared 0\<rparr>"

definition MV_ETH_SMI_REG :: nat where "MV_ETH_SMI_REG = C2811_MV64340_BASE + 0x2004"

definition c2811_mdio_device :: platdev where
  "c2811_mdio_device = \<lparr>pname = ''orion-mdio'', pid = -1,
     resources = [mem_res ''orion-mdio smi'' MV_ETH_SMI_REG (MV_ETH_SMI_REG + 0x83)], platform_data = NoData\<rparr>"

text \<open>\<open>MV643XX_ETH_PHY_ADDR (x)\<close> marks the address as given.\<close>

definition c2811_eth0_device :: "(nat \<Rightarrow> nat) \<Rightarrow> nat \<Rightarrow> platdev" where
  "c2811_eth0_device phy irqbit = \<lparr>pname = ''mv643xx_eth_port'', pid = 0,
     resources = [irq_res ''eth0 irq'' (C2811_MV_IRQ_BASE + irqbit)],
     platform_data = EthPort \<lparr>shared_dev = (''mv643xx_eth'', 0), port_number = C2811_ETH_PORT0, phy_addr = phy C2811_ETH_PHY_ADDR,
       mac_addr = [0x00, 0x22, 0x55, 0x22, 0xc3, 0xa8]\<rparr>\<rparr>"

definition c2811_eth1_device :: "(nat \<Rightarrow> nat) \<Rightarrow> nat \<Rightarrow> platdev" where
  "c2811_eth1_device phy irqbit = \<lparr>pname = ''mv643xx_eth_port'', pid = 1,
     resources = [irq_res ''eth1 irq'' (C2811_MV_IRQ_BASE + irqbit + 1)],
     platform_data = EthPort \<lparr>shared_dev = (''mv643xx_eth'', 0), port_number = C2811_ETH_PORT1, phy_addr = phy (C2811_ETH_PHY_ADDR + 1),
       mac_addr = [0x00, 0x22, 0x55, 0x22, 0xc3, 0xa9]\<rparr>\<rparr>"

definition c2811_eth_devices :: "nat \<Rightarrow> nat \<Rightarrow> (nat \<Rightarrow> nat) \<Rightarrow> nat \<Rightarrow> platdev list" where
  "c2811_eth_devices shared shared_size phy irqbit =
     [c2811_eth_shared_device shared shared_size, c2811_mdio_device, c2811_eth0_device phy irqbit, c2811_eth1_device phy irqbit]"

definition c2811_eth_init :: "(platdev list \<Rightarrow> int) \<Rightarrow> nat \<Rightarrow> nat \<Rightarrow> (nat \<Rightarrow> nat) \<Rightarrow> nat \<Rightarrow> int" where
  "c2811_eth_init platform_add_devices shared shared_size phy irqbit =
     platform_add_devices (c2811_eth_devices shared shared_size phy irqbit)"

section \<open>Boot\<close>

datatype bact = LocalIrqDisable | JumpTo u32 | RelaxForever

record boot =
  machine_restart :: "bact list"
  machine_halt :: "bact list"
  mem_added :: "(nat \<times> nat) list"
  mem_reserved :: "(nat \<times> nat) list"
  early_port :: "(u32 \<times> nat \<times> nat) option"
  hpt_frequency :: nat

definition boot_start :: boot where
  "boot_start = \<lparr>machine_restart = [], machine_halt = [], mem_added = [], mem_reserved = [],
     early_port = None, hpt_frequency = 0\<rparr>"

definition get_system_type :: string where
  "get_system_type = ''Cisco 2811 (RM52xx Nevada, Marvell MV64340)''"

definition c2811_machine_restart :: "bact list" where
  "c2811_machine_restart = [LocalIrqDisable, JumpTo 0xBFC00000]"

definition c2811_machine_halt :: "bact list" where
  "c2811_machine_halt = [LocalIrqDisable, RelaxForever]"

definition prom_init :: "boot \<Rightarrow> boot" where
  "prom_init b =
     (let b = b\<lparr>mem_added := (0, C2811_DRAM_SIZE) # mem_added b\<rparr>
      in b\<lparr>early_port := Some (CKSEG1ADDR (word_of_nat C2811_UART0_BASE), C2811_UART_REGSHIFT, 0)\<rparr>)"

definition plat_mem_setup :: "boot \<Rightarrow> boot" where
  "plat_mem_setup b =
     (let b = b\<lparr>machine_restart := c2811_machine_restart\<rparr>;
          b = b\<lparr>machine_halt := c2811_machine_halt\<rparr>
      in b\<lparr>mem_reserved := (C2811_DMA_BASE, C2811_DMA_SIZE) # mem_reserved b\<rparr>)"

definition plat_time_init :: "boot \<Rightarrow> boot" where
  "plat_time_init b = b\<lparr>hpt_frequency := C2811_HPT_FREQUENCY\<rparr>"

definition prom_free_prom_memory :: "boot \<Rightarrow> boot" where
  "prom_free_prom_memory b = b"

text \<open>The order in which the MIPS kernel calls them.\<close>

definition c2811_boot :: "boot \<Rightarrow> boot" where
  "c2811_boot b = prom_free_prom_memory (plat_time_init (plat_mem_setup (prom_init b)))"

end
