(* ===== verification/Nm32a_Lab.thy ===== *)
theory Nm32a_Lab
  imports Nm32a_Tty C2811_Board
begin

text \<open>
  The bring-up tests of \<open>nm32a.c\<close>, first half: the DMA test in stages (\<open>nm32a_stage\<close>), the register
  dump, the searches for the acknowledge address (\<open>nm32a_find_iack\<close>, \<open>nm32a_hunt_ack\<close>,
  \<open>nm32a_io_probe\<close>) and the two transmit tests of the character path.  They are started through
  sysfs and, unlike the tty code, do not take \<open>hw_lock\<close>.

  What only these tests reach is a second parameter, again functions of the log: the DMA scratch
  memory, half-word reads of the BAR, the card's I/O ports and the microsecond clock.
\<close>

section \<open>What the tests reach\<close>

record labenv =
  dma_mem :: "cev list \<Rightarrow> nat \<Rightarrow> u8"
  bar_w :: "cev list \<Rightarrow> nat \<Rightarrow> u16 option"
  io_in :: "cev list \<Rightarrow> nat \<Rightarrow> u8 option"
  us_clock :: "cev list \<Rightarrow> int"
  io_start :: nat
  io_len :: nat

definition dma_wr :: "nat \<Rightarrow> u8 \<Rightarrow> nm32a \<Rightarrow> nm32a" where
  "dma_wr a v s = ev (Io (DmaWr a v)) s"

definition dma_rd :: "labenv \<Rightarrow> nat \<Rightarrow> nm32a \<Rightarrow> u8 \<times> nm32a" where
  "dma_rd E a s = (let v = dma_mem E (evs s) a in (v, ev (Io (DmaRd a v)) s))"

definition rdw :: "labenv \<Rightarrow> nat \<Rightarrow> nm32a \<Rightarrow> (u16 \<times> nm32a) option" where
  "rdw E a s = (case bar_w E (evs s) a of None \<Rightarrow> None | Some v \<Rightarrow> Some (v, ev (Io (BarRdW a v)) s))"

definition inb :: "labenv \<Rightarrow> nat \<Rightarrow> nm32a \<Rightarrow> (u8 \<times> nm32a) option" where
  "inb E a s = (case io_in E (evs s) a of None \<Rightarrow> None | Some v \<Rightarrow> Some (v, ev (Io (InB a v)) s))"

text \<open>\<open>mdelay (n)\<close> is \<open>udelay (n * 1000)\<close>.\<close>

definition mdelay :: "int \<Rightarrow> nm32a \<Rightarrow> nm32a" where
  "mdelay n s = ev (Udelay (n * 1000)) s"

text \<open>A run of register reads, as in the arguments of a message.\<close>

fun crds :: "nat \<Rightarrow> nat list \<Rightarrow> nm32a \<Rightarrow> (u8 list \<times> nm32a) option" where
  "crds c [] s = Some ([], s)"
| "crds c (r # rs) s = do {
     (v, s) \<leftarrow> crd c r s;
     (vs, s) \<leftarrow> crds c rs s;
     Some (v # vs, s)
   }"

text \<open>\<open>for (n = 0; n < N; n++) if (crd (reg) & 0x80) break;\<close> and the count it leaves in \<open>n\<close>.\<close>

fun poll_hi :: "nat \<Rightarrow> nat \<Rightarrow> nat \<Rightarrow> nm32a \<Rightarrow> (nat \<times> nm32a) option" where
  "poll_hi 0 c r s = Some (0, s)"
| "poll_hi (Suc n) c r s = do {
     (v, s) \<leftarrow> crd c r s;
     if v AND 0x80 \<noteq> 0 then Some (0, s)
     else do { (k, s) \<leftarrow> poll_hi n c r s; Some (Suc k, s) }
   }"

abbreviation (input) OWN :: u8 where "OWN \<equiv> 0x01"
abbreviation (input) D_INTR :: u8 where "D_INTR \<equiv> 0x02"
abbreviation (input) D_EOF :: u8 where "D_EOF \<equiv> 0x40"
abbreviation (input) IACK_LIVR :: u8 where "IACK_LIVR \<equiv> 0x5C"

section \<open>The DMA test, in stages\<close>

definition stage_msg :: "u8 list" where
  "stage_msg = map of_char ''DMA-TEST''"

definition stage_regs :: "nat \<Rightarrow> (nat \<times> u8) list" where
  "stage_regs ch =
     [(TPR, 0x40), (CAR, word_of_nat ch AND 3), (LIVR, 0x40), (RCOR, 0x00), (RBPR, 0x81), (TCOR, 0x02),
      (TBPR, 0x81), (CMR, 0xC2), (COR1, 0x17), (COR2, 0x20), (COR3, 0x02), (COR4, 0x08), (COR5, 0x00),
      (COR6, 0x00), (COR7, 0x00), (STCR, 0x00), (DMR, 0x00), (CCR, CCR_INITCH)]"

text \<open>The wait for the transmit buffer to be taken (the last status read) and for the first received byte.\<close>

fun own_poll :: "nat \<Rightarrow> nat \<Rightarrow> u8 \<Rightarrow> nm32a \<Rightarrow> (u8 \<times> nm32a) option" where
  "own_poll 0 c st s = Some (st, s)"
| "own_poll (Suc n) c st s = do {
     (st, s) \<leftarrow> crd c ATBSTS s;
     if st AND OWN = 0 then Some (st, s) else own_poll n c st (ev (Udelay 10) s)
   }"

fun dma_poll :: "nat \<Rightarrow> labenv \<Rightarrow> nat \<Rightarrow> nm32a \<Rightarrow> nm32a" where
  "dma_poll 0 E a s = s"
| "dma_poll (Suc n) E a s =
     (let (v, s) = dma_rd E a s in if v \<noteq> 0 then s else dma_poll n E a (ev (Udelay 10) s))"

text \<open>The comparison stops at the first byte that differs.\<close>

fun dma_compare :: "labenv \<Rightarrow> nat \<Rightarrow> u8 list \<Rightarrow> nm32a \<Rightarrow> bool \<times> nm32a" where
  "dma_compare E a [] s = (True, s)"
| "dma_compare E a (m # ms) s =
     (let (v, s) = dma_rd E a s in if v \<noteq> m then (False, s) else dma_compare E (a + 1) ms s)"

definition STAGE_TRIES :: nat where "STAGE_TRIES = 200000"

definition stage_fill :: "nm32a \<Rightarrow> nm32a" where
  "stage_fill s =
     (let s = foldl (\<lambda>s i. dma_wr i (stage_msg ! i) s) s [0..<8]
      in foldl (\<lambda>s i. dma_wr (0x1000 + i) 0 s) s [0..<16])"

definition arm_rx_desc :: "nat \<Rightarrow> u32 \<Rightarrow> nm32a \<Rightarrow> nm32a" where
  "arm_rx_desc c rxp s =
     (let s = cwr16 c ARBADRU (ucast (drop_bit 16 rxp)) s;
          s = cwr16 c ARBADRL (ucast (rxp AND 0xffff)) s;
          s = cwr16 c ARBCNT 256 s
      in cwr c ARBSTS (OWN OR D_INTR) s)"

definition arm_tx_desc :: "nat \<Rightarrow> u32 \<Rightarrow> nm32a \<Rightarrow> nm32a" where
  "arm_tx_desc c txp s =
     (let s = cwr16 c ATBADRU (ucast (drop_bit 16 txp)) s;
          s = cwr16 c ATBADRL (ucast (txp AND 0xffff)) s;
          s = cwr16 c ATBCNT 8 s
      in cwr c ATBSTS (OWN OR D_INTR OR D_EOF) s)"

definition stage_move :: "labenv \<Rightarrow> nat \<Rightarrow> nm32a \<Rightarrow> (int \<times> nm32a) option" where
  "stage_move E c s = do {
     (st, s) \<leftarrow> own_poll STAGE_TRIES c 0 s;
     if st AND OWN \<noteq> 0 then Some (- EIO, s)
     else do {
       let s = dma_poll STAGE_TRIES E 0x1000 s;
       (_, s) \<leftarrow> crd c ARBSTS s;
       let (_, s) = dma_rd E 0x1000 s;
       let (_, s) = dma_rd E 0x1001 s;
       let (_, s) = dma_rd E 0x1002 s;
       let (_, s) = dma_rd E 0x1003 s;
       let (ok, s) = dma_compare E 0x1000 stage_msg s;
       Some (if ok then 0 else - EIO, s)
     }
   }"

definition nm32a_stage :: "labenv \<Rightarrow> nat \<Rightarrow> nat \<Rightarrow> int \<Rightarrow> nm32a \<Rightarrow> (int \<times> nm32a) option" where
  "nm32a_stage E c ch stage s = do {
     let txp = word_of_nat C2811_DMA_BASE;
     let rxp = word_of_nat C2811_DMA_BASE + 0x1000;
     let s = stage_fill s;
     let s = cwrs c (stage_regs ch) s;
     (rc, s) \<leftarrow> ccr_wait c s;
     if rc \<noteq> 0 then Some (- ETIMEDOUT, s)
     else do {
       (_, s) \<leftarrow> crds c [CSR, CMR] s;
       if stage < 2 then Some (0, s)
       else do {
         let s = arm_rx_desc c rxp s;
         (_, s) \<leftarrow> crd c ARBSTS s;
         if stage < 3 then Some (0, s)
         else do {
           let s = arm_tx_desc c txp s;
           (_, s) \<leftarrow> crd c ATBSTS s;
           if stage < 4 then Some (0, s)
           else do {
             let s = cwr c CCR (CCR_ENTX OR CCR_ENRX) s;
             (rc, s) \<leftarrow> ccr_wait c s;
             if rc \<noteq> 0 then Some (- ETIMEDOUT, s)
             else stage_move E c (cwr c IER 0x09 s)
           }
         }
       }
     }
   }"

section \<open>The register dump\<close>

definition dump_chan :: "nat \<Rightarrow> nm32a \<Rightarrow> nat \<Rightarrow> nm32a option" where
  "dump_chan c s ch = do {
     let s = cwr c CAR (word_of_nat ch) s;
     (_, s) \<leftarrow> crds c [CMR, CSR, IER, TBPR, TCOR, RBPR, RCOR] s;
     (_, s) \<leftarrow> crds c [ARBADRU, ARBADRU + 1, ARBADRL, ARBADRL + 1, ARBCNT, ARBCNT + 1, ARBSTS,
                      ATBADRU, ATBADRU + 1, ATBADRL, ATBADRL + 1, ATBCNT, ATBCNT + 1, ATBSTS] s;
     Some s
   }"

text \<open>A loop whose body may not return.\<close>

fun each :: "('a \<Rightarrow> nm32a \<Rightarrow> nm32a option) \<Rightarrow> 'a list \<Rightarrow> nm32a \<Rightarrow> nm32a option" where
  "each f [] s = Some s"
| "each f (x # xs) s = do { s \<leftarrow> f x s; each f xs s }"

definition nm32a_dump :: "nm32a \<Rightarrow> nm32a option" where
  "nm32a_dump s = do {
     (_, s) \<leftarrow> rdb (Bar NM32A_PORTS) s;
     (_, s) \<leftarrow> rdb (Bar (NM32A_PORTS + 1)) s;
     (_, s) \<leftarrow> rdb (Bar NM32A_CTL) s;
     (_, s) \<leftarrow> rdb (Bar (NM32A_CTL + 1)) s;
     each (\<lambda>c s. do {
       (_, s) \<leftarrow> crd c GFRCR s;
       each (\<lambda>ch s. dump_chan c s ch) [0, 1, 2, 3] s
     }) [0..<NM32A_CHIPS] s
   }"

section \<open>Searching for the acknowledge address\<close>

text \<open>\<open>a & ~0xff\<close>, and the two ways in which the searches leave out the chip windows.\<close>

definition page :: "nat \<Rightarrow> nat" where
  "page a = a div 256 * 256"

definition own_window :: "nat \<Rightarrow> bool" where
  "own_window a \<longleftrightarrow> page a = 0x400 \<or> page a = 0x500 \<or> page a = 0x600 \<or> page a = 0x700 \<or>
     page a = 0x900 \<or> page a = 0xA00 \<or> page a = 0xB00 \<or> page a = 0xC00"

definition near_window :: "nat \<Rightarrow> bool" where
  "near_window a \<longleftrightarrow> 0x400 \<le> page a \<and> page a \<le> 0xC00"

abbreviation (input) BAR_LEN :: nat where "BAR_LEN \<equiv> 0x100000"

text \<open>The scan by bytes: the hits so far go in and come out, and twelve stop it.\<close>

fun scan_bytes :: "nat \<Rightarrow> nat list \<Rightarrow> nat \<Rightarrow> nm32a \<Rightarrow> (nat \<times> nm32a) option" where
  "scan_bytes c [] hits s = Some (hits, s)"
| "scan_bytes c (a # as) hits s =
     (if own_window a then scan_bytes c as hits s
      else do {
        (v, s) \<leftarrow> rdb (Bar a) s;
        if v AND 0xFC = IACK_LIVR
        then do {
          (_, s) \<leftarrow> crds c [TIR, TFTC] s;
          if hits + 1 \<ge> 12 then Some (hits + 1, s) else scan_bytes c as (hits + 1) s
        }
        else scan_bytes c as hits s
      })"

text \<open>The scan by half-words, which stops at twelve hits in all.\<close>

fun scan_halves :: "labenv \<Rightarrow> nat \<Rightarrow> nat list \<Rightarrow> nat \<Rightarrow> nm32a \<Rightarrow> (nat \<times> nm32a) option" where
  "scan_halves E c [] hits s = Some (hits, s)"
| "scan_halves E c (a # as) hits s =
     (if \<not> hits < 12 then Some (hits, s)
      else if near_window a then scan_halves E c as hits s
      else do {
        (h, s) \<leftarrow> rdw E a s;
        if h AND 0xFC = 0x5C \<or> drop_bit 8 h AND 0xFC = 0x5C
        then do { (_, s) \<leftarrow> crd c TIR s; scan_halves E c as (hits + 1) s }
        else scan_halves E c as hits s
      })"

definition iack_regs :: "nm32a \<Rightarrow> (nat \<times> u8) list" where
  "iack_regs s =
     [(RPILR, word_of_nat (NM32A_ACK_RX s)), (TPILR, word_of_nat (NM32A_ACK_TX s)),
      (MPILR, word_of_nat (NM32A_ACK_MD s)), (CAR, 0), (LIVR, IACK_LIVR), (RCOR, 0x00), (RBPR, 0x81),
      (TCOR, 0x00), (TBPR, 0x81), (CMR, 0x02), (COR1, 0x17), (COR2, 0x00), (COR3, 0x02), (COR4, 0x08),
      (COR5, 0x00), (CCR, CCR_INITCH)]"

definition read_io_bar :: "labenv \<Rightarrow> nm32a \<Rightarrow> nm32a option" where
  "read_io_bar E s =
     (if io_len E \<noteq> 0
      then each (\<lambda>i s. do { (_, s) \<leftarrow> inb E (io_start E + i) s; (_, s) \<leftarrow> crds 0 [TIR, TFTC] s; Some s }) [0..<16] s
      else Some s)"

definition nm32a_find_iack :: "labenv \<Rightarrow> nm32a \<Rightarrow> nm32a option" where
  "nm32a_find_iack E s = do {
     let s = cwrs 0 (iack_regs s) s;
     (_, s) \<leftarrow> ccr_wait 0 s;
     let s = cwr 0 CCR (CCR_ENTX OR CCR_ENRX) s;
     (_, s) \<leftarrow> ccr_wait 0 s;
     let s = cwr 0 IER 0x09 s;
     (_, s) \<leftarrow> poll_hi 200000 0 TIR s;
     (_, s) \<leftarrow> crds 0 [TIR, TISR, LIVR] s;
     (hits, s) \<leftarrow> scan_bytes 0 [0..<BAR_LEN] 0 s;
     (hits, s) \<leftarrow> scan_halves E 0 (map ((*) 2) [0..<BAR_LEN div 2]) hits s;
     read_io_bar E s
   }"

definition io_probe_regs :: "(nat \<times> u8) list" where
  "io_probe_regs = [(CAR, 0), (LIVR, IACK_LIVR), (CMR, 0x02), (COR1, 0x17), (COR3, 0x02), (CCR, CCR_INITCH)]"

definition silence :: "nm32a \<Rightarrow> nm32a" where
  "silence s = foldl (\<lambda>s c. foldl (\<lambda>s ch. cwrs c [(CAR, word_of_nat ch), (IER, 0x00)] s) s [0..<4]) s [0..<NM32A_CHIPS]"

definition nm32a_io_probe :: "labenv \<Rightarrow> bool \<Rightarrow> nm32a \<Rightarrow> nm32a option" where
  "nm32a_io_probe E with_service s =
     (if io_len E = 0 then Some s
      else do {
        let s = silence s;
        s \<leftarrow> (if with_service
              then do {
                let s = cwrs 0 io_probe_regs s;
                (_, s) \<leftarrow> ccr_wait 0 s;
                let s = cwr 0 CCR (CCR_ENTX OR CCR_ENRX) s;
                (_, s) \<leftarrow> ccr_wait 0 s;
                let s = cwr 0 IER 0x09 s;
                (_, s) \<leftarrow> crd 0 TIR s;
                Some s
              }
              else do { (_, s) \<leftarrow> crd 0 TIR s; Some s });
        let s = mdelay 400 s;
        (_, s) \<leftarrow> inb E (io_start E) s;
        Some (mdelay 200 s)
      })"

definition hunt_regs :: "(nat \<times> u8) list" where
  "hunt_regs =
     [(CAR, 0), (LIVR, IACK_LIVR), (RCOR, 0x00), (RBPR, 0x81), (TCOR, 0x00), (TBPR, 0x81), (CMR, 0x02),
      (COR1, 0x17), (COR2, 0x00), (COR3, 0x02), (CCR, CCR_INITCH)]"

text \<open>One access at each address until the chip no longer offers the service; the address that did it.\<close>

fun hunt_scan :: "bool \<Rightarrow> nat \<Rightarrow> nat list \<Rightarrow> nm32a \<Rightarrow> (nat option \<times> nm32a) option" where
  "hunt_scan wr c [] s = Some (None, s)"
| "hunt_scan wr c (a # as) s =
     (if near_window a then hunt_scan wr c as s
      else do {
        s \<leftarrow> (if wr then Some (ev (WrB (Bar a) 0x00) s) else do { (_, s) \<leftarrow> rdb (Bar a) s; Some s });
        (v, s) \<leftarrow> crd c TIR s;
        if v AND 0x80 = 0 then do { (_, s) \<leftarrow> crds c [TIR, TFTC] s; Some (Some a, s) }
        else hunt_scan wr c as s
      })"

definition nm32a_hunt_ack :: "bool \<Rightarrow> nm32a \<Rightarrow> (nat option \<times> nm32a) option" where
  "nm32a_hunt_ack do_writes s = do {
     (_, s) \<leftarrow> ccr_wait 0 (cwrs 0 hunt_regs s);
     (_, s) \<leftarrow> ccr_wait 0 (cwr 0 CCR (CCR_ENTX OR CCR_ENRX) s);
     let s = cwr 0 IER 0x09 s;
     (_, s) \<leftarrow> poll_hi 200000 0 TIR s;
     (tir, s) \<leftarrow> crd 0 TIR s;
     if tir AND 0x80 = 0 then Some (None, s)
     else hunt_scan do_writes 0 [0..<BAR_LEN] s
   }"

section \<open>The character path\<close>

definition char_regs :: "nat \<Rightarrow> bool \<Rightarrow> (nat \<times> u8) list" where
  "char_regs ch loopback =
     [(TPR, 0x40), (CAR, word_of_nat ch AND 3), (LIVR, 0x40), (RCOR, 0x00), (RBPR, 0x81),
      (TCOR, if loopback then 0x02 else 0x00), (TBPR, 0x81), (CMR, 0x02), (COR1, 0x17), (COR2, 0x00),
      (COR3, 0x02), (COR4, 0x08), (COR5, 0x00), (CCR, CCR_INITCH)]"

text \<open>The common start: both channel commands, the interrupt enables; False when a command hangs.\<close>

definition char_start :: "nat \<Rightarrow> (nat \<times> u8) list \<Rightarrow> nm32a \<Rightarrow> (bool \<times> nm32a) option" where
  "char_start c regs s = do {
     (rc, s) \<leftarrow> ccr_wait c (cwrs c regs s);
     if rc \<noteq> 0 then Some (False, s)
     else do {
       (rc, s) \<leftarrow> ccr_wait c (cwr c CCR (CCR_ENTX OR CCR_ENRX) s);
       if rc \<noteq> 0 then Some (False, s) else Some (True, cwr c IER 0x09 s)
     }
   }"

text \<open>\<open>if ((crd (RIR) & 0x80) || crd (RFOC)) break;\<close>\<close>

fun rx_poll :: "nat \<Rightarrow> nat \<Rightarrow> nm32a \<Rightarrow> nm32a option" where
  "rx_poll 0 c s = Some s"
| "rx_poll (Suc n) c s = do {
     (v, s) \<leftarrow> crd c RIR s;
     if v AND 0x80 \<noteq> 0 then Some s
     else do {
       (v, s) \<leftarrow> crd c RFOC s;
       if v \<noteq> 0 then Some s else rx_poll n c s
     }
   }"

definition abcd :: "nat \<Rightarrow> (nat \<times> u8) list" where
  "abcd r = [(r, 0x41), (r, 0x42), (r, 0x43), (r, 0x44)]"

definition char_rx :: "nm32a \<Rightarrow> nm32a option" where
  "char_rx s = do {
     s \<leftarrow> rx_poll 500000 0 s;
     (_, s) \<leftarrow> crds 0 [RIR, RFOC, RISRl, CSR] s;
     (rf, s) \<leftarrow> crd 0 RFOC s;
     if rf \<noteq> 0 then do {
       (_, s) \<leftarrow> crds 0 [RDR, RDR, RDR, RDR] s;
       Some (cwr 0 REOIR 0x00 s)
     } else Some s
   }"

definition nm32a_char_tx :: "nat \<Rightarrow> bool \<Rightarrow> nm32a \<Rightarrow> nm32a option" where
  "nm32a_char_tx ch loopback s = do {
     (ok, s) \<leftarrow> char_start 0 (char_regs ch loopback) s;
     if \<not> ok then Some s
     else do {
       (_, s) \<leftarrow> crds 0 [CSR, IER] s;
       (_, s) \<leftarrow> poll_hi 500000 0 TIR s;
       (tir0, s) \<leftarrow> crd 0 TIR s;
       (_, s) \<leftarrow> crds 0 [TFTC, TISR] s;
       if tir0 AND 0x80 = 0 then Some s
       else do {
         let s = cwrs 0 (abcd TDR) s;
         (_, s) \<leftarrow> crd 0 TFTC s;
         let s = cwr 0 TEOIR 0x00 s;
         (_, s) \<leftarrow> crd 0 TIR s;
         char_rx s
       }
     }
   }"

text \<open>The legacy name of the acknowledge address is the receive one.\<close>

abbreviation (input) NM32A_ACK :: "nm32a \<Rightarrow> addr" where "NM32A_ACK s \<equiv> Bar (NM32A_ACK_RX s)"

text \<open>Each byte drained is read twice: once for its value and once for its character.\<close>

definition acked_rx :: "nm32a \<Rightarrow> nm32a option" where
  "acked_rx s = do {
     s \<leftarrow> rx_poll 1000000 0 s;
     (_, s) \<leftarrow> crds 0 [RIR, RFOC, RISRl] s;
     (rir, s) \<leftarrow> crd 0 RIR s;
     if rir AND 0x80 \<noteq> 0 then do {
       (_, s) \<leftarrow> rdb (NM32A_ACK s) s;
       (cnt, s) \<leftarrow> crd 0 RFOC s;
       (_, s) \<leftarrow> crds 0 (replicate (2 * min (unat cnt) 8) RDR) s;
       Some (cwr 0 REOIR 0x00 s)
     } else Some s
   }"

definition nm32a_acked_tx :: "nat \<Rightarrow> bool \<Rightarrow> nm32a \<Rightarrow> nm32a option" where
  "nm32a_acked_tx ch loopback s = do {
     (ok, s) \<leftarrow> char_start 0 (char_regs ch loopback) s;
     if \<not> ok then Some s
     else do {
       (_, s) \<leftarrow> poll_hi 500000 0 TIR s;
       (tir, s) \<leftarrow> crd 0 TIR s;
       if tir AND 0x80 = 0 then Some s
       else do {
         (_, s) \<leftarrow> rdb (NM32A_ACK s) s;
         (_, s) \<leftarrow> crds 0 [TIR, TFTC] s;
         let s = cwrs 0 (abcd TDR) s;
         (_, s) \<leftarrow> crd 0 TFTC s;
         let s = cwr 0 TEOIR 0x00 s;
         (_, s) \<leftarrow> crd 0 TIR s;
         acked_rx s
       }
     }
   }"

section \<open>The tests return\<close>

text \<open>
  \<open>ticks h\<close>: the clock passes the deadline of a channel command after some number of polls, from
  any point of any log.  \<open>io_alive\<close>: half-word reads of the BAR and reads of the I/O BAR retire.
\<close>

definition ticks :: "hwenv \<Rightarrow> bool" where
  "ticks h \<longleftrightarrow> (\<exists>n > 0. \<forall>pre l. length pre = n \<longrightarrow>
     \<not> time_before (jif h (pre @ l)) (jif h l + msecs_to_jiffies (hz h) CCR_WAIT_MS))"

definition io_alive :: "labenv \<Rightarrow> bool" where
  "io_alive E \<longleftrightarrow> (\<forall>l a. bar_w E l a \<noteq> None \<and> io_in E l a \<noteq> None)"

lemma returns_ccr_wait [returns]:
  assumes "responsive h" and "ticks h" and "hw s = h"
  shows "returns h snd (ccr_wait c s)"
proof -
  from assms(2) obtain n where n: "0 < n"
    "\<And>pre l. length pre = n \<Longrightarrow> \<not> time_before (jif h (pre @ l)) (jif h l + msecs_to_jiffies (hz h) CCR_WAIT_MS)"
    by (auto simp: ticks_def)
  then have "clock_passes c n (jiffies s + msecs_to_jiffies (hz (hw s)) CCR_WAIT_MS) s"
    using assms(3) by (simp add: clock_passes_def jiffies_def)
  from ccr_wait_returns [OF _ n(1) this] assms(1,3) obtain r s' where w: "ccr_wait c s = Some (r, s')" by auto
  then have "hw s' = hw s" by (auto dest: ccr_wait_Some(1) grows_fields)
  with w assms(3) show ?thesis by (simp add: returns_def)
qed

lemma returns_rdw [returns]: "io_alive E \<Longrightarrow> hw s = h \<Longrightarrow> returns h snd (rdw E a s)"
  by (auto simp: returns_def rdw_def io_alive_def split: option.split)

lemma returns_inb [returns]: "io_alive E \<Longrightarrow> hw s = h \<Longrightarrow> returns h snd (inb E a s)"
  by (auto simp: returns_def inb_def io_alive_def split: option.split)

lemma lab_hw [simp]:
  "hw (dma_wr a v s) = hw s" "hw (snd (dma_rd E a s)) = hw s" "hw (mdelay n s) = hw s"
  by (simp_all add: dma_wr_def dma_rd_def mdelay_def Let_def)

lemma returns_dma_rd [returns]:
  "hw s = h \<Longrightarrow> (\<And>v t. hw t = h \<Longrightarrow> returns h st (f v t)) \<Longrightarrow> returns h st (case dma_rd E a s of (v, t) \<Rightarrow> f v t)"
  by (simp add: dma_rd_def Let_def)

lemma returns_crds [returns]:
  "responsive h \<Longrightarrow> hw s = h \<Longrightarrow> returns h snd (crds c rs s)"
proof (induction rs arbitrary: s)
  case (Cons r rs)
  note Cons.IH [OF Cons.prems(1), returns]
  show ?case using Cons.prems by (simp only: crds.simps) (intro returns, simp_all)
qed (simp add: returns)

lemma returns_poll_hi [returns]:
  "responsive h \<Longrightarrow> hw s = h \<Longrightarrow> returns h snd (poll_hi n c r s)"
proof (induction n arbitrary: s)
  case (Suc n)
  note Suc.IH [OF Suc.prems(1), returns]
  show ?case using Suc.prems by (simp only: poll_hi.simps) (intro returns, simp_all)
qed (simp add: returns)

lemma returns_own_poll [returns]:
  "responsive h \<Longrightarrow> hw s = h \<Longrightarrow> returns h snd (own_poll n c st s)"
proof (induction n arbitrary: s st)
  case (Suc n)
  note Suc.IH [OF Suc.prems(1), returns]
  show ?case using Suc.prems by (simp only: own_poll.simps) (intro returns, simp_all)
qed (simp add: returns)

lemma hw_dma_poll [simp]: "hw (dma_poll n E a s) = hw s"
  by (induction n arbitrary: s) (simp_all add: dma_rd_def Let_def)

lemma hw_dma_compare: "hw (snd (dma_compare E a ms s)) = hw s"
  by (induction ms arbitrary: a s) (simp_all add: dma_rd_def Let_def)

lemma returns_dma_compare [returns]:
  "hw s = h \<Longrightarrow> (\<And>v t. hw t = h \<Longrightarrow> returns h st (f v t)) \<Longrightarrow>
     returns h st (case dma_compare E a ms s of (v, t) \<Rightarrow> f v t)"
  using hw_dma_compare [of E a ms s] by (cases "dma_compare E a ms s") auto

lemma hw_stage_pieces [simp]:
  "hw (stage_fill s) = hw s" "hw (arm_rx_desc c p s) = hw s" "hw (arm_tx_desc c p s) = hw s" "hw (silence s) = hw s"
proof -
  have f: "hw (foldl f s xs) = hw s" if "\<And>s x. hw (f s x) = hw s" for f :: "nm32a \<Rightarrow> nat \<Rightarrow> nm32a" and s xs
    using that by (induction xs arbitrary: s) simp_all
  show "hw (stage_fill s) = hw s" by (simp only: stage_fill_def Let_def f lab_hw)
  show "hw (silence s) = hw s" by (simp only: silence_def f cwrs_fields)
qed (simp_all add: arm_rx_desc_def arm_tx_desc_def cwr16_def)

lemma returns_stage_move [returns]:
  "responsive h \<Longrightarrow> hw s = h \<Longrightarrow> returns h snd (stage_move E c s)"
  unfolding stage_move_def Let_def by (intro returns, simp_all)

lemma returns_stage [returns]:
  "responsive h \<Longrightarrow> ticks h \<Longrightarrow> hw s = h \<Longrightarrow> returns h snd (nm32a_stage E c ch n s)"
  unfolding nm32a_stage_def Let_def by (intro returns, simp_all)

lemma returns_each [returns]:
  assumes "\<And>x s. hw s = h \<Longrightarrow> returns h here (f x s)" and "hw s = h"
  shows "returns h here (each f xs s)"
  using assms(2)
proof (induction xs arbitrary: s)
  case (Cons x xs)
  note Cons.IH [returns] assms(1) [returns]
  show ?case using Cons.prems by (simp only: each.simps) (intro returns, simp_all)
qed (simp add: returns)

lemma returns_dump [returns]: "responsive h \<Longrightarrow> hw s = h \<Longrightarrow> returns h here (nm32a_dump s)"
  unfolding nm32a_dump_def dump_chan_def Let_def by (intro returns, simp_all)

lemma returns_scan_bytes [returns]:
  "responsive h \<Longrightarrow> hw s = h \<Longrightarrow> returns h snd (scan_bytes c as n s)"
proof (induction as arbitrary: n s)
  case (Cons a as)
  note Cons.IH [OF Cons.prems(1), returns]
  show ?case using Cons.prems by (simp only: scan_bytes.simps) (intro returns, simp_all)
qed (simp add: returns)

lemma returns_scan_halves [returns]:
  "responsive h \<Longrightarrow> io_alive E \<Longrightarrow> hw s = h \<Longrightarrow> returns h snd (scan_halves E c as n s)"
proof (induction as arbitrary: n s)
  case (Cons a as)
  note Cons.IH [OF Cons.prems(1,2), returns]
  show ?case using Cons.prems by (simp only: scan_halves.simps) (intro returns, simp_all)
qed (simp add: returns)

lemma returns_read_io_bar [returns]:
  "responsive h \<Longrightarrow> io_alive E \<Longrightarrow> hw s = h \<Longrightarrow> returns h here (read_io_bar E s)"
  unfolding read_io_bar_def by (intro returns, simp_all)

lemma returns_find_iack [returns]:
  "responsive h \<Longrightarrow> ticks h \<Longrightarrow> io_alive E \<Longrightarrow> hw s = h \<Longrightarrow> returns h here (nm32a_find_iack E s)"
  unfolding nm32a_find_iack_def Let_def by (intro returns, simp_all del: upt_rec_numeral)

lemma returns_io_probe [returns]:
  "responsive h \<Longrightarrow> ticks h \<Longrightarrow> io_alive E \<Longrightarrow> hw s = h \<Longrightarrow> returns h here (nm32a_io_probe E b s)"
  unfolding nm32a_io_probe_def Let_def by (intro returns, simp_all)

lemma returns_hunt_scan [returns]:
  "responsive h \<Longrightarrow> hw s = h \<Longrightarrow> returns h snd (hunt_scan wr c as s)"
proof (induction as arbitrary: s)
  case (Cons a as)
  note Cons.IH [OF Cons.prems(1), returns]
  show ?case using Cons.prems by (simp only: hunt_scan.simps) (intro returns, simp_all)
qed (simp add: returns)

lemma returns_hunt_ack [returns]:
  "responsive h \<Longrightarrow> ticks h \<Longrightarrow> hw s = h \<Longrightarrow> returns h snd (nm32a_hunt_ack b s)"
  unfolding nm32a_hunt_ack_def Let_def by (intro returns, simp_all del: upt_rec_numeral)

lemma returns_char_start [returns]:
  "responsive h \<Longrightarrow> ticks h \<Longrightarrow> hw s = h \<Longrightarrow> returns h snd (char_start c regs s)"
  unfolding char_start_def by (intro returns, simp_all)

lemma returns_rx_poll [returns]:
  "responsive h \<Longrightarrow> hw s = h \<Longrightarrow> returns h here (rx_poll n c s)"
proof (induction n arbitrary: s)
  case (Suc n)
  note Suc.IH [OF Suc.prems(1), returns]
  show ?case using Suc.prems by (simp only: rx_poll.simps) (intro returns, simp_all)
qed (simp add: returns)

lemma returns_char_tx [returns]:
  "responsive h \<Longrightarrow> ticks h \<Longrightarrow> hw s = h \<Longrightarrow> returns h here (nm32a_char_tx ch b s)"
  unfolding nm32a_char_tx_def char_rx_def Let_def by (intro returns, simp_all)

lemma returns_acked_tx [returns]:
  "responsive h \<Longrightarrow> ticks h \<Longrightarrow> hw s = h \<Longrightarrow> returns h here (nm32a_acked_tx ch b s)"
  unfolding nm32a_acked_tx_def acked_rx_def Let_def by (intro returns, simp_all)

section \<open>What a test adds to the log\<close>

text \<open>\<open>does P s0 st m\<close>: from \<open>s0\<close> up to the state in which \<open>m\<close> ends, only events in \<open>P\<close> are logged.\<close>

definition does :: "(cev \<Rightarrow> bool) \<Rightarrow> nm32a \<Rightarrow> ('a \<Rightarrow> nm32a) \<Rightarrow> 'a option \<Rightarrow> bool" where
  "does P s0 st m \<longleftrightarrow> (\<forall>y. m = Some y \<longrightarrow> grows P s0 (st y))"

definition reg_events :: "(cev \<Rightarrow> bool) \<Rightarrow> bool" where
  "reg_events P \<longleftrightarrow> (\<forall>c r v. P (RdB (Reg c r) v) \<and> P (WrB (Reg c r) v))"

named_theorems does \<open>computations that only log events in a set\<close>

lemma does_Some [does]: "grows P s0 (st y) \<Longrightarrow> does P s0 st (Some y)"
  by (simp add: does_def)

lemma does_bind_pair [does]:
  assumes "does P s0 snd m" and "\<And>v t. grows P s0 t \<Longrightarrow> does P s0 st' (f v t)"
  shows "does P s0 st' (Option.bind m (\<lambda>(v, t). f v t))"
  using assms by (cases m) (auto simp: does_def)

lemma does_bind_state [does]:
  assumes "does P s0 here m" and "\<And>t. grows P s0 t \<Longrightarrow> does P s0 st' (f t)"
  shows "does P s0 st' (Option.bind m f)"
  using assms by (cases m) (auto simp: does_def here_def)

lemma does_if [does]:
  "(b \<Longrightarrow> does P s0 st m) \<Longrightarrow> (\<not> b \<Longrightarrow> does P s0 st n) \<Longrightarrow> does P s0 st (if b then m else n)"
  by simp

lemma grows_snoc_ev: "grows P s0 s \<Longrightarrow> P e \<Longrightarrow> grows P s0 (ev e s)"
  using grows_ev grows_trans by blast

lemma does_rdb [does]: "grows P s0 s \<Longrightarrow> (\<And>v. P (RdB a v)) \<Longrightarrow> does P s0 snd (rdb a s)"
  by (auto simp: does_def rdb_Some intro: grows_snoc_ev)

lemma does_crd [does]: "grows P s0 s \<Longrightarrow> reg_events P \<Longrightarrow> does P s0 snd (crd c r s)"
  unfolding crd_def by (rule does_rdb) (simp_all add: reg_events_def)

lemma grows_snoc_cwr: "grows P s0 s \<Longrightarrow> reg_events P \<Longrightarrow> grows P s0 (cwr c r v s)"
  unfolding cwr_def by (rule grows_snoc_ev) (simp_all add: reg_events_def)

lemma grows_snoc_cwrs: "grows P s0 s \<Longrightarrow> reg_events P \<Longrightarrow> grows P s0 (cwrs c ws s)"
  by (erule grows_trans) (rule grows_cwrs, auto simp: reg_events_def list_all_iff)

lemma does_ccr_wait [does]: "grows P s0 s \<Longrightarrow> reg_events P \<Longrightarrow> does P s0 snd (ccr_wait c s)"
proof -
  assume g: "grows P s0 s" and r: "reg_events P"
  have "plain_read c e \<Longrightarrow> P e" for e
    using r by (induction c e rule: plain_read.induct) (auto simp: reg_events_def)
  then have "grows P s0 t" if "ccr_wait c s = Some (v, t)" for v t
    using g grows_mono [OF ccr_wait_Some(1) [OF that]] grows_trans by blast
  then show ?thesis by (auto simp: does_def)
qed

lemma does_crds [does]: "grows P s0 s \<Longrightarrow> reg_events P \<Longrightarrow> does P s0 snd (crds c rs s)"
proof (induction rs arbitrary: s)
  case (Cons r rs)
  note Cons.IH [OF _ Cons.prems(2), does]
  show ?case using Cons.prems by (simp only: crds.simps) (intro does, simp_all)
qed (simp add: does)

lemma does_poll_hi [does]: "grows P s0 s \<Longrightarrow> reg_events P \<Longrightarrow> does P s0 snd (poll_hi n c r s)"
proof (induction n arbitrary: s)
  case (Suc n)
  note Suc.IH [OF _ Suc.prems(2), does]
  show ?case using Suc.prems by (simp only: poll_hi.simps) (intro does, simp_all)
qed (simp add: does)

section \<open>The searches stay out of the chip windows\<close>

text \<open>The bytes of the BAR that an event touches outside the register access functions.\<close>

fun bar_bytes :: "cev \<Rightarrow> nat list" where
  "bar_bytes (RdB (Bar a) v) = [a]"
| "bar_bytes (WrB (Bar a) v) = [a]"
| "bar_bytes (Io (BarRdW a v)) = [a, a + 1]"
| "bar_bytes _ = []"

definition outside :: "cev \<Rightarrow> bool" where
  "outside e \<longleftrightarrow> list_all (\<lambda>a. a < BAR_LEN \<and> list_all (\<lambda>w. a < w \<or> w + 0x100 \<le> a) chip_off) (bar_bytes e)"

lemma outside_regs [simp]: "reg_events outside"
  by (simp add: reg_events_def outside_def)

lemma page_iff:
  assumes "w = 256 * k"
  shows "page a = w \<longleftrightarrow> w \<le> a \<and> a < w + 256"
proof -
  have "256 * (a div 256) + a mod 256 = a" "a mod 256 < 256" by simp_all
  then have "a div 256 = k \<longleftrightarrow> 256 * k \<le> a \<and> a < 256 * k + 256" by linarith
  then show ?thesis using assms by (auto simp: page_def)
qed

lemma page_bounds: "page a \<le> a" "a < page a + 256"
  using page_iff [of "page a" "a div 256" a] by (simp_all add: page_def)

lemma own_window_iff: "own_window a \<longleftrightarrow> list_ex (\<lambda>w. w \<le> a \<and> a < w + 0x100) chip_off"
proof -
  have "list_all (\<lambda>w. page a = w \<longleftrightarrow> w \<le> a \<and> a < w + 256) chip_off"
    using page_iff [of "0x400" "4" a] page_iff [of "0x500" "5" a] page_iff [of "0x600" "6" a] page_iff [of "0x700" "7" a]
      page_iff [of "0x900" "9" a] page_iff [of "0xA00" "10" a] page_iff [of "0xB00" "11" a] page_iff [of "0xC00" "12" a]
    by (simp add: chip_off_def)
  then show ?thesis by (simp add: own_window_def chip_off_def)
qed

lemma own_window_spares:
  assumes "\<not> own_window a" and "a < BAR_LEN"
  shows "outside (RdB (Bar a) v)"
  using assms by (auto simp: outside_def own_window_iff list_all_iff list_ex_iff not_le not_less)

lemma low_page: "page a < 0x400 \<Longrightarrow> a < 0x400"
proof -
  assume "page a < 0x400"
  then have "a div 256 < 4" by (simp add: page_def)
  moreover have "256 * (a div 256) + a mod 256 = a" "a mod 256 < 256" by simp_all
  ultimately show ?thesis by linarith
qed

lemma near_page: "0xC00 < page a \<Longrightarrow> 0xD00 \<le> page a"
proof -
  assume "0xC00 < page a"
  then have "12 < a div 256" by (simp add: page_def)
  then have "13 * 256 \<le> a div 256 * 256" by simp
  then show ?thesis by (simp add: page_def)
qed

lemma near_window_spares:
  assumes "\<not> near_window a" and "a < BAR_LEN"
  shows "outside (RdB (Bar a) v)" and "outside (WrB (Bar a) v)"
    and "even a \<Longrightarrow> outside (Io (BarRdW a x))"
proof -
  have p: "a < 0x400 \<or> 0xD00 \<le> a"
    using assms(1) page_bounds [of a] page_iff [of "0xD00" "13" a] near_page [of a] low_page [of a] by (auto simp: near_window_def)
  then show "outside (RdB (Bar a) v)" "outside (WrB (Bar a) v)"
    using assms(2) by (auto simp: outside_def chip_off_def)
  show "outside (Io (BarRdW a x))" if "even a"
  proof -
    have "a + 1 < BAR_LEN" "a + 1 < 0x400 \<or> 0xD00 \<le> a"
      using p assms(2) that by (auto elim!: evenE)
    with assms(2) show ?thesis by (auto simp: outside_def chip_off_def)
  qed
qed

lemma does_scan_bytes [does]:
  "grows outside s0 s \<Longrightarrow> list_all (\<lambda>a. a < BAR_LEN) as \<Longrightarrow> does outside s0 snd (scan_bytes c as n s)"
proof (induction as arbitrary: n s)
  case (Cons a as)
  then have a: "a < BAR_LEN" and IH: "\<And>n s. grows outside s0 s \<Longrightarrow> does outside s0 snd (scan_bytes c as n s)"
    by simp_all
  note IH [does]
  show ?case
    using Cons.prems(1) by (simp only: scan_bytes.simps) (intro does, simp_all add: own_window_spares a)
qed (simp add: does)

lemma does_rdw: "grows P s0 s \<Longrightarrow> (\<And>v. P (Io (BarRdW a v))) \<Longrightarrow> does P s0 snd (rdw E a s)"
  by (auto simp: does_def rdw_def split: option.splits intro: grows_snoc_ev)

lemma does_inb [does]: "grows P s0 s \<Longrightarrow> (\<And>v. P (Io (InB a v))) \<Longrightarrow> does P s0 snd (inb E a s)"
  by (auto simp: does_def inb_def split: option.splits intro: grows_snoc_ev)

lemma does_scan_halves [does]:
  "grows outside s0 s \<Longrightarrow> list_all (\<lambda>a. a < BAR_LEN \<and> even a) as \<Longrightarrow> does outside s0 snd (scan_halves E c as n s)"
proof (induction as arbitrary: n s)
  case (Cons a as)
  then have a: "a < BAR_LEN" "even a"
    and IH: "\<And>n s. grows outside s0 s \<Longrightarrow> does outside s0 snd (scan_halves E c as n s)"
    by simp_all
  note IH [does] and does_rdw [does]
  show ?case
    using Cons.prems(1) by (simp only: scan_halves.simps) (intro does, simp_all add: near_window_spares a)
qed (simp add: does)

lemma does_each [does]:
  assumes "\<And>x s. grows P s0 s \<Longrightarrow> does P s0 here (f x s)" and "grows P s0 s"
  shows "does P s0 here (each f xs s)"
  using assms(2)
proof (induction xs arbitrary: s)
  case (Cons x xs)
  note Cons.IH [does] assms(1) [does]
  show ?case using Cons.prems by (simp only: each.simps) (intro does, simp_all)
qed (simp add: does here_def)

lemma does_read_io_bar [does]: "grows outside s0 s \<Longrightarrow> does outside s0 here (read_io_bar E s)"
  unfolding read_io_bar_def by (intro does, simp_all add: outside_def here_def)

lemma does_find_iack: "does outside s here (nm32a_find_iack E s)"
  unfolding nm32a_find_iack_def Let_def
  by (intro does grows_snoc_cwr grows_snoc_cwrs grows_refl, simp_all add: list_all_iff del: upt_rec_numeral)

lemma does_hunt_scan [does]:
  "grows outside s0 s \<Longrightarrow> list_all (\<lambda>a. a < BAR_LEN) as \<Longrightarrow> does outside s0 snd (hunt_scan wr c as s)"
proof (induction as arbitrary: s)
  case (Cons a as)
  then have a: "a < BAR_LEN" and IH: "\<And>s. grows outside s0 s \<Longrightarrow> does outside s0 snd (hunt_scan wr c as s)"
    by simp_all
  note IH [does]
  show ?case
    using Cons.prems(1)
    by (simp only: hunt_scan.simps)
      (intro does, simp_all add: here_def near_window_spares a grows_snoc_ev)
qed (simp add: does)

lemma does_hunt_ack: "does outside s snd (nm32a_hunt_ack wr s)"
  unfolding nm32a_hunt_ack_def Let_def
  by (intro does grows_snoc_cwr grows_snoc_cwrs grows_refl, simp_all add: list_all_iff del: upt_rec_numeral)

section \<open>Descriptors before the enable\<close>

text \<open>Address and count of a DMA descriptor, from the last bytes written to its registers.\<close>

definition reg16 :: "nat \<Rightarrow> nat \<Rightarrow> nat \<Rightarrow> cev list \<Rightarrow> nat option" where
  "reg16 c ch r h = (case (chan_reg c ch r h, chan_reg c ch (r + 1) h) of
     (Some a, Some b) \<Rightarrow> Some (unat a * 256 + unat b) | _ \<Rightarrow> None)"

definition in_dma :: "nat \<Rightarrow> nat \<Rightarrow> bool" where
  "in_dma a n \<longleftrightarrow> C2811_DMA_BASE \<le> a \<and> a + n \<le> C2811_DMA_BASE + C2811_DMA_SIZE"

definition armed :: "nat \<Rightarrow> nat \<Rightarrow> nat \<Rightarrow> nat \<Rightarrow> nat \<Rightarrow> nat \<Rightarrow> cev list \<Rightarrow> bool" where
  "armed c ch u l n sts h =
     (case (reg16 c ch u h, reg16 c ch l h, reg16 c ch n h, chan_reg c ch sts h) of
        (Some hi, Some lo, Some k, Some st) \<Rightarrow> in_dma (hi * 65536 + lo) k \<and> st AND OWN \<noteq> 0
      | _ \<Rightarrow> False)"

definition both_armed :: "nat \<Rightarrow> nat \<Rightarrow> cev list \<Rightarrow> bool" where
  "both_armed c ch h \<longleftrightarrow> armed c ch ARBADRU ARBADRL ARBCNT ARBSTS h \<and> armed c ch ATBADRU ATBADRL ATBCNT ATBSTS h"

text \<open>Every command that enabled the channel was given with both descriptors armed.\<close>

fun enabled_armed :: "nat \<Rightarrow> nat \<Rightarrow> cev list \<Rightarrow> bool" where
  "enabled_armed c ch [] = True"
| "enabled_armed c ch (WrB (Reg c' r) v # h) =
     (enabled_armed c ch h \<and>
      (c' = c \<and> r = CCR \<and> v AND 0x0A \<noteq> 0 \<and> sel_chan c h = Some ch \<longrightarrow> both_armed c ch h))"
| "enabled_armed c ch (_ # h) = enabled_armed c ch h"

fun no_write :: "cev \<Rightarrow> bool" where
  "no_write (WrB a v) = False"
| "no_write _ = True"

lemma no_write_log:
  assumes "list_all no_write pre"
  shows "enabled_armed c ch (pre @ h) = enabled_armed c ch h" and "chan_reg c ch r (pre @ h) = chan_reg c ch r h"
proof -
  show "enabled_armed c ch (pre @ h) = enabled_armed c ch h"
    using assms by (induction pre) (auto elim!: no_write.elims)
  show "chan_reg c ch r (pre @ h) = chan_reg c ch r h"
    using assms by (induction pre) (auto elim!: no_write.elims)
qed

lemma both_armed_cong:
  "(\<And>r. chan_reg c ch r h' = chan_reg c ch r h) \<Longrightarrow> both_armed c ch h' = both_armed c ch h"
  by (simp add: both_armed_def armed_def reg16_def)

text \<open>Events that neither write nor enter or leave a service; \<open>calm s t\<close>: only such happened from \<open>s\<close> to \<open>t\<close>.\<close>

fun still :: "cev \<Rightarrow> bool" where
  "still (RdB (Reg c r) v) = (r \<noteq> RDR \<and> r \<noteq> RIR)"
| "still (Udelay d) = True"
| "still (Io x) = True"
| "still _ = False"

definition calm :: "nm32a \<Rightarrow> nm32a \<Rightarrow> bool" where
  "calm s t \<longleftrightarrow> grows still s t"

lemma calm_log:
  assumes "calm s t"
  shows "sel_chan c (evs t) = sel_chan c (evs s)" and "chan_reg c ch r (evs t) = chan_reg c ch r (evs s)"
    and "enabled_armed c ch (evs t) = enabled_armed c ch (evs s)" and "closed (evs t) = closed (evs s)"
proof -
  from assms obtain pre where p: "evs t = pre @ evs s" "list_all still pre"
    by (auto simp: calm_def elim!: growsE)
  have o: "open_ctx (pre @ evs s) = open_ctx (evs s)"
    using p(2) by (induction pre) (auto elim!: still.elims)
  have "car_of c (pre @ evs s) = car_of c (evs s)"
    using p(2) by (induction pre) (auto elim!: still.elims)
  then show "sel_chan c (evs t) = sel_chan c (evs s)"
    by (simp add: p(1) sel_chan_def o split: ctx.split)
  have "still e \<Longrightarrow> no_write e" for e by (cases e rule: still.cases) auto
  then have "list_all no_write pre" using p(2) by (simp add: list_all_iff)
  from no_write_log [OF this] show "chan_reg c ch r (evs t) = chan_reg c ch r (evs s)"
    "enabled_armed c ch (evs t) = enabled_armed c ch (evs s)"
    by (simp_all add: p(1))
  show "closed (evs t) = closed (evs s)" by (simp add: closed_def p(1) o)
qed

lemma calm_ccr_wait: "ccr_wait c s = Some (r, t) \<Longrightarrow> calm s t"
proof -
  assume "ccr_wait c s = Some (r, t)"
  then have "grows (plain_read c) s t" by (rule ccr_wait_Some(1))
  moreover have "plain_read c e \<Longrightarrow> still e" for e
    by (induction c e rule: plain_read.induct) auto
  ultimately show ?thesis unfolding calm_def by (rule grows_mono)
qed

lemma calm_crd: "crd c r s = Some (v, t) \<Longrightarrow> r \<noteq> RDR \<Longrightarrow> r \<noteq> RIR \<Longrightarrow> calm s t"
  unfolding calm_def by (erule grows_crd) simp

lemma calm_trans: "calm s t \<Longrightarrow> calm t u \<Longrightarrow> calm s u"
  unfolding calm_def by (rule grows_trans)

lemma calm_crds: "crds c rs s = Some (vs, t) \<Longrightarrow> set rs \<inter> {RDR, RIR} = {} \<Longrightarrow> calm s t"
proof (induction rs arbitrary: vs s)
  case Nil
  then show ?case by (simp add: calm_def)
next
  case (Cons r rs)
  from Cons.prems obtain v u vs' where "crd c r s = Some (v, u)" "crds c rs u = Some (vs', t)"
    by (auto elim!: bind_SomeE)
  with Cons.IH Cons.prems(2) show ?case by (auto intro: calm_trans dest: calm_crd)
qed

lemma enabled_armed_cwr:
  "r \<noteq> CCR \<or> v AND 0x0A = 0 \<Longrightarrow> enabled_armed c ch (evs (cwr c' r v s)) = enabled_armed c ch (evs s)"
  by auto

lemma sel_cwr:
  "sel_chan c (evs s) = Some ch \<Longrightarrow> r \<noteq> CAR \<Longrightarrow> r \<noteq> REOIR \<Longrightarrow> r \<noteq> TEOIR \<Longrightarrow>
     sel_chan c (evs (cwr c' r v s)) = Some ch"
  by (simp add: sel_chan_write)

lemma reg_cwr:
  "sel_chan c (evs s) = Some ch \<Longrightarrow>
     chan_reg c ch r' (evs (cwr c r v s)) = (if r' = r then Some v else chan_reg c ch r' (evs s))"
  by simp

lemmas lab_log = enabled_armed_cwr sel_cwr reg_cwr cwr16_def

lemma grows_foldl: "(\<And>s x. grows P s (f s x)) \<Longrightarrow> grows P s (foldl f s xs)"
  by (induction xs arbitrary: s) (auto intro: grows_trans)

lemma calm_dma_wr: "calm s (dma_wr a v s)"
  by (simp add: calm_def dma_wr_def grows_ev)

lemma calm_stage_fill: "calm s (stage_fill s)"
  unfolding stage_fill_def Let_def calm_def dma_wr_def
  by (rule grows_trans; rule grows_foldl; rule grows_ev) simp_all

section \<open>What the stages do\<close>

lemma stage_regs_run:
  assumes "closed (evs s)" and "ch < 4"
  shows "sel_chan c (evs (cwrs c (stage_regs ch) s)) = Some ch"
    and "chan_reg c ch CCR (evs (cwrs c (stage_regs ch) s)) = Some CCR_INITCH"
    and "enabled_armed c ch (evs (cwrs c (stage_regs ch) s)) = enabled_armed c ch (evs s)"
proof -
  let ?t = "cwr c CAR (word_of_nat ch AND 3) (cwr c TPR 0x40 s)"
  let ?ws = "drop 2 (stage_regs ch)"
  have e: "cwrs c (stage_regs ch) s = cwrs c ?ws ?t" by (simp add: stage_regs_def)
  have "closed (evs (cwr c TPR 0x40 s))" using assms(1) by (simp add: closed_def)
  then have sel: "sel_chan c (evs ?t) = Some ch"
    using assms(2) chan_sel_value by (simp add: closed_def sel_chan_car)
  have only: "chan_regs_only ?ws" by (simp add: stage_regs_def chan_regs_only_def)
  show "sel_chan c (evs (cwrs c (stage_regs ch) s)) = Some ch"
    unfolding e by (rule cwrs_regs(1) [OF sel only])
  show "chan_reg c ch CCR (evs (cwrs c (stage_regs ch) s)) = Some CCR_INITCH"
    unfolding e cwrs_regs(2) [OF sel only] by (simp add: stage_regs_def)
  show "enabled_armed c ch (evs (cwrs c (stage_regs ch) s)) = enabled_armed c ch (evs s)"
    by (simp add: stage_regs_def)
qed

definition RXP :: u32 where "RXP = word_of_nat C2811_DMA_BASE + 0x1000"
definition TXP :: u32 where "TXP = word_of_nat C2811_DMA_BASE"

lemma arm_rx_run:
  assumes "sel_chan c (evs s) = Some ch"
  shows "sel_chan c (evs (arm_rx_desc c RXP s)) = Some ch"
    and "armed c ch ARBADRU ARBADRL ARBCNT ARBSTS (evs (arm_rx_desc c RXP s))"
    and "chan_reg c ch CCR (evs (arm_rx_desc c RXP s)) = chan_reg c ch CCR (evs s)"
    and "enabled_armed c ch (evs (arm_rx_desc c RXP s)) = enabled_armed c ch (evs s)"
  using assms
  by (simp_all add: arm_rx_desc_def cwr16_def sel_chan_write armed_def reg16_def in_dma_def board_consts RXP_def)

lemma arm_tx_run:
  assumes "sel_chan c (evs s) = Some ch" and "armed c ch ARBADRU ARBADRL ARBCNT ARBSTS (evs s)"
  shows "sel_chan c (evs (arm_tx_desc c TXP s)) = Some ch"
    and "both_armed c ch (evs (arm_tx_desc c TXP s))"
    and "chan_reg c ch CCR (evs (arm_tx_desc c TXP s)) = chan_reg c ch CCR (evs s)"
    and "enabled_armed c ch (evs (arm_tx_desc c TXP s)) = enabled_armed c ch (evs s)"
  using assms
  by (simp_all add: arm_tx_desc_def cwr16_def sel_chan_write armed_def reg16_def in_dma_def board_consts TXP_def
      both_armed_def)

text \<open>What \<open>stage_move\<close> reads in the end.\<close>

lemma dma_compare_log:
  "dma_compare E a ms s = (ok, t) \<Longrightarrow> calm s t \<and>
     (ok \<longrightarrow> evs t = rev (map (\<lambda>(i, m). Io (DmaRd i m)) (zip [a..<a + length ms] ms)) @ evs s)"
proof (induction ms arbitrary: a s)
  case Nil
  then show ?case by (simp add: calm_def)
next
  case (Cons m ms)
  let ?v = "dma_mem E (evs s) a" and ?s = "ev (Io (DmaRd a (dma_mem E (evs s) a))) s"
  have c: "calm s ?s" by (simp add: calm_def grows_ev)
  show ?case
  proof (cases "?v = m")
    case True
    with Cons.prems have "dma_compare E (a + 1) ms ?s = (ok, t)" by (simp add: dma_rd_def Let_def)
    moreover have "[a..<a + length (m # ms)] = a # [a + 1..<a + 1 + length ms]"
      by (simp add: upt_conv_Cons del: upt_Suc)
    ultimately show ?thesis
      using Cons.IH [of "a + 1" ?s] c True calm_trans [OF c, of t] by (auto simp del: upt_Suc)
  next
    case False
    with Cons.prems c show ?thesis by (auto simp: dma_rd_def Let_def)
  qed
qed

lemma calm_own_poll: "own_poll n c st s = Some (v, t) \<Longrightarrow> calm s t"
proof (induction n arbitrary: st s)
  case 0
  then show ?case by (simp add: calm_def)
next
  case (Suc n)
  from Suc.prems obtain w u where w: "crd c ATBSTS s = Some (w, u)"
    and k: "(if w AND OWN = 0 then Some (w, u) else own_poll n c w (ev (Udelay 10) u)) = Some (v, t)"
    by (auto elim!: bind_SomeE)
  have "calm s u" using w by (rule calm_crd) simp_all
  moreover have "calm u (ev (Udelay 10) u)" by (simp add: calm_def grows_ev)
  ultimately show ?case using k Suc.IH by (auto split: if_splits intro: calm_trans)
qed

lemma calm_dma_rd: "calm s (snd (dma_rd E a s))"
  by (simp add: dma_rd_def Let_def calm_def grows_ev)

lemma calm_dma_poll: "calm s (dma_poll n E a s)"
proof (induction n arbitrary: s)
  case 0
  then show ?case by (simp add: calm_def)
next
  case (Suc n)
  have "calm (snd (dma_rd E a s)) (ev (Udelay 10) (snd (dma_rd E a s)))" by (simp add: calm_def grows_ev)
  with Suc [of "ev (Udelay 10) (snd (dma_rd E a s))"] calm_dma_rd [of s E a] show ?case
    by (auto simp: Let_def case_prod_unfold intro: calm_trans)
qed

definition echo_read :: "cev list" where
  "echo_read = rev (map (\<lambda>(i, m). Io (DmaRd i m)) (zip [0x1000..<0x1008] stage_msg))"

definition four_reads :: "labenv \<Rightarrow> nm32a \<Rightarrow> nm32a" where
  "four_reads E s = snd (dma_rd E 0x1003 (snd (dma_rd E 0x1002 (snd (dma_rd E 0x1001 (snd (dma_rd E 0x1000 s)))))))"

lemma calm_four_reads: "calm s (four_reads E s)"
  unfolding four_reads_def by (intro calm_trans [OF _ calm_dma_rd] calm_dma_rd)

lemma stage_move_cases:
  assumes "stage_move E c s = Some (r, t)"
  obtains (stuck) st where "own_poll STAGE_TRIES c 0 s = Some (st, t)" and "r = - EIO"
  | (ends) st u v w where "own_poll STAGE_TRIES c 0 s = Some (st, u)"
      and "crd c ARBSTS (dma_poll STAGE_TRIES E 0x1000 u) = Some (v, w)"
      and "dma_compare E 0x1000 stage_msg (four_reads E w) = (r = 0, t)"
proof -
  from assms obtain st u where o: "own_poll STAGE_TRIES c 0 s = Some (st, u)"
    by (cases "own_poll STAGE_TRIES c 0 s") (auto simp: stage_move_def)
  show thesis
  proof (cases "st AND OWN = 0")
    case True
    with assms o obtain v w where w: "crd c ARBSTS (dma_poll STAGE_TRIES E 0x1000 u) = Some (v, w)"
      by (cases "crd c ARBSTS (dma_poll STAGE_TRIES E 0x1000 u)") (auto simp: stage_move_def)
    with assms o True have "dma_compare E 0x1000 stage_msg (four_reads E w) = (r = 0, t)"
      by (cases "dma_compare E 0x1000 stage_msg (four_reads E w)")
        (auto simp: stage_move_def Let_def four_reads_def case_prod_unfold split: if_splits)
    with o w show thesis by (rule ends)
  next
    case False
    with assms o show thesis by (auto simp: stage_move_def intro: stuck)
  qed
qed

lemma stage_move_log:
  assumes "stage_move E c s = Some (r, t)"
  shows "calm s t" and "r = 0 \<Longrightarrow> take 8 (evs t) = echo_read"
proof -
  from assms show "calm s t"
  proof (cases rule: stage_move_cases)
    case stuck
    then show ?thesis by (auto intro: calm_own_poll)
  next
    case (ends st u v w)
    have "calm (dma_poll STAGE_TRIES E 0x1000 u) w" using ends(2) by (rule calm_crd) simp_all
    with calm_own_poll [OF ends(1)] calm_dma_poll [of u STAGE_TRIES E "0x1000"] calm_four_reads [of w E]
      dma_compare_log [OF ends(3)]
    show ?thesis by (blast intro: calm_trans)
  qed
  have l: "length stage_msg = 8" by (simp add: stage_msg_def)
  show "take 8 (evs t) = echo_read" if "r = 0"
    using assms
  proof (cases rule: stage_move_cases)
    case stuck
    with that show ?thesis by simp
  next
    case (ends st u v w)
    with that dma_compare_log [OF ends(3)] show ?thesis
      by (simp add: l echo_read_def del: upt_rec_numeral)
  qed
qed

text \<open>The states in which the stages end.\<close>

lemma stage_split:
  assumes "nm32a_stage E c ch n s = Some (r, t)" and "closed (evs s)" and "ch < 4"
  obtains (init) "calm (cwrs c (stage_regs ch) (stage_fill s)) t" and "n < 2 \<or> r \<noteq> 0"
  | (rx) u where "calm (cwrs c (stage_regs ch) (stage_fill s)) u" and "calm (arm_rx_desc c RXP u) t" and "n < 3"
  | (tx) u v where "calm (cwrs c (stage_regs ch) (stage_fill s)) u" and "calm (arm_rx_desc c RXP u) v"
      and "calm (arm_tx_desc c TXP v) t" and "n < 4"
  | (stuck) u v w where "calm (cwrs c (stage_regs ch) (stage_fill s)) u" and "calm (arm_rx_desc c RXP u) v"
      and "calm (arm_tx_desc c TXP v) w" and "calm (cwr c CCR (CCR_ENTX OR CCR_ENRX) w) t" and "4 \<le> n" and "r \<noteq> 0"
  | (move) u v w x where "calm (cwrs c (stage_regs ch) (stage_fill s)) u" and "calm (arm_rx_desc c RXP u) v"
      and "calm (arm_tx_desc c TXP v) w" and "calm (cwr c CCR (CCR_ENTX OR CCR_ENRX) w) x"
      and "stage_move E c (cwr c IER 0x09 x) = Some (r, t)" and "4 \<le> n"
proof -
  let ?a = "cwrs c (stage_regs ch) (stage_fill s)"
  note D = assms(1) [unfolded nm32a_stage_def Let_def, folded RXP_def, folded TXP_def]
  from D obtain q b where b: "ccr_wait c ?a = Some (q, b)" by (cases "ccr_wait c ?a") auto
  note cb = calm_ccr_wait [OF b]
  show thesis
  proof (cases "q = 0")
    case False
    with D b cb show thesis by (intro init) auto
  next
    case True
    with D b obtain l u where u: "crds c [CSR, CMR] b = Some (l, u)"
      by (cases "crds c [CSR, CMR] b") (auto simp del: crds.simps)
    have cu: "calm ?a u" using cb calm_crds [OF u] by (auto intro: calm_trans)
    show thesis
    proof (cases "n < 2")
      case 2: True
      with D b True u cu show thesis by (intro init) (auto simp del: crds.simps)
    next
      case n2: False
      let ?u = "arm_rx_desc c RXP u"
      from n2 D b True u obtain w1 v where v: "crd c ARBSTS ?u = Some (w1, v)"
        by (cases "crd c ARBSTS ?u") (auto simp del: crds.simps)
      have cv: "calm ?u v" using v by (rule calm_crd) simp_all
      show thesis
      proof (cases "n < 3")
        case 3: True
        with D b True u n2 v cu cv show thesis by (intro rx [of u]) (auto simp del: crds.simps)
      next
        case n3: False
        let ?v = "arm_tx_desc c TXP v"
        from n3 D b True u n2 v obtain w2 w where w: "crd c ATBSTS ?v = Some (w2, w)"
          by (cases "crd c ATBSTS ?v") (auto simp del: crds.simps)
        have cw: "calm ?v w" using w by (rule calm_crd) simp_all
        show thesis
        proof (cases "n < 4")
          case 4: True
          with D b True u n2 n3 v w cu cv cw show thesis by (intro tx [of u v]) (auto simp del: crds.simps)
        next
          case n4: False
          let ?w = "cwr c CCR (CCR_ENTX OR CCR_ENRX) w"
          from n4 D b True u n2 n3 v w obtain q2 x where x: "ccr_wait c ?w = Some (q2, x)"
            by (cases "ccr_wait c ?w") (auto simp del: crds.simps)
          from n4 D b True u n2 n3 v w x show thesis
            using cu cv cw calm_ccr_wait [OF x] stuck [of u v w] move [of u v w x]
            by (auto simp del: crds.simps split: if_splits)
        qed
      qed
    qed
  qed
qed

text \<open>C35. The DMA test never lets the card master the bus at an address of its own: the command that enables
  the channel is given only after both descriptors of that channel name memory inside the region reserved
  for the card and are handed over.  Below stage 4 the last command
  given to the channel is still its initialisation, and stage 4 reports success
  only after the eight bytes read back from the receive buffer were the message sent.\<close>

theorem stage_arms_first:
  assumes "nm32a_stage E c ch n s = Some (r, t)" and "closed (evs s)" and "ch < 4"
  shows "enabled_armed c ch (evs t) = enabled_armed c ch (evs s) \<and>
    (if n < 4 then chan_reg c ch CCR (evs t) = Some CCR_INITCH
     else r = 0 \<longrightarrow> take 8 (evs t) = echo_read)"
proof -
  let ?a = "cwrs c (stage_regs ch) (stage_fill s)"
  have f: "closed (evs (stage_fill s))" "enabled_armed c ch (evs (stage_fill s)) = enabled_armed c ch (evs s)"
    using calm_log [OF calm_stage_fill [of s]] assms(2) by simp_all
  note A = stage_regs_run [OF f(1) assms(3), of c] f(2)
  note U = calm_log
  from assms show ?thesis
  proof (cases rule: stage_split)
    case init
    with A U [OF init(1)] show ?thesis by auto
  next
    case (rx u)
    with A U [OF rx(1)] U [OF rx(2)] arm_rx_run [of c u ch] show ?thesis by simp
  next
    case (tx u v)
    have a: "armed c ch ARBADRU ARBADRL ARBCNT ARBSTS (evs v)"
      using A U [OF tx(1)] U [OF tx(2)] arm_rx_run [of c u ch] by (simp add: armed_def reg16_def)
    with tx A U [OF tx(1)] U [OF tx(2)] U [OF tx(3)] arm_rx_run [of c u ch] arm_tx_run [of c v ch]
    show ?thesis by simp
  next
    case (stuck u v w)
    have a: "armed c ch ARBADRU ARBADRL ARBCNT ARBSTS (evs v)"
      using A U [OF stuck(1)] U [OF stuck(2)] arm_rx_run [of c u ch] by (simp add: armed_def reg16_def)
    then have b: "both_armed c ch (evs w)"
      using A U [OF stuck(1)] U [OF stuck(2)] U [OF stuck(3)] arm_rx_run [of c u ch] arm_tx_run [of c v ch]
        both_armed_cong [of c ch "evs w" "evs (arm_tx_desc c TXP v)"] by simp
    with a stuck A U [OF stuck(1)] U [OF stuck(2)] U [OF stuck(3)] U [OF stuck(4)] arm_rx_run [of c u ch]
      arm_tx_run [of c v ch]
    show ?thesis by simp
  next
    case (move u v w x)
    have a: "armed c ch ARBADRU ARBADRL ARBCNT ARBSTS (evs v)"
      using A U [OF move(1)] U [OF move(2)] arm_rx_run [of c u ch] by (simp add: armed_def reg16_def)
    then have b: "both_armed c ch (evs w)"
      using A U [OF move(1)] U [OF move(2)] U [OF move(3)] arm_rx_run [of c u ch] arm_tx_run [of c v ch]
        both_armed_cong [of c ch "evs w" "evs (arm_tx_desc c TXP v)"] by simp
    note M = stage_move_log [OF move(5)]
    have "enabled_armed c ch (evs t) = enabled_armed c ch (evs x)"
      using U [OF M(1)] by simp
    with a b M(2) move A U [OF move(1)] U [OF move(2)] U [OF move(3)] U [OF move(4)] arm_rx_run [of c u ch]
      arm_tx_run [of c v ch]
    show ?thesis by simp
  qed
qed

text \<open>A second environment for concrete runs: the scratch memory echoes the message.\<close>

definition lab_demo :: labenv where
  "lab_demo = \<lparr>dma_mem = (\<lambda>h a. if 0x1000 \<le> a \<and> a < 0x1008 then stage_msg ! (a - 0x1000) else 0),
     bar_w = (\<lambda>h a. Some 0), io_in = (\<lambda>h a. Some 0), us_clock = (\<lambda>h. int (length h)), io_start = 0x100, io_len = 16\<rparr>"

lemma demo_read0:
  "hw s = demo_hw \<Longrightarrow> r \<noteq> TIR \<Longrightarrow> r \<noteq> TFTC \<Longrightarrow> crd 0 r s = Some (0, ev (RdB (Reg 0 r) 0) s)"
  by (simp add: demo_crd demo_dev_def)

lemma demo_stage_move:
  assumes "hw s = demo_hw"
  shows "\<exists>t. stage_move lab_demo 0 s = Some (0, t)"
proof -
  have n: "STAGE_TRIES = Suc 199999" by (simp add: STAGE_TRIES_def)
  have l: "dma_compare lab_demo 0x1000 stage_msg s = (True, snd (dma_compare lab_demo 0x1000 stage_msg s))" for s
    by (simp add: stage_msg_def lab_demo_def dma_rd_def Let_def)
  have o: "own_poll STAGE_TRIES 0 0 s = Some (0, ev (RdB (Reg 0 ATBSTS) 0) s)"
    using assms unfolding n own_poll.simps by (simp add: demo_read0)
  have d: "dma_mem lab_demo h 0x1000 = 0x44" for h
    by (simp add: lab_demo_def stage_msg_def)
  then have p: "dma_poll STAGE_TRIES lab_demo 0x1000 u = ev (Io (DmaRd 0x1000 0x44)) u" for u
    unfolding n dma_poll.simps by (simp add: dma_rd_def Let_def)
  show ?thesis
    by (simp add: stage_move_def o p demo_read0 assms dma_rd_def Let_def split: prod.split)
      (metis l fst_conv)
qed

lemma demo_stage:
  assumes "hw s = demo_hw"
  shows "\<exists>t. nm32a_stage lab_demo 0 0 4 s = Some (0, t)"
  using assms demo_stage_move by (simp add: nm32a_stage_def Let_def demo_ccr_wait demo_read0)

theorem stage_arms_first_witness:
  "\<exists>t. nm32a_stage lab_demo 0 0 4 (kzalloc_card demo_hw default_params) = Some (0, t) \<and>
     enabled_armed 0 0 (evs t) \<and> take 8 (evs t) = echo_read"
proof -
  obtain t where t: "nm32a_stage lab_demo 0 0 4 (kzalloc_card demo_hw default_params) = Some (0, t)"
    using demo_stage [of "kzalloc_card demo_hw default_params"] by auto
  from stage_arms_first [OF t] t show ?thesis by (simp add: closed_def)
qed

text \<open>C36. Both searches for the acknowledge address end on a card whose reads retire, with a clock that advances, whatever
  the card returns, and every address that they probe on the way, byte or half-word, lies inside the one megabyte of the
  BAR and outside the register windows of all eight chips (the registers of the channel under test are accessed by
  name, in their window).\<close>

theorem searches_spare_chips:
  assumes "responsive (hw s)" and "ticks (hw s)" and "io_alive E"
  shows "(\<exists>s'. nm32a_find_iack E s = Some s' \<and> grows outside s s') \<and>
    (\<exists>a s'. nm32a_hunt_ack wr s = Some (a, s') \<and> grows outside s s')"
proof -
  obtain t where t: "nm32a_find_iack E s = Some t"
    using returns_find_iack [OF assms refl] by (auto simp: returns_def)
  obtain a u where u: "nm32a_hunt_ack wr s = Some (a, u)"
    using returns_hunt_ack [OF assms(1,2) refl, of wr] by (auto simp: returns_def)
  from t u does_find_iack [of s E] does_hunt_ack [of s wr] show ?thesis
    by (auto simp: does_def here_def)
qed

lemma demo_ticks: "ticks demo_hw"
  unfolding ticks_def
  by (intro exI [of _ 63])
    (simp add: demo_hw_def msecs_to_jiffies_def CCR_WAIT_MS_def time_before_def)

theorem searches_spare_chips_witness:
  "\<exists>a s'. nm32a_hunt_ack True (kzalloc_card demo_hw default_params) = Some (a, s') \<and>
     grows outside (kzalloc_card demo_hw default_params) s'"
  using searches_spare_chips [of "kzalloc_card demo_hw default_params" lab_demo True]
  by (simp add: demo_responsive demo_ticks io_alive_def lab_demo_def)

end
