(* ===== verification/Nm32a_Poll.thy ===== *)
theory Nm32a_Poll
  imports Nm32a_Progress Nm32a_Lab
begin

text \<open>
  The poll thread sends what is queued and takes what arrives.  The card is any card that keeps its side of the handshake the code is
  written for (the datasheet sections quoted in \<open>nm32a_service\<close>): a channel asks for bytes as long as its
  transmit interrupt is enabled, the far end sends a fixed number of bursts, a request shows in TIR or RIR after at
  most a fixed number of looks, an acknowledge of a request that was confirmed grants something that was asked
  for, and the FIFO then has room for a byte.  Under that contract every service lowers what is left to do on its chip
  (\<open>work_left\<close>), a sweep that finds a chip quiet either used up some of the card's patience or there is nothing left in
  the rings of its open ports, and no chip undoes the work of another.
\<close>

section \<open>A card that keeps its side\<close>

text \<open>Channel \<open>ch\<close> asks for bytes: the transmit interrupt, bit 0 of its IER, is enabled.\<close>

definition asks_on :: "nat \<Rightarrow> nat \<Rightarrow> cev list \<Rightarrow> bool" where
  "asks_on c ch l \<longleftrightarrow> (case chan_reg c ch IER l of Some v \<Rightarrow> v AND 1 \<noteq> 0 | None \<Rightarrow> False)"

definition asks_tx :: "nat \<Rightarrow> cev list \<Rightarrow> bool" where
  "asks_tx c l \<longleftrightarrow> (\<exists>ch \<in> {0, 1, 2, 3}. asks_on c ch l)"

text \<open>Receive services that were ended, and looks at TIR and at RIR since the last service that did not show a request there was.\<close>

fun rx_ends :: "nat \<Rightarrow> cev list \<Rightarrow> nat" where
  "rx_ends c [] = 0"
| "rx_ends c (WrB (Reg c' r) v # l) = (if c' = c \<and> r = REOIR then Suc (rx_ends c l) else rx_ends c l)"
| "rx_ends c (_ # l) = rx_ends c l"

fun waited :: "nat \<Rightarrow> cev list \<Rightarrow> nat" where
  "waited c [] = 0"
| "waited c (RdB (Reg c' r) v # l) =
     (if c' = c \<and> r = TIR \<and> v AND 0x80 = 0 \<and> asks_tx c l then Suc (waited c l) else waited c l)"
| "waited c (WrB (Reg c' r) v # l) = (if c' = c \<and> (r = TEOIR \<or> r = REOIR) then 0 else waited c l)"
| "waited c (_ # l) = waited c l"

fun waited_rx :: "nat \<Rightarrow> nat \<Rightarrow> cev list \<Rightarrow> nat" where
  "waited_rx R c [] = 0"
| "waited_rx R c (RdB (Reg c' r) v # l) =
     (if c' = c \<and> r = RIR \<and> v AND 0x80 = 0 \<and> rx_ends c l < R then Suc (waited_rx R c l) else waited_rx R c l)"
| "waited_rx R c (WrB (Reg c' r) v # l) = (if c' = c \<and> (r = TEOIR \<or> r = REOIR) then 0 else waited_rx R c l)"
| "waited_rx R c (_ # l) = waited_rx R c l"

text \<open>The last access was no acknowledge; and the last accesses were a confirmed request of chip \<open>c\<close>.\<close>

fun no_ack :: "cev list \<Rightarrow> bool" where
  "no_ack [] = True"
| "no_ack (e # l) = (\<not> is_ack e)"

fun confirmed_on :: "nat \<Rightarrow> cev list \<Rightarrow> bool" where
  "confirmed_on c (RdB (Reg c' r) v # l) = (c' = c \<and> confirmed (RdB (Reg c' r) v # l))"
| "confirmed_on c _ = False"

text \<open>
  What the two registers show after an acknowledge: good data of a receiver while the far end still sends, or the
  transmitter of a channel that asks.
\<close>

definition grants :: "nat \<Rightarrow> nat \<Rightarrow> cev list \<Rightarrow> u8 \<Rightarrow> u8 \<Rightarrow> bool" where
  "grants c R l tir rir \<longleftrightarrow> rir AND 0xCC = 0x4C \<and> rx_ends c l < R \<or>
     rir AND 0xC0 \<noteq> 0x40 \<and> tir AND 0xC0 = 0x40 \<and> asks_on c (unat (tir AND 3)) l"

text \<open>
  The contract of one chip, at every point of every log: the data and status registers answer, the FIFO has room and
  the end of an interrupt takes at once; a look at TIR shows a request only if a channel asks, and always after \<open>D\<close>
  looks that did not; RIR shows a request only while fewer than \<open>R\<close> receive services were ended, and then always after
  \<open>D\<close> looks that did not; an acknowledge of a confirmed request is granted.
\<close>

definition works :: "nat \<Rightarrow> nat \<Rightarrow> nat \<Rightarrow> hwenv \<Rightarrow> bool" where
  "works c R D h \<longleftrightarrow> (\<forall>l.
     (\<forall>a \<in> {RFOC, RDR}. dev h l (chip_off ! c + a) \<noteq> None) \<and>
     (\<exists>f. f \<noteq> 0 \<and> dev h l (chip_off ! c + TFTC) = Some f) \<and> dev h l (chip_off ! c + STK) = Some 0 \<and>
     (closed l \<and> no_ack l \<longrightarrow> (\<exists>t. dev h l (chip_off ! c + TIR) = Some t \<and>
       (t AND 0x80 \<noteq> 0 \<longrightarrow> asks_tx c l) \<and> (asks_tx c l \<and> D \<le> waited c l \<longrightarrow> t AND 0x80 \<noteq> 0))) \<and>
     (closed l \<and> just_acked c l = None \<longrightarrow>
       (\<exists>r. dev h l (chip_off ! c + RIR) = Some r \<and> (r AND 0x80 \<noteq> 0 \<longrightarrow> rx_ends c l < R) \<and>
         (rx_ends c l < R \<and> D \<le> waited_rx R c l \<longrightarrow> r AND 0x80 \<noteq> 0))) \<and>
     (closed l \<and> confirmed_on c l \<and> (asks_tx c l \<or> rx_ends c l < R) \<longrightarrow> (\<forall>a < 4. \<exists>v t r. dev h l a = Some v \<and>
       dev h (RdB (Bar a) v # l) (chip_off ! c + TIR) = Some t \<and>
       dev h (RdB (Reg c TIR) t # RdB (Bar a) v # l) (chip_off ! c + RIR) = Some r \<and> grants c R l t r)))"

lemma bits_4C: "(r :: u8) AND 0xCC = 0x4C \<Longrightarrow> r AND 0xC0 = 0x40 \<and> r AND 0x0c = 0x0c"
proof -
  assume a: "r AND 0xCC = 0x4C"
  have "r AND 0xC0 = (r AND 0xCC) AND 0xC0" "r AND 0x0c = (r AND 0xCC) AND 0x0c"
    by (simp_all add: and.assoc)
  then show ?thesis by (simp add: a)
qed

lemma asks_reads [simp]:
  "asks_on c ch (RdB a v # l) = asks_on c ch l" "asks_tx c (RdB a v # l) = asks_tx c l"
  "asks_on c ch (Lk # l) = asks_on c ch l" "asks_tx c (Lk # l) = asks_tx c l"
  "asks_on c ch (Ulk # l) = asks_on c ch l" "asks_tx c (Ulk # l) = asks_tx c l"
  "asks_on c ch (Udelay d # l) = asks_on c ch l" "asks_tx c (Udelay d # l) = asks_tx c l"
  "asks_on c ch (Msleep d # l) = asks_on c ch l" "asks_tx c (Msleep d # l) = asks_tx c l"
  "asks_on c ch (Flip i bs # l) = asks_on c ch l" "asks_tx c (Flip i bs # l) = asks_tx c l"
  by (cases a; simp add: asks_on_def asks_tx_def)+

lemma asks_txI: "asks_on c ch l \<Longrightarrow> ch < 4 \<Longrightarrow> asks_tx c l"
  by (auto simp: asks_tx_def dest!: less_4_cases)

lemma rx_ends_reads [simp]: "rx_ends c (RdB a v # l) = rx_ends c l"
  by (cases a) simp_all

lemma bit_80: "(x :: u8) AND 0x80 = 0 \<longleftrightarrow> \<not> bit x 7"
proof -
  have "(0x80 :: u8) = push_bit 7 1" by (simp add: push_bit_eq_mult)
  then show ?thesis by (simp only: bit_iff_and_push_bit_not_eq_0 not_not)
qed

lemma bits_80:
  "((x :: u8) OR y) AND 0x80 = 0 \<longleftrightarrow> x AND 0x80 = 0 \<and> y AND 0x80 = 0"
  "(x :: u8) AND y AND 0x80 = 0 \<longleftrightarrow> x AND 0x80 = 0 \<or> y AND 0x80 = 0"
  unfolding and.assoc [symmetric] bit_80 by (simp_all add: bit_simps)

text \<open>One look at the two request registers.\<close>

lemma look:
  assumes "works c R D (hw s)" and "closed (evs s)" and "no_ack (evs s)"
  obtains t r where "crd c TIR s = Some (t, ev (RdB (Reg c TIR) t) s)"
    and "crd c RIR (ev (RdB (Reg c TIR) t) s) = Some (r, ev (RdB (Reg c RIR) r) (ev (RdB (Reg c TIR) t) s))"
    and "closed (RdB (Reg c RIR) r # RdB (Reg c TIR) t # evs s)"
    and "(t OR r) AND 0x80 \<noteq> 0 \<Longrightarrow> asks_tx c (evs s) \<or> rx_ends c (evs s) < R"
    and "(t OR r) AND 0x80 = 0 \<Longrightarrow> asks_tx c (evs s) \<Longrightarrow> waited c (evs s) < D \<and>
       waited c (RdB (Reg c RIR) r # RdB (Reg c TIR) t # evs s) = Suc (waited c (evs s))"
    and "(t OR r) AND 0x80 = 0 \<Longrightarrow> rx_ends c (evs s) < R \<Longrightarrow> waited_rx R c (evs s) < D \<and>
       waited_rx R c (RdB (Reg c RIR) r # RdB (Reg c TIR) t # evs s) = Suc (waited_rx R c (evs s))"
    and "waited c (evs s) \<le> waited c (RdB (Reg c RIR) r # RdB (Reg c TIR) t # evs s) \<and>
      waited_rx R c (evs s) \<le> waited_rx R c (RdB (Reg c RIR) r # RdB (Reg c TIR) t # evs s)"
proof -
  obtain t where t: "dev (hw s) (evs s) (chip_off ! c + TIR) = Some t"
      "t AND 0x80 \<noteq> 0 \<longrightarrow> asks_tx c (evs s)" "asks_tx c (evs s) \<and> D \<le> waited c (evs s) \<longrightarrow> t AND 0x80 \<noteq> 0"
    using assms unfolding works_def by blast
  let ?l = "RdB (Reg c TIR) t # evs s"
  have j: "just_acked c ?l = None"
    using assms(3) by (cases "evs s") (simp_all add: just_acked_def)
  have c1: "closed ?l" using assms(2) by (simp add: closed_def)
  then obtain r where r: "dev (hw s) ?l (chip_off ! c + RIR) = Some r" "r AND 0x80 \<noteq> 0 \<longrightarrow> rx_ends c ?l < R"
      "rx_ends c ?l < R \<and> D \<le> waited_rx R c ?l \<longrightarrow> r AND 0x80 \<noteq> 0"
    using assms(1) j unfolding works_def by blast
  have c2: "closed (RdB (Reg c RIR) r # ?l)" using c1 j by (simp add: closed_def)
  have w: "waited c (RdB (Reg c RIR) r # ?l) =
      (if t AND 0x80 = 0 \<and> asks_tx c (evs s) then Suc (waited c (evs s)) else waited c (evs s))"
    by simp
  have wr: "waited_rx R c (RdB (Reg c RIR) r # ?l) =
      (if r AND 0x80 = 0 \<and> rx_ends c (evs s) < R then Suc (waited_rx R c (evs s)) else waited_rx R c (evs s))"
    by simp
  have rd: "crd c TIR s = Some (t, ev (RdB (Reg c TIR) t) s)"
      "crd c RIR (ev (RdB (Reg c TIR) t) s) = Some (r, ev (RdB (Reg c RIR) r) (ev (RdB (Reg c TIR) t) s))"
    using t(1) r(1) by (simp_all only: crd_Some ev_fields simp_thms)
  have q: "asks_tx c (evs s) \<Longrightarrow> t AND 0x80 = 0 \<Longrightarrow> waited c (evs s) < D"
      "rx_ends c (evs s) < R \<Longrightarrow> r AND 0x80 = 0 \<Longrightarrow> waited_rx R c (evs s) < D"
      "r AND 0x80 \<noteq> 0 \<Longrightarrow> rx_ends c (evs s) < R"
    using t(3) r(2,3) by (auto simp: not_less [symmetric])
  show thesis
    by (rule that [OF rd c2]) (use t(2) q in \<open>auto simp only: w wr bits_80 simp_thms if_True if_False le_refl le_SucI split: if_splits\<close>)
qed

text \<open>What the looks leave alone.\<close>

definition like_before :: "nat \<Rightarrow> nm32a \<Rightarrow> nm32a \<Rightarrow> bool" where
  "like_before c s s' \<longleftrightarrow> ports s' = ports s \<and> hw s' = hw s \<and> par s' = par s \<and>
     rx_ends c (evs s') = rx_ends c (evs s) \<and> (\<forall>ch. asks_on c ch (evs s') = asks_on c ch (evs s)) \<and>
     (\<forall>c ch. rx_taken c ch (evs s') = rx_taken c ch (evs s)) \<and> (\<forall>i. flipped i (evs s') = flipped i (evs s))"

lemma same_asks: "like_before c s s' \<Longrightarrow> asks_tx c (evs s') = asks_tx c (evs s)"
  by (simp add: like_before_def asks_tx_def)

text \<open>
  The routine looks twice.  Either it sees nothing, and leaves; then the card asked for nothing or has let one more
  look pass; or it goes on to the acknowledge with a request that is confirmed.
\<close>

lemma pass_looks:
  assumes "works c R D (hw s)" and "good s"
  obtains (quiet) s' where "nm32a_service c s = Some (False, s')" and "like_before c s s'"
      and "waited c (evs s) \<le> waited c (evs s')" and "waited_rx R c (evs s) \<le> waited_rx R c (evs s')"
      and "asks_tx c (evs s) \<Longrightarrow> waited c (evs s) < D \<and> waited c (evs s) < waited c (evs s')"
      and "rx_ends c (evs s) < R \<Longrightarrow> waited_rx R c (evs s) < D \<and> waited_rx R c (evs s) < waited_rx R c (evs s')"
    | (asked) t r tr s1 where "nm32a_service c s = service_ack c t r tr s1" and "like_before c s s1"
      and "closed (evs s1)" and "confirmed_on c (evs s1)" and "asks_tx c (evs s) \<or> rx_ends c (evs s) < R"
proof -
  let ?s0 = "mutex_lock s"
  have s0: "hw ?s0 = hw s" "closed (evs ?s0)" "no_ack (evs ?s0)" "like_before c s ?s0"
    using assms(2) by (simp_all add: good_def mutex_lock_def closed_def like_before_def)
  obtain t r where a: "crd c TIR ?s0 = Some (t, ev (RdB (Reg c TIR) t) ?s0)"
      "crd c RIR (ev (RdB (Reg c TIR) t) ?s0) = Some (r, ev (RdB (Reg c RIR) r) (ev (RdB (Reg c TIR) t) ?s0))"
    and la: "closed (RdB (Reg c RIR) r # RdB (Reg c TIR) t # evs ?s0)"
      "(t OR r) AND 0x80 \<noteq> 0 \<Longrightarrow> asks_tx c (evs ?s0) \<or> rx_ends c (evs ?s0) < R"
      "(t OR r) AND 0x80 = 0 \<Longrightarrow> asks_tx c (evs ?s0) \<Longrightarrow> waited c (evs ?s0) < D \<and>
         waited c (RdB (Reg c RIR) r # RdB (Reg c TIR) t # evs ?s0) = Suc (waited c (evs ?s0))"
      "(t OR r) AND 0x80 = 0 \<Longrightarrow> rx_ends c (evs ?s0) < R \<Longrightarrow> waited_rx R c (evs ?s0) < D \<and>
         waited_rx R c (RdB (Reg c RIR) r # RdB (Reg c TIR) t # evs ?s0) = Suc (waited_rx R c (evs ?s0))"
      "waited c (evs ?s0) \<le> waited c (RdB (Reg c RIR) r # RdB (Reg c TIR) t # evs ?s0) \<and>
       waited_rx R c (evs ?s0) \<le> waited_rx R c (RdB (Reg c RIR) r # RdB (Reg c TIR) t # evs ?s0)"
    using assms(1) s0 by (elim look [of c R D ?s0, rotated 3]) simp_all
  let ?s2 = "ev (RdB (Reg c RIR) r) (ev (RdB (Reg c TIR) t) ?s0)"
  define tr where "tr = (0 < trace s \<and> (t OR r) AND 0x80 \<noteq> 0)"
  define s2 where "s2 = (if tr then ?s2\<lparr>trace := trace s - 1\<rparr> else ?s2)"
  have s2: "evs s2 = RdB (Reg c RIR) r # RdB (Reg c TIR) t # evs ?s0" "hw s2 = hw s" "like_before c s s2"
    using s0 by (auto simp: s2_def like_before_def mutex_lock_def)
  show thesis
  proof (cases "(t OR r) AND 0x80 = 0")
    case True
    have "nm32a_service c s = Some (False, mutex_unlock s2)"
      using a True by (simp add: nm32a_service_def Let_def s2_def tr_def mutex_lock_def)
    moreover have "like_before c s (mutex_unlock s2)" using s2(3) by (simp add: like_before_def mutex_unlock_def)
    ultimately show thesis using la True s2(1)
      by (intro quiet [of "mutex_unlock s2"]) (auto simp: mutex_unlock_def)
  next
    case False
    have f2: "no_ack (evs s2)" "closed (evs s2)" using la(1) s2(1) by simp_all
    obtain t' r' where b: "crd c TIR s2 = Some (t', ev (RdB (Reg c TIR) t') s2)"
        "crd c RIR (ev (RdB (Reg c TIR) t') s2) = Some (r', ev (RdB (Reg c RIR) r') (ev (RdB (Reg c TIR) t') s2))"
      and lb: "closed (RdB (Reg c RIR) r' # RdB (Reg c TIR) t' # evs s2)"
        "(t' OR r') AND 0x80 \<noteq> 0 \<Longrightarrow> asks_tx c (evs s2) \<or> rx_ends c (evs s2) < R"
        "(t' OR r') AND 0x80 = 0 \<Longrightarrow> asks_tx c (evs s2) \<Longrightarrow> waited c (evs s2) < D \<and>
         waited c (RdB (Reg c RIR) r' # RdB (Reg c TIR) t' # evs s2) = Suc (waited c (evs s2))"
      "(t' OR r') AND 0x80 = 0 \<Longrightarrow> rx_ends c (evs s2) < R \<Longrightarrow> waited_rx R c (evs s2) < D \<and>
         waited_rx R c (RdB (Reg c RIR) r' # RdB (Reg c TIR) t' # evs s2) = Suc (waited_rx R c (evs s2))"
        "waited c (evs s2) \<le> waited c (RdB (Reg c RIR) r' # RdB (Reg c TIR) t' # evs s2) \<and>
       waited_rx R c (evs s2) \<le> waited_rx R c (RdB (Reg c RIR) r' # RdB (Reg c TIR) t' # evs s2)"
      using assms(1) f2 s2(2) by (elim look [of c R D s2, rotated 3]) simp_all
    define s3 where "s3 = ev (RdB (Reg c RIR) r') (ev (RdB (Reg c TIR) t') s2)"
    have s3: "like_before c s s3" using s2(3) by (simp add: like_before_def s3_def)
    have r: "nm32a_service c s = (if (t OR r) AND (t' OR r') AND 0x80 = 0 then Some (False, mutex_unlock s3)
        else service_ack c t' r' tr s3)"
      using a b False by (cases "0 < trace s") (simp_all add: nm32a_service_def Let_def s2_def tr_def s3_def mutex_lock_def)
    have q: "asks_tx c (evs s2) = asks_tx c (evs s)" "rx_ends c (evs s2) = rx_ends c (evs s)"
        "waited c (evs s) \<le> waited c (evs s2)" "waited_rx R c (evs s) \<le> waited_rx R c (evs s2)"
      using s2(3) same_asks [OF s2(3)] la(4) by (simp_all add: like_before_def s2(1))
    show thesis
    proof (cases "(t OR r) AND (t' OR r') AND 0x80 = 0")
      case True
      then have n: "(t' OR r') AND 0x80 = 0" using False by (auto simp: bits_80)
      have "like_before c s (mutex_unlock s3)" using s3 by (simp add: like_before_def mutex_unlock_def)
      then show thesis using r True n lb q
        by (intro quiet [of "mutex_unlock s3"]) (auto simp: mutex_unlock_def s3_def)
    next
      case False
      then have n: "(t' OR r') AND 0x80 \<noteq> 0" by (auto simp: word_bw_assocs)
      have "confirmed_on c (evs s3)" using False by (simp add: s3_def s2(1) confirmed_def)
      moreover have "closed (evs s3)" using lb(1) by (simp add: s3_def)
      ultimately show thesis using r False n lb q s3 by (intro asked) simp_all
    qed
  qed
qed


section \<open>What an acknowledge is given\<close>

lemma same_trans [trans]: "like_before c s t \<Longrightarrow> like_before c t u \<Longrightarrow> like_before c s u"
  by (simp add: like_before_def)

lemma ack_takes:
  assumes "works c R D (hw s)" and "closed (evs s)" and "confirmed_on c (evs s)"
    and "asks_tx c (evs s) \<or> rx_ends c (evs s) < R"
  obtains (rx) r s1 where "service_ack c t0 r0 tr s = service_rx c r tr s1" and "like_before c s s1"
      and "open_ctx (evs s1) = RxCtx c (unat (r AND 3))" and "r AND 0x0c = 0x0c" and "rx_ends c (evs s) < R"
    | (tx) t s1 where "service_ack c t0 r0 tr s = service_tx c t s1" and "like_before c s s1"
      and "open_ctx (evs s1) = TxCtx c (unat (t AND 3))" and "asks_on c (unat (t AND 3)) (evs s)"
proof -
  let ?a = "if r0 AND 0x80 \<noteq> 0 then NM32A_ACK_RX s else NM32A_ACK_TX s"
  have "?a < 4" by (simp add: ack_small)
  with assms obtain v t r where v: "dev (hw s) (evs s) ?a = Some v"
      "dev (hw s) (RdB (Bar ?a) v # evs s) (chip_off ! c + TIR) = Some t"
      "dev (hw s) (RdB (Reg c TIR) t # RdB (Bar ?a) v # evs s) (chip_off ! c + RIR) = Some r"
    and g: "grants c R (evs s) t r" unfolding works_def by blast
  define s1 where "s1 = ev (RdB (Reg c RIR) r) (ev (RdB (Reg c TIR) t) (ev (RdB (Bar ?a) v) s))"
  have rd: "rdb (Bar ?a) s = Some (v, ev (RdB (Bar ?a) v) s)"
      "crd c TIR (ev (RdB (Bar ?a) v) s) = Some (t, ev (RdB (Reg c TIR) t) (ev (RdB (Bar ?a) v) s))"
      "crd c RIR (ev (RdB (Reg c TIR) t) (ev (RdB (Bar ?a) v) s)) = Some (r, s1)"
    using v by (simp_all only: rdb_Some crd_Some ev_fields bar_offset.simps s1_def simp_thms)
  have o: "open_ctx (evs s1) = grant c t r" by (simp add: s1_def just_acked_def)
  have s1: "like_before c s s1" by (simp add: like_before_def s1_def)
  have m: "like_before c s (s1\<lparr>st_misgrant := x\<rparr>)" "open_ctx (evs (s1\<lparr>st_misgrant := x\<rparr>)) = grant c t r" for x
    using s1 o by (simp_all add: like_before_def)
  have a: "service_ack c t0 r0 tr s = (if r AND 0xC0 \<noteq> 0x40 \<and> t AND 0xC0 \<noteq> 0x40
      then Some (False, mutex_unlock (s1\<lparr>st_nogrant := st_nogrant s1 + 1\<rparr>))
      else let s = (if (r AND 0xC0 = 0x40) \<noteq> (r0 AND 0x80 \<noteq> 0) then s1\<lparr>st_misgrant := st_misgrant s1 + 1\<rparr> else s1)
        in if r AND 0xC0 = 0x40 \<and> r \<noteq> 0 then service_rx c r tr s
           else service_tx c (if r AND 0xC0 \<noteq> 0x40 \<and> t AND 0xC0 = 0x40 then t else t0) s)"
    by (simp only: service_ack_def Let_def rd bind.bind_lunit prod.case) (simp cong: if_cong)
  show thesis
  proof (cases "r AND 0xC0 = 0x40")
    case True
    with g have "r AND 0x0c = 0x0c" "rx_ends c (evs s) < R" by (auto simp: grants_def dest: bits_4C)
    moreover from True have "r \<noteq> 0" by auto
    ultimately show thesis using a True s1 m o by (auto simp: Let_def split: if_splits intro: rx)
  next
    case False
    with g have "t AND 0xC0 = 0x40" "asks_on c (unat (t AND 3)) (evs s)"
      by (auto simp: grants_def dest: bits_4C)
    with a False s1 m o show thesis by (auto simp: Let_def split: if_splits intro: tx)
  qed
qed

section \<open>The two services\<close>

lemma read_rdr_returns:
  assumes "works c R D (hw s)"
  shows "\<exists>bs s'. read_rdr c us n s = Some (bs, s') \<and> hw s' = hw s \<and> par s' = par s \<and>
    rx_ends c (evs s') = rx_ends c (evs s) \<and> (\<forall>ch. asks_on c ch (evs s') = asks_on c ch (evs s))"
  using assms
proof (induction n arbitrary: s)
  case (Suc n)
  obtain v where v: "crd c RDR s = Some (v, ev (RdB (Reg c RDR) v) s)"
    using Suc.prems by (auto simp: works_def crd_Some)
  let ?t = "if us \<noteq> 0 then ev (Udelay us) (ev (RdB (Reg c RDR) v) s) else ev (RdB (Reg c RDR) v) s"
  have t: "hw ?t = hw s" "par ?t = par s" "rx_ends c (evs ?t) = rx_ends c (evs s)"
      "asks_on c ch (evs ?t) = asks_on c ch (evs s)" for ch by simp_all
  have "works c R D (hw ?t)" using Suc.prems t(1) by simp
  from Suc.IH [OF this] obtain bs s' where "read_rdr c us n ?t = Some (bs, s')" "hw s' = hw ?t" "par s' = par ?t"
      "rx_ends c (evs s') = rx_ends c (evs ?t)" "\<forall>ch. asks_on c ch (evs s') = asks_on c ch (evs ?t)" by blast
  with v t show ?case by (auto simp: Let_def)
qed simp

lemma eoi_once:
  assumes "works c R D (hw s)"
  obtains s' where "nm32a_eoi c r v s = Some s'" and "ports s' = ports s" and "hw s' = hw s" and "par s' = par s"
    and "r \<noteq> IER \<longrightarrow> (\<forall>ch. asks_on c ch (evs s') = asks_on c ch (evs s))"
    and "rx_ends c (evs s') = (if r = REOIR then Suc (rx_ends c (evs s)) else rx_ends c (evs s))"
    and "r = REOIR \<or> r = TEOIR \<longrightarrow> waited c (evs s') = 0 \<and> (\<forall>R. waited_rx R c (evs s') = 0)"
    and "(\<forall>c ch. rx_taken c ch (evs s') = rx_taken c ch (evs s)) \<and> (\<forall>i. flipped i (evs s') = flipped i (evs s))"
proof -
  have "crd c STK (cwr c r v s) = Some (0, ev (RdB (Reg c STK) 0) (cwr c r v s))"
    using assms by (simp add: works_def crd_Some cwr_def)
  from eoi_pops [OF this] show thesis
    by (rule that) (auto simp: cwr_def asks_on_def)
qed

lemma service_rx_works:
  assumes "works c R D (hw s)" and "r AND 0x0c = 0x0c" and "open_ctx (evs s) = RxCtx c (unat (r AND 3))"
  obtains s' bs where "service_rx c r tr s = Some (True, s')" and "ports s' = ports s"
    and "\<forall>ch. asks_on c ch (evs s') = asks_on c ch (evs s)"
    and "rx_ends c (evs s') = Suc (rx_ends c (evs s))"
    and "rx_moves c (unat (r AND 3)) bs bs s s'"
proof -
  let ?ch = "unat (r AND 3)"
  obtain n where n: "crd c RFOC s = Some (n, ev (RdB (Reg c RFOC) n) s)"
    using assms(1) by (auto simp: works_def crd_Some)
  let ?s1 = "ev (RdB (Reg c RFOC) n) s"
  obtain bs s2 where r: "read_rdr c (rdrus (par ?s1)) (rx_count n) ?s1 = Some (bs, s2)"
    and k: "hw s2 = hw s" "rx_ends c (evs s2) = rx_ends c (evs s)" "\<forall>ch. asks_on c ch (evs s2) = asks_on c ch (evs s)"
    using read_rdr_returns [of c R D ?s1] assms(1) by fastforce
  have "open_ctx (evs ?s1) = RxCtx c ?ch" using assms(3) by simp
  note D = read_rdr_spec [OF r this unat_and_3]
  let ?s3 = "s2\<lparr>st_good := st_good s2 + 1, st_bytes := st_bytes s2 + word_of_nat (length bs)\<rparr>"
  have "works c R D (hw ?s3)" using assms(1) k by simp
  then obtain s4 where e: "nm32a_eoi c REOIR 0 ?s3 = Some s4"
    and q: "ports s4 = ports ?s3" "hw s4 = hw ?s3" "par s4 = par ?s3"
      "REOIR \<noteq> IER \<longrightarrow> (\<forall>ch. asks_on c ch (evs s4) = asks_on c ch (evs ?s3))"
      "rx_ends c (evs s4) = (if REOIR = REOIR then Suc (rx_ends c (evs ?s3)) else rx_ends c (evs ?s3))"
      "REOIR = REOIR \<or> REOIR = TEOIR \<longrightarrow> waited c (evs s4) = 0 \<and> (\<forall>R. waited_rx R c (evs s4) = 0)"
      "(\<forall>c ch. rx_taken c ch (evs s4) = rx_taken c ch (evs ?s3)) \<and> (\<forall>i. flipped i (evs s4) = flipped i (evs ?s3))"
    by (rule eoi_once [where r = REOIR and v = 0])
  let ?i = "pidx c ?ch"
  have p: "ports s4 = ports s" using q(1) D by simp
  have "service_rx c r tr s = Some (True, rx_deliver ?i bs (mutex_unlock s4))"
    using assms(2) n r e by (simp add: service_rx_def service_rx_data_def Let_def)
  moreover have "rx_moves c ?ch bs bs s (rx_deliver ?i bs (mutex_unlock s4))"
    using D q(7) p by (auto simp: rx_moves_def rx_deliver_def tty_flip_def port_def)
  ultimately show thesis
    by (intro that) (use k q p in \<open>simp_all add: rx_deliver_def tty_flip_def\<close>)
qed

lemma tx_fill_log:
  assumes "tx_fill n c i s = (k, s')" and "i < length (ports s)"
  shows "(\<exists>bs. evs s' = map (WrB (Reg c TDR)) bs @ evs s) \<and> (\<forall>j. j \<noteq> i \<longrightarrow> port j s' = port j s) \<and>
    popen (port i s') = popen (port i s)"
  using assms
proof (induction n arbitrary: s k)
  case (Suc n)
  show ?case
  proof (cases "tx_empty (port i s)")
    case True
    with Suc.prems show ?thesis by simp
  next
    case False
    let ?np = "port i s" let ?t = "set_port i (tx_pop ?np) (cwr c TDR (tx_front ?np) s)"
    obtain m where m: "tx_fill n c i ?t = (m, s')"
      using Suc.prems(1) False by (auto simp: Let_def split: prod.splits)
    have "port i ?t = tx_pop ?np" using Suc.prems(2) by simp
    have IH: "\<exists>bs. evs s' = map (WrB (Reg c TDR)) bs @ evs ?t" "\<forall>j. j \<noteq> i \<longrightarrow> port j s' = port j ?t"
        "popen (port i s') = popen (port i ?t)"
      using Suc.IH [OF m] Suc.prems(2) by simp_all
    then obtain bs where "evs s' = map (WrB (Reg c TDR)) bs @ evs ?t" by blast
    then have "evs s' = map (WrB (Reg c TDR)) (bs @ [tx_front ?np]) @ evs s" by (simp add: cwr_def)
    then have "\<exists>bs. evs s' = map (WrB (Reg c TDR)) bs @ evs s" by blast
    with \<open>port i ?t = tx_pop ?np\<close> show ?thesis
      using IH(2,3) by (simp add: tx_pop_def)
  qed
qed auto

lemma tdr_log:
  "rx_taken c ch (map (WrB (Reg c' TDR)) bs @ l) = rx_taken c ch l" "flipped i (map (WrB (Reg c' TDR)) bs @ l) = flipped i l"
  "asks_on c ch (map (WrB (Reg c' TDR)) bs @ l) = asks_on c ch l"
  "rx_ends c (map (WrB (Reg c' TDR)) bs @ l) = rx_ends c l"
  "sel_chan c (map (WrB (Reg c' TDR)) bs @ l) = sel_chan c l"
  by (induction bs) (simp_all add: asks_on_def sel_chan_write)

lemma service_tx_works:
  assumes "works c R D (hw s)" and "open_ctx (evs s) = TxCtx c ch" and "ch = unat (t AND 3)"
    and "pidx c ch < length (ports s)" and "ring_inv (port (pidx c ch) s)"
  obtains s' where "service_tx c t s = Some (True, s')" and "hw s' = hw s"
    and "\<forall>j. j \<noteq> pidx c ch \<longrightarrow> port j s' = port j s" and "popen (port (pidx c ch) s') = popen (port (pidx c ch) s)"
    and "rx_ends c (evs s') = rx_ends c (evs s)" and "rx_moves c ch [] [] s s'"
    and "ring_used (port (pidx c ch) s) = 0 \<longrightarrow> ring_used (port (pidx c ch) s') = 0 \<and>
      (\<forall>ch'. asks_on c ch' (evs s') = (asks_on c ch' (evs s) \<and> ch' \<noteq> ch))"
    and "0 < ring_used (port (pidx c ch) s) \<longrightarrow>
      ring_used (port (pidx c ch) s') < ring_used (port (pidx c ch) s) \<and>
      (\<forall>ch'. asks_on c ch' (evs s') = asks_on c ch' (evs s))"
proof -
  let ?i = "pidx c ch"
  obtain f where f: "f \<noteq> 0" "crd c TFTC s = Some (f, ev (RdB (Reg c TFTC) f) s)"
    using assms(1) by (auto simp: works_def crd_Some)
  let ?s1 = "ev (RdB (Reg c TFTC) f) s"
  define m where "m = (if unat f > 16 then 16 else unat f)"
  have "0 < m" using f(1) by (simp add: m_def unat_gt_0)
  obtain k s2 where k: "tx_fill m c ?i ?s1 = (k, s2)" by fastforce
  have T: "k = min m (ring_used (port ?i s))" "ring_content (port ?i s2) = drop k (ring_content (port ?i s))"
      "hw s2 = hw s"
    using tx_fill_takes [OF k] assms(4,5) by simp_all
  obtain bs where l: "evs s2 = map (WrB (Reg c TDR)) bs @ evs ?s1"
    and p: "\<And>j. j \<noteq> ?i \<Longrightarrow> port j s2 = port j s" "popen (port ?i s2) = popen (port ?i s)"
    using tx_fill_log [OF k] assms(4) by auto
  from arg_cong [OF T(2), of length] have u: "ring_used (port ?i s2) = ring_used (port ?i s) - k" by simp
  have a2: "asks_on c ch' (evs s2) = asks_on c ch' (evs s)" "rx_ends c (evs s2) = rx_ends c (evs s)" for ch'
    by (simp_all add: l tdr_log)
  have "sel_chan c (evs ?s1) = Some ch" using assms(2) by (simp add: sel_chan_def)
  then have sel: "sel_chan c (evs s2) = Some ch" by (simp only: l tdr_log)
  let ?s3 = "if k = 0 then cwr c IER 0x28 s2 else s2"
  have a3: "asks_on c ch' (evs ?s3) = (asks_on c ch' (evs s) \<and> \<not> (k = 0 \<and> ch' = ch))" for ch'
    using a2(1) [of ch'] sel by (auto simp: asks_on_def cwr_def)
  have "works c R D (hw ?s3)" using assms(1) T(3) by simp
  then obtain s4 where
      e: "nm32a_eoi c TEOIR (if k \<noteq> 0 then 0x00 else 0x08) ?s3 = Some s4"
    and q: "ports s4 = ports ?s3" "hw s4 = hw ?s3" "par s4 = par ?s3"
      "TEOIR \<noteq> IER \<longrightarrow> (\<forall>ch'. asks_on c ch' (evs s4) = asks_on c ch' (evs ?s3))"
      "rx_ends c (evs s4) = (if TEOIR = REOIR then Suc (rx_ends c (evs ?s3)) else rx_ends c (evs ?s3))"
      "TEOIR = REOIR \<or> TEOIR = TEOIR \<longrightarrow> waited c (evs s4) = 0 \<and> (\<forall>R. waited_rx R c (evs s4) = 0)"
      "(\<forall>c ch. rx_taken c ch (evs s4) = rx_taken c ch (evs ?s3)) \<and> (\<forall>i. flipped i (evs s4) = flipped i (evs ?s3))"
    by (rule eoi_once [where r = TEOIR and v = "if k \<noteq> 0 then 0x00 else 0x08"])
  have s4: "ports s4 = ports s2" "hw s4 = hw s2" "asks_on c ch' (evs s4) = asks_on c ch' (evs ?s3)"
      "rx_ends c (evs s4) = rx_ends c (evs s2)" for ch'
    using q by (simp_all add: cwr_def split: if_splits)
  have mv: "rx_moves c ch [] [] s (mutex_unlock s4)"
    using q(7) by (auto simp: rx_moves_def l tdr_log cwr_def split: if_splits)
  have r: "service_tx c t s = Some (True, mutex_unlock s4)"
    using f k e by (simp add: service_tx_def m_def Let_def flip: assms(3))
  have "port j (mutex_unlock s4) = port j s2" for j using s4(1) by (simp add: port_def)
  then show thesis
    by (intro that [OF r]) (use s4 p a2 a3 mv T u \<open>0 < m\<close> in auto)
qed


section \<open>What is left to do\<close>

text \<open>
  The bytes of a ring and one more service to find it empty; and with \<open>D\<close> looks for each of them the measure that
  every pass lowers.
\<close>

definition chan_work :: "nat \<Rightarrow> nat \<Rightarrow> nm32a \<Rightarrow> nat" where
  "chan_work c ch s =
     (if \<not> asks_on c ch (evs s) \<and> \<not> popen (port (pidx c ch) s) then 0
      else if ring_used (port (pidx c ch) s) = 0 then (if asks_on c ch (evs s) then 1 else 0)
      else ring_used (port (pidx c ch) s) + 1)"

definition work_left :: "nat \<Rightarrow> nat \<Rightarrow> nat \<Rightarrow> nm32a \<Rightarrow> nat" where
  "work_left c R D s = ((\<Sum>ch<4. chan_work c ch s) + (R - rx_ends c (evs s))) * Suc (2 * D) +
     ((D - waited c (evs s)) + (D - waited_rx R c (evs s)))"

text \<open>What \<open>nm32a_arm_tx\<close> establishes and a service keeps, and the aim.\<close>

definition armed_all :: "nat \<Rightarrow> nm32a \<Rightarrow> bool" where
  "armed_all c s \<longleftrightarrow> (\<forall>ch < 4. popen (port (pidx c ch) s) \<and> ring_used (port (pidx c ch) s) \<noteq> 0 \<longrightarrow> asks_on c ch (evs s))"

definition drained :: "nat \<Rightarrow> nm32a \<Rightarrow> bool" where
  "drained c s \<longleftrightarrow> (\<forall>ch < 4. popen (port (pidx c ch) s) \<longrightarrow> ring_used (port (pidx c ch) s) = 0)"

lemma lex_less:
  assumes "(a :: nat) < b" and "x \<le> D"
  shows "a * Suc D + x < b * Suc D + y"
proof -
  from assms(1) have "Suc a * Suc D \<le> b * Suc D" by (intro mult_le_mono1) simp
  then have "a * Suc D + Suc D \<le> b * Suc D" by (simp only: mult_Suc add.commute)
  with assms(2) show ?thesis by linarith
qed

lemma left_le: "work_left c R D s < (4097 + R) * Suc (2 * D)"
proof -
  have "chan_work c ch s \<le> 1024" for ch using ring_used_less [of "port (pidx c ch) s"] by (simp add: chan_work_def)
  then have "(\<Sum>ch<4. chan_work c ch s) \<le> (\<Sum>ch<(4::nat). 1024)" by (intro sum_mono) simp
  then have "(\<Sum>ch<4. chan_work c ch s) + (R - rx_ends c (evs s)) < 4097 + R" by simp
  from lex_less [OF this, of "(D - waited c (evs s)) + (D - waited_rx R c (evs s))" "2 * D" 0] show ?thesis unfolding work_left_def by simp
qed

lemma left_work:
  assumes "(\<Sum>ch<4. chan_work c ch t) + (R - rx_ends c (evs t)) < (\<Sum>ch<4. chan_work c ch s) + (R - rx_ends c (evs s))"
  shows "work_left c R D t < work_left c R D s"
  unfolding work_left_def by (rule lex_less [OF assms]) simp

lemma same_load: "like_before c s t \<Longrightarrow> chan_work c ch t = chan_work c ch s \<and> rx_ends c (evs t) = rx_ends c (evs s)"
  by (simp add: like_before_def chan_work_def port_def)

lemma sum_less_one:
  assumes "ch < (4::nat)" and "f ch < (g ch :: nat)" and "\<And>k. k \<noteq> ch \<Longrightarrow> f k = g k"
  shows "(\<Sum>k<4. f k) < (\<Sum>k<4. g k)"
proof (rule sum_strict_mono_ex1)
  show "\<forall>k\<in>{..<4}. f k \<le> g k" using assms by (metis order.strict_implies_order order.refl)
qed (use assms in auto)

lemma quiet_less:
  assumes "like_before c s s'" and "waited c (evs s) \<le> waited c (evs s')" and "waited_rx R c (evs s) \<le> waited_rx R c (evs s')"
  shows "work_left c R D s' \<le> work_left c R D s"
    and "waited c (evs s) < D \<and> waited c (evs s) < waited c (evs s') \<or>
      waited_rx R c (evs s) < D \<and> waited_rx R c (evs s) < waited_rx R c (evs s') \<Longrightarrow> work_left c R D s' < work_left c R D s"
proof -
  have l: "chan_work c ch s' = chan_work c ch s" "rx_ends c (evs s') = rx_ends c (evs s)" for ch
    using same_load [OF assms(1)] by simp_all
  show "work_left c R D s' \<le> work_left c R D s" using assms(2,3) unfolding work_left_def l by linarith
  show "work_left c R D s' < work_left c R D s"
    if "waited c (evs s) < D \<and> waited c (evs s) < waited c (evs s') \<or>
      waited_rx R c (evs s) < D \<and> waited_rx R c (evs s) < waited_rx R c (evs s')"
    using that assms(2,3) unfolding work_left_def l by linarith
qed

lemma like_armed: "like_before c s s' \<Longrightarrow> armed_all c s' = armed_all c s"
  by (simp add: like_before_def armed_all_def port_def)

lemma like_moves: "like_before c s s' \<Longrightarrow> rx_moves c ch X X s' t \<Longrightarrow> rx_moves c ch X X s t"
  by (simp add: like_before_def rx_moves_def port_def)

lemma like_works: "works c R D (hw s) \<Longrightarrow> like_before c s s' \<Longrightarrow> works c R D (hw s')"
  by (simp add: like_before_def)

text \<open>The two services, from what the acknowledge left.\<close>

lemma rx_progress:
  assumes "works c R D (hw s)" and "armed_all c s" and "like_before c s s2" and "r AND 0x0c = 0x0c"
    and "open_ctx (evs s2) = RxCtx c (unat (r AND 3))" and "rx_ends c (evs s) < R"
  obtains s' X where "service_rx c r tr s2 = Some (True, s')" and "armed_all c s'" and "work_left c R D s' < work_left c R D s"
    and "rx_moves c (unat (r AND 3)) X X s s'"
proof -
  from like_works [OF assms(1,3)] assms(4,5) obtain s' X where s': "service_rx c r tr s2 = Some (True, s')" "ports s' = ports s2"
      "\<forall>ch. asks_on c ch (evs s') = asks_on c ch (evs s2)" "rx_ends c (evs s') = Suc (rx_ends c (evs s2))"
      "rx_moves c (unat (r AND 3)) X X s2 s'"
    by (rule service_rx_works)
  have "chan_work c ch s' = chan_work c ch s2" for ch using s'(2,3) by (simp add: chan_work_def port_def)
  then have "chan_work c ch s' = chan_work c ch s" for ch by (simp only: same_load [OF assms(3)])
  then have "work_left c R D s' < work_left c R D s"
    using assms(6) s'(4) same_load [OF assms(3)] by (intro left_work) simp
  moreover have "armed_all c s'"
    using assms(2) s'(2,3) like_armed [OF assms(3)] by (simp add: armed_all_def port_def)
  ultimately show thesis using s'(1) like_moves [OF assms(3) s'(5)] that by blast
qed

lemma tx_progress:
  assumes "works c R D (hw s)" and "armed_all c s" and "like_before c s s2"
    and "open_ctx (evs s2) = TxCtx c (unat (t AND 3))" and "asks_on c (unat (t AND 3)) (evs s)"
    and "good s" and "c < NM32A_CHIPS"
  obtains s' where "service_tx c t s2 = Some (True, s')" and "armed_all c s'" and "work_left c R D s' < work_left c R D s"
    and "rx_moves c (unat (t AND 3)) [] [] s s'"
proof -
  let ?ch = "unat (t AND 3)" let ?i = "pidx c ?ch"
  have ch: "?ch < 4" by (rule unat_and_3)
  have "ring_inv (port ?i s)" "?i < length (ports s)" using good_port [OF assms(6), of ?i] assms(7) ch by simp_all
  then have i: "?i < length (ports s2)" "ring_inv (port ?i s2)" using assms(3) by (simp_all add: like_before_def port_def)
  from like_works [OF assms(1,3)] assms(4) refl i obtain s' where s': "service_tx c t s2 = Some (True, s')" "hw s' = hw s2"
        "\<forall>j. j \<noteq> ?i \<longrightarrow> port j s' = port j s2" "popen (port ?i s') = popen (port ?i s2)"
        "rx_ends c (evs s') = rx_ends c (evs s2)" "rx_moves c ?ch [] [] s2 s'"
    and z: "ring_used (port ?i s2) = 0 \<longrightarrow> ring_used (port ?i s') = 0 \<and>
        (\<forall>ch'. asks_on c ch' (evs s') = (asks_on c ch' (evs s2) \<and> ch' \<noteq> ?ch))"
    and nz: "0 < ring_used (port ?i s2) \<longrightarrow> ring_used (port ?i s') < ring_used (port ?i s2) \<and>
        (\<forall>ch'. asks_on c ch' (evs s') = asks_on c ch' (evs s2))" by (rule service_tx_works [where s = s2 and t = t])
  have on: "asks_on c ?ch (evs s2)" using assms(3,5) by (simp add: like_before_def)
  have "chan_work c ?ch s' < chan_work c ?ch s2"
    using on s'(4) z nz by (cases "ring_used (port ?i s2) = 0") (auto simp: chan_work_def)
  moreover have "chan_work c k s' = chan_work c k s2" if "k \<noteq> ?ch" for k
    using that s'(3) z nz by (cases "ring_used (port ?i s2) = 0") (auto simp: chan_work_def)
  ultimately have "(\<Sum>k<4. chan_work c k s') < (\<Sum>k<4. chan_work c k s2)" by (intro sum_less_one [OF ch]) auto
  then have "work_left c R D s' < work_left c R D s"
    using same_load [OF assms(3)] s'(5) by (intro left_work) simp
  moreover have "armed_all c s2" using assms(2) like_armed [OF assms(3)] by simp
  then have "armed_all c s'"
    unfolding armed_all_def
  proof (intro allI impI)
    fix k assume "\<forall>ch<4. popen (port (pidx c ch) s2) \<and> ring_used (port (pidx c ch) s2) \<noteq> 0 \<longrightarrow> asks_on c ch (evs s2)"
      and "k < 4" and "popen (port (pidx c k) s') \<and> ring_used (port (pidx c k) s') \<noteq> 0"
    then show "asks_on c k (evs s')"
      by (cases "k = ?ch"; cases "ring_used (port ?i s2) = 0") (use s'(3,4) z nz on in auto)
  qed
  ultimately show thesis using s'(1) like_moves [OF assms(3) s'(6)] that by blast
qed

text \<open>One pass either lowers what is left or finds that the chip has nothing to send or to give.\<close>

lemma pass_progress:
  assumes "works c R D (hw s)" and "good s" and "c < NM32A_CHIPS" and "armed_all c s"
  obtains b s' ch X where "nm32a_service c s = Some (b, s')" and "armed_all c s'" and "work_left c R D s' \<le> work_left c R D s"
    and "work_left c R D s' < work_left c R D s \<or> \<not> b \<and> drained c s' \<and> R \<le> rx_ends c (evs s')"
    and "ch < 4" and "rx_moves c ch X X s s'"
  using assms(1,2)
proof (cases rule: pass_looks)
  case (quiet s')
  note Q = quiet_less [OF quiet(2-4), of D]
  have a: "armed_all c s'" using assms(4) like_armed [OF quiet(2)] by simp
  have "work_left c R D s' < work_left c R D s \<or> drained c s' \<and> R \<le> rx_ends c (evs s')"
  proof (cases "asks_tx c (evs s) \<or> rx_ends c (evs s) < R")
    case True
    with quiet(5,6) Q(2) show ?thesis by blast
  next
    case False
    then have "\<not> asks_on c ch (evs s')" if "ch < 4" for ch
      using that quiet(2) asks_txI [of c ch "evs s"] by (auto simp: like_before_def)
    then have "drained c s'" using a unfolding drained_def armed_all_def by blast
    then show ?thesis using False quiet(2) by (simp add: like_before_def)
  qed
  moreover have "rx_moves c 0 [] [] s s'" using quiet(2) by (simp add: like_before_def rx_moves_def)
  ultimately show thesis using quiet(1) a Q(1) that [of False s' 0 "[]"] by simp
next
  case (asked t r tr s1)
  have w1: "works c R D (hw s1)" by (rule like_works [OF assms(1) asked(2)])
  have "asks_tx c (evs s1) \<or> rx_ends c (evs s1) < R"
    using asked(5) same_asks [OF asked(2)] asked(2) by (simp add: like_before_def)
  with w1 asked(3,4) show thesis
  proof (cases rule: ack_takes [where ?t0.0 = t and ?r0.0 = r and tr = tr])
    case (rx r' s2)
    have k: "like_before c s s2" using asked(2) rx(2) by (rule same_trans)
    have "rx_ends c (evs s) < R" using rx(5) asked(2) by (simp add: like_before_def)
    with assms(1,4) k rx(4,3) obtain s' X where "service_rx c r' tr s2 = Some (True, s')" "armed_all c s'"
        "work_left c R D s' < work_left c R D s" "rx_moves c (unat (r' AND 3)) X X s s'"
      by (rule rx_progress)
    then show thesis using asked(1) rx(1) that [of True s' "unat (r' AND 3)" X] unat_and_3 by simp
  next
    case (tx t' s2)
    have k: "like_before c s s2" using asked(2) tx(2) by (rule same_trans)
    have "asks_on c (unat (t' AND 3)) (evs s)" using tx(4) asked(2) by (simp add: like_before_def)
    with assms(1,4) k tx(3) obtain s' where "service_tx c t' s2 = Some (True, s')" "armed_all c s'"
        "work_left c R D s' < work_left c R D s" "rx_moves c (unat (t' AND 3)) [] [] s s'"
      using assms(2,3) by (rule tx_progress)
    then show thesis using asked(1) tx(1) that [of True s' "unat (t' AND 3)" "[]"] unat_and_3 by simp
  qed
qed

section \<open>What the services of other chips leave alone\<close>

lemma local_event:
  assumes "local_to c' e" and "c' \<noteq> c"
  shows "asks_on c ch (e # l) = asks_on c ch l" and "rx_ends c (e # l) = rx_ends c l"
    and "waited c (e # l) = waited c l" and "waited_rx R c (e # l) = waited_rx R c l"
  using assms by (cases "(c', e)" rule: local_to.cases; simp add: asks_on_def)+

lemma local_log:
  assumes "list_all (local_to c') pre" and "c' \<noteq> c"
  shows "asks_on c ch (pre @ l) = asks_on c ch l" and "rx_ends c (pre @ l) = rx_ends c l"
    and "waited c (pre @ l) = waited c l" and "waited_rx R c (pre @ l) = waited_rx R c l"
  using assms(1) by (induction pre) (simp_all add: local_event [OF _ assms(2)])

lemma other_left:
  assumes "on_card c' s t" and "c' \<noteq> c"
  shows "work_left c R D t = work_left c R D s"
proof -
  obtain pre where e: "evs t = pre @ evs s" "list_all (local_to c') pre"
    using assms(1) by (auto simp: on_card_def)
  have "port (pidx c ch) t = port (pidx c ch) s" if "ch < 4" for ch
    by (rule on_card_other(2) [OF assms(1)]) (use assms(2) that in simp)
  then have "chan_work c ch t = chan_work c ch s" if "ch < 4" for ch
    using that unfolding chan_work_def e(1) local_log(1) [OF e(2) assms(2)] by simp
  then have "(\<Sum>ch<4. chan_work c ch t) = (\<Sum>ch<4. chan_work c ch s)" by (intro sum.cong) simp_all
  then show ?thesis unfolding work_left_def e(1) local_log(2-4) [OF e(2) assms(2)] by simp
qed

section \<open>What the thread's steps have in common\<close>

text \<open>What was taken for an open port was given to it; and the log only grows.\<close>

definition hands_over :: "nm32a \<Rightarrow> nm32a \<Rightarrow> bool" where
  "hands_over s t \<longleftrightarrow> (\<forall>i. popen (port i s) \<longrightarrow> (\<exists>X. flipped i (evs t) = flipped i (evs s) @ X \<and>
     rx_taken (i div 4) (i mod 4) (evs t) = rx_taken (i div 4) (i mod 4) (evs s) @ X))"

definition steps :: "nm32a \<Rightarrow> nm32a \<Rightarrow> bool" where
  "steps s t \<longleftrightarrow> serves s t \<and> hands_over s t \<and> (\<exists>pre. evs t = pre @ evs s)"

lemma moves_hand_over: "rx_moves c ch X X s t \<Longrightarrow> ch < 4 \<Longrightarrow> hands_over s t"
  unfolding hands_over_def rx_moves_def by (auto simp: pidx_div_mod)

lemma hands_over_same:
  "\<forall>c ch. rx_taken c ch (evs t) = rx_taken c ch (evs s) \<Longrightarrow> \<forall>i. flipped i (evs t) = flipped i (evs s) \<Longrightarrow> hands_over s t"
  by (simp add: hands_over_def)

lemma steps_trans:
  assumes "steps s t" and "steps t u"
  shows "steps s u"
proof -
  have "serves s u" using assms unfolding steps_def serves_def by (metis prefix_order.trans)
  moreover have "hands_over s u"
    unfolding hands_over_def
  proof (intro allI impI)
    fix i assume "popen (port i s)"
    then have "popen (port i t)" using assms(1) by (simp add: steps_def serves_def)
    from assms \<open>popen (port i s)\<close> this show "\<exists>X. flipped i (evs u) = flipped i (evs s) @ X \<and>
        rx_taken (i div 4) (i mod 4) (evs u) = rx_taken (i div 4) (i mod 4) (evs s) @ X"
      unfolding steps_def hands_over_def by (metis append.assoc)
  qed
  moreover have "\<exists>pre. evs u = pre @ evs s" using assms unfolding steps_def by (metis append.assoc)
  ultimately show ?thesis by (simp add: steps_def)
qed

lemma steps_refl: "good s \<Longrightarrow> steps s s"
  by (simp add: steps_def serves_def hands_over_same)

lemma steps_fields:
  "steps s t \<Longrightarrow> good t \<and> hw t = hw s \<and> par t = par s \<and> popen (port i t) = popen (port i s) \<and> tx_total i t = tx_total i s"
  by (simp add: steps_def serves_def)

lemma stepsI: "serves s t \<Longrightarrow> hands_over s t \<Longrightarrow> on_card c s t \<Longrightarrow> steps s t"
  by (auto simp: steps_def on_card_def)

lemma steps_shrinks:
  assumes "steps s t"
  shows "ring_used (port i t) \<le> ring_used (port i s)"
proof -
  have "tx_total i t = tx_total i s" "prefix (tx_sent (i div 4) (i mod 4) (evs s)) (tx_sent (i div 4) (i mod 4) (evs t))"
    using assms by (simp_all add: steps_def serves_def)
  from arg_cong [OF this(1), of length] prefix_length_le [OF this(2)] show ?thesis by (simp add: tx_total_def)
qed

lemma rx_ends_mono: "rx_ends c l \<le> rx_ends c (pre @ l)"
proof (induction pre)
  case (Cons e pre)
  then show ?case by (cases "(c, e # pre @ l)" rule: rx_ends.cases) auto
qed simp

text \<open>Nothing left on a chip that the thread looks at.\<close>

definition all_done :: "nat \<Rightarrow> nat \<Rightarrow> nm32a \<Rightarrow> bool" where
  "all_done c R s \<longleftrightarrow> drained c s \<and> (chip_busy c s \<longrightarrow> R \<le> rx_ends c (evs s))"

lemma steps_done:
  assumes "steps s t" and "all_done c R s"
  shows "all_done c R t"
proof -
  have p: "popen (port i t) = popen (port i s)" for i using steps_fields [OF assms(1)] by simp
  have "drained c t"
    using assms(2) steps_shrinks [OF assms(1)] unfolding all_done_def drained_def p by (metis le_zero_eq)
  moreover have "rx_ends c (evs s) \<le> rx_ends c (evs t)" using assms(1) rx_ends_mono by (auto simp: steps_def)
  ultimately show ?thesis using assms(2) by (auto simp: all_done_def chip_busy_def p)
qed

section \<open>Arming\<close>

lemma arm_log:
  "rx_ends c (evs (nm32a_arm_tx c s)) = rx_ends c (evs s)" "waited c (evs (nm32a_arm_tx c s)) = waited c (evs s)"
  "waited_rx R c (evs (nm32a_arm_tx c s)) = waited_rx R c (evs s)" "on_card c s (nm32a_arm_tx c s)"
proof -
  have a: "rx_ends c (evs (arm_chan c s ch)) = rx_ends c (evs s)" "waited c (evs (arm_chan c s ch)) = waited c (evs s)"
      "waited_rx R c (evs (arm_chan c s ch)) = waited_rx R c (evs s)" "on_card c s (arm_chan c s ch)" for s ch
    using on_card_trans [OF on_card_cwr on_card_cwr] by (auto simp: arm_chan_def Let_def cwr_def)
  show "rx_ends c (evs (nm32a_arm_tx c s)) = rx_ends c (evs s)" "waited c (evs (nm32a_arm_tx c s)) = waited c (evs s)"
    "waited_rx R c (evs (nm32a_arm_tx c s)) = waited_rx R c (evs s)"
    by (simp_all add: nm32a_arm_tx_def a)
  have "on_card c t (foldl (arm_chan c) t chs)" for t chs
    by (induction chs arbitrary: t) (simp_all, metis on_card_trans a(4))
  then show "on_card c s (nm32a_arm_tx c s)"
    unfolding nm32a_arm_tx_def by (blast intro: on_card_trans on_card_lock)
qed

lemma arm_steps: "good s \<Longrightarrow> steps s (nm32a_arm_tx c s)"
proof -
  assume g: "good s"
  note L = section_lines [OF g arm_tx_section]
  note G = section_log(2-4) [OF arm_tx_section(1) [of s c]]
  have "par (nm32a_arm_tx c s) = par s" by (simp add: nm32a_arm_tx_def arm_chan_def Let_def)
  then have "serves s (nm32a_arm_tx c s)"
    using L [of c] G arm_tx_section(2) [of c s] by (simp add: serves_def tx_total_def port_def)
  moreover have "hands_over s (nm32a_arm_tx c s)" using G by (intro hands_over_same) simp_all
  ultimately show ?thesis using arm_log(4) by (rule stepsI)
qed

lemma arm_arms:
  assumes "good s" and "c < NM32A_CHIPS"
  shows "armed_all c (nm32a_arm_tx c s)" and "work_left c R D (nm32a_arm_tx c s) = work_left c R D s"
proof -
  have p: "port i (nm32a_arm_tx c s) = port i s" for i using arm_tx_section(2) [of c s] by (simp add: port_def)
  have a: "asks_on c ch (evs (nm32a_arm_tx c s)) =
      (popen (port (pidx c ch) s) \<and> ring_used (port (pidx c ch) s) \<noteq> 0 \<or> asks_on c ch (evs s))" if "ch < 4" for ch
  proof -
    have "ring_inv (port (pidx c ch) s)" using good_port [OF assms(1), of "pidx c ch"] assms(2) that by simp
    then have "head (port (pidx c ch) s) \<noteq> tail (port (pidx c ch) s) \<longleftrightarrow> ring_used (port (pidx c ch) s) \<noteq> 0"
      using ring_empty_iff [of "port (pidx c ch) s"] by (simp add: tx_empty_def)
    moreover have "closed (evs s)" using assms(1) by (simp add: good_def)
    ultimately show ?thesis using arm_tx_regs [OF _ that, of s c] by (auto simp: asks_on_def)
  qed
  then show "armed_all c (nm32a_arm_tx c s)" by (simp add: armed_all_def p)
  have "chan_work c ch (nm32a_arm_tx c s) = chan_work c ch s" if "ch < 4" for ch
    using a [OF that] by (auto simp: chan_work_def p)
  then show "work_left c R D (nm32a_arm_tx c s) = work_left c R D s" by (simp add: work_left_def arm_log)
qed

section \<open>A sweep\<close>

lemma burst_progress:
  assumes "works c R D (hw s)" and "good s" and "c < NM32A_CHIPS" and "armed_all c s"
  shows "\<exists>w s'. svc_burst n c s = Some (w, s') \<and> steps s s' \<and> on_card c s s' \<and> work_left c R D s' \<le> work_left c R D s \<and>
    (0 < n \<longrightarrow> work_left c R D s' < work_left c R D s \<or> all_done c R s')"
  using assms
proof (induction n arbitrary: s)
  case 0
  then show ?case by (auto simp: steps_refl)
next
  case (Suc n)
  from Suc.prems obtain b t ch X where t: "nm32a_service c s = Some (b, t)" "armed_all c t"
      "work_left c R D t \<le> work_left c R D s" "work_left c R D t < work_left c R D s \<or> \<not> b \<and> drained c t \<and> R \<le> rx_ends c (evs t)"
      "ch < 4" "rx_moves c ch X X s t"
    by (rule pass_progress)
  have o: "on_card c s t" by (rule service_on_card [OF t(1)])
  have v: "steps s t"
    using nm32a_service_spec [OF t(1) Suc.prems(2,3)] moves_hand_over [OF t(6,5)] o
    by (intro stepsI) (simp_all add: pass_ok_def)
  show ?case
  proof (cases b)
    case True
    have "works c R D (hw t)" "good t" using Suc.prems(1) steps_fields [OF v] by simp_all
    from Suc.IH [OF this Suc.prems(3) t(2)] obtain w s' where s': "svc_burst n c t = Some (w, s')" "steps t s'"
        "on_card c t s'" "work_left c R D s' \<le> work_left c R D t" by blast
    have "steps s s'" "on_card c s s'" using steps_trans [OF v s'(2)] on_card_trans [OF o s'(3)] .
    with t s' True show ?thesis by auto
  next
    case False
    with t v o show ?thesis by (auto simp: all_done_def)
  qed
qed

definition all_work :: "nat \<Rightarrow> nat \<Rightarrow> hwenv \<Rightarrow> bool" where
  "all_work R D h \<longleftrightarrow> (\<forall>c < NM32A_CHIPS. works c R D h)"

lemma chips_progress:
  assumes "all_work R D (hw s)" and "good s" and "set cs \<subseteq> {..<NM32A_CHIPS}"
    and "(word_of_int (burst (par s)) :: u32) \<noteq> 0"
  shows "\<exists>a w s'. poll_chips cs s = Some (a, w, s') \<and> steps s s' \<and>
    (\<forall>c < NM32A_CHIPS. work_left c R D s' \<le> work_left c R D s \<and>
      (c \<in> set cs \<longrightarrow> work_left c R D s' < work_left c R D s \<or> all_done c R s'))"
  using assms
proof (induction cs arbitrary: s)
  case Nil
  then show ?case by (auto simp: steps_refl)
next
  case (Cons c cs)
  have c: "c < 8" "set cs \<subseteq> {..<8}" using Cons.prems(3) by simp_all
  show ?case
  proof (cases "chip_busy c s")
    case False
    then have "all_done c R s" by (auto simp: chip_busy_def drained_def all_done_def dest!: less_4_cases)
    with Cons.IH [OF Cons.prems(1,2) c(2) Cons.prems(4)] False show ?thesis by (auto dest: steps_done)
  next
    case True
    let ?s1 = "nm32a_arm_tx c s" let ?n = "unat (word_of_int (burst (par s)) :: u32)"
    note A = arm_steps [OF Cons.prems(2), of c] and L = arm_arms [OF Cons.prems(2) c(1)]
    have g: "good ?s1" "par ?s1 = par s" "hw ?s1 = hw s" using steps_fields [OF A] by simp_all
    have "works c R D (hw ?s1)" using Cons.prems(1) c(1) g(3) by (simp add: all_work_def)
    from burst_progress [OF this g(1) c(1) L(1), of ?n] obtain w t where
        t: "svc_burst ?n c ?s1 = Some (w, t)" "steps ?s1 t" "on_card c ?s1 t" "work_left c R D t \<le> work_left c R D ?s1"
          "0 < ?n \<longrightarrow> work_left c R D t < work_left c R D ?s1 \<or> all_done c R t" by (elim exE conjE)
    have st: "steps s t" by (rule steps_trans [OF A t(2)])
    have ot: "work_left k R D t = work_left k R D s" if "k \<noteq> c" for k
      using other_left [OF on_card_trans [OF arm_log(4) t(3)]] that by metis
    have ct: "work_left c R D t \<le> work_left c R D s" "work_left c R D t < work_left c R D s \<or> all_done c R t"
      using t(4,5) L(2) Cons.prems(4) by (simp_all add: unat_gt_0)
    have h: "hw t = hw s" "good t" "par t = par s" using steps_fields [OF st] by simp_all
    from Cons.IH [of t] Cons.prems(1,4) c(2) h obtain a ws s' where
        p: "poll_chips cs t = Some (a, ws, s')" "steps t s'"
      and q: "\<And>k. k < 8 \<Longrightarrow> work_left k R D s' \<le> work_left k R D t \<and>
        (k \<in> set cs \<longrightarrow> work_left k R D s' < work_left k R D t \<or> all_done k R s')"
      by auto
    have "poll_chips (c # cs) s = Some (Suc a, w \<or> ws, s')" using True t(1) p(1) g(2) by (simp add: Let_def)
    moreover have "work_left k R D s' \<le> work_left k R D s \<and>
        (k \<in> set (c # cs) \<longrightarrow> work_left k R D s' < work_left k R D s \<or> all_done k R s')" if "k < 8" for k
      using q [OF that] ot [of k] ct steps_done [OF p(2)] by (cases "k = c") (auto dest: order.strict_trans1)
    ultimately show ?thesis using steps_trans [OF st p(2)] by blast
  qed
qed

lemma sweep_progress:
  assumes "all_work R D (hw s)" and "good s" and "(word_of_int (burst (par s)) :: u32) \<noteq> 0"
  shows "\<exists>s'. nm32a_poll_sweep s = Some s' \<and> steps s s' \<and>
    (\<forall>c < NM32A_CHIPS. work_left c R D s' < work_left c R D s \<or> all_done c R s')"
proof -
  obtain a w t where t: "poll_chips [0..<8] s = Some (a, w, t)" "steps s t"
      "\<forall>c < 8. work_left c R D t < work_left c R D s \<or> all_done c R t"
    using chips_progress [OF assms(1,2) _ assms(3), of "[0..<8]"] by (auto simp: atLeast0LessThan)
  define u where "u = (if w then t else if a \<noteq> 0 then ev (Udelay (polldelay (par t))) t else ev (Msleep 50) t)"
  have "good t" using steps_fields [OF t(2)] by simp
  then have "good u" by (auto simp: u_def good_def card_inv_def closed_def)
  then have "serves t u" by (simp add: u_def serves_def tx_total_def)
  moreover have "hands_over t u" by (rule hands_over_same) (simp_all add: u_def)
  moreover have o: "on_card c t u" for c by (simp add: u_def on_card_ev)
  ultimately have "steps t u" by (rule stepsI)
  moreover have "work_left c R D u = work_left c R D t" for c using other_left [OF o, of "Suc c" c] by simp
  moreover have "nm32a_poll_sweep s = Some u" using t(1) by (simp add: nm32a_poll_sweep_def u_def)
  ultimately show ?thesis using t(2,3) steps_trans steps_done by metis
qed

section \<open>The thread\<close>

lemma thread_progress:
  assumes "all_work R D (hw s)" and "good s" and "(word_of_int (burst (par s)) :: u32) \<noteq> 0"
  shows "\<exists>s'. nm32a_poll_thread n s = Some s' \<and> steps s s' \<and>
    (\<forall>c < NM32A_CHIPS. work_left c R D s' + n \<le> work_left c R D s \<or> all_done c R s')"
  using assms
proof (induction n arbitrary: s)
  case 0
  then show ?case by (simp add: steps_refl)
next
  case (Suc n)
  from sweep_progress [OF Suc.prems] obtain t where t: "nm32a_poll_sweep s = Some t" "steps s t"
      "\<forall>c < 8. work_left c R D t < work_left c R D s \<or> all_done c R t" by blast
  have h: "hw t = hw s" "good t" "par t = par s" using steps_fields [OF t(2)] by simp_all
  from Suc.IH [of t] Suc.prems h obtain s' where s': "nm32a_poll_thread n t = Some s'" "steps t s'"
      "\<forall>c < 8. work_left c R D s' + n \<le> work_left c R D t \<or> all_done c R s'" by auto
  have "work_left c R D s' + Suc n \<le> work_left c R D s \<or> all_done c R s'" if "c < 8" for c
    using t(3) s'(3) steps_done [OF s'(2), of c] that by force
  moreover have "steps s s'" using t(2) s'(2) by (rule steps_trans)
  ultimately show ?case using t(1) s'(1) by auto
qed

lemma thread_does_all:
  assumes "good s" and "all_work R D (hw s)" and "(word_of_int (burst (par s)) :: u32) \<noteq> 0"
    and "i < NM32A_PORTS_N" and "popen (port i s)" and "(4097 + R) * Suc (2 * D) \<le> n"
  shows "\<exists>s'. nm32a_poll_thread n s = Some s' \<and> ring_content (port i s') = [] \<and>
    tx_sent (i div 4) (i mod 4) (evs s') = tx_sent (i div 4) (i mod 4) (evs s) @ ring_content (port i s) \<and>
    R \<le> rx_ends (i div 4) (evs s') \<and> (\<exists>X. flipped i (evs s') = flipped i (evs s) @ X \<and>
      rx_taken (i div 4) (i mod 4) (evs s') = rx_taken (i div 4) (i mod 4) (evs s) @ X)"
proof -
  from thread_progress [OF assms(2,1,3), of n] obtain s' where s': "nm32a_poll_thread n s = Some s'" "steps s s'"
    and d: "\<forall>c < 8. work_left c R D s' + n \<le> work_left c R D s \<or> all_done c R s'" by blast
  have "i div 4 < 8" using assms(4) by simp
  then have d: "all_done (i div 4) R s'" using d left_le [of "i div 4" R D s] assms(6) by fastforce
  have p: "popen (port i s')" using steps_fields [OF s'(2), of i] assms(5) by simp
  have m: "i mod 4 < 4" by simp
  have "ring_used (port i s') = 0" using d p by (auto simp: all_done_def drained_def dest!: spec [of _ "i mod 4"])
  then have e: "ring_content (port i s') = []" by (simp add: ring_content_def)
  have "i mod 4 \<in> {0, 1, 2, 3}" using less_4_cases [OF m] by auto
  then have "chip_busy (i div 4) s'" using p unfolding chip_busy_def by (intro bexI [of _ "i mod 4"]) simp_all
  then have r: "R \<le> rx_ends (i div 4) (evs s')" using d by (simp add: all_done_def)
  have "tx_sent (i div 4) (i mod 4) (evs s') = tx_sent (i div 4) (i mod 4) (evs s) @ ring_content (port i s)"
    using steps_fields [OF s'(2), of i] e by (simp add: tx_total_def)
  moreover have "\<exists>X. flipped i (evs s') = flipped i (evs s) @ X \<and>
      rx_taken (i div 4) (i mod 4) (evs s') = rx_taken (i div 4) (i mod 4) (evs s) @ X"
    using s'(2) assms(5) by (simp add: steps_def hands_over_def)
  ultimately show ?thesis using s'(1) e r by blast
qed

text \<open>The hardware and the parameters stay what they are; a port stays open until it is shut down.\<close>

lemma chan_init_same: "nm32a_chan_init c ch rate s = Some s' \<Longrightarrow> hw s' = hw s \<and> par s' = par s"
  using grows_fields(2,3) [OF chan_init_grows] by blast

lemma ccr_wait_same: "ccr_wait c s = Some (r, s') \<Longrightarrow> hw s' = hw s \<and> par s' = par s"
  using grows_fields(2,3) [OF grows_ccr_wait] by blast

lemma op_keeps:
  assumes "good s" and "valid_op op" and "drv_exec op s = Some t"
  shows "hw t = hw s \<and> par t = par s"
proof (cases op)
  case (Arm c)
  then show ?thesis using assms(3) steps_fields [OF arm_steps [OF assms(1), of c]] by simp
next
  case (Service c)
  then show ?thesis using assms nm32a_service_spec [of c s _ t] by (auto simp: pass_ok_def serves_def)
next
  case (Activate i baud)
  then show ?thesis using assms(3)
    by (auto simp: nm32a_port_activate_def Let_def crd_Some split: if_splits elim!: bind_SomeE dest!: chan_init_same)
next
  case (Termios i rate)
  then show ?thesis using assms(3)
    by (auto simp: nm32a_tty_set_termios_def Let_def nm32a_set_rate_def elim!: bind_SomeE dest!: ccr_wait_same)
qed (use assms(3) in \<open>auto simp: nm32a_tty_write_def nm32a_break_ctl_def nm32a_port_shutdown_def nm32a_dtr_rts_def
    nm32a_set_mctrl_def Let_def split: prod.splits\<close>)

lemma run_keeps: "drv_execs ops s = Some s' \<Longrightarrow> good s \<Longrightarrow> hw s' = hw s \<and> par s' = par s"
proof (induction ops arbitrary: s)
  case (Cons op ops)
  then obtain t where t: "valid_op op" "drv_exec op s = Some t" "drv_execs ops t = Some s'"
    by (auto split: if_splits elim!: bind_SomeE)
  have "good t" using op_refines [OF Cons.prems(2) t(1,2)] by simp
  with Cons.IH [OF t(3)] op_keeps [OF Cons.prems(2) t(1,2)] show ?case by simp
qed simp

lemma line_step_open: "line_step i op l l' \<Longrightarrow> \<forall>baud. op \<noteq> Activate i baud \<Longrightarrow> op \<noteq> Shutdown i \<Longrightarrow> lopen l' = lopen l"
  by (cases rule: line_step.cases) (auto split: if_splits)

lemma run_stays_open:
  assumes "drv_execs ops s = Some s'" and "good s" and "i < NM32A_PORTS_N"
    and "\<forall>baud. Activate i baud \<notin> set ops" and "Shutdown i \<notin> set ops"
  shows "popen (port i s') = popen (port i s)"
  using assms
proof (induction ops arbitrary: s)
  case (Cons op ops)
  then obtain t where t: "valid_op op" "drv_exec op s = Some t" "drv_execs ops t = Some s'"
    by (auto split: if_splits elim!: bind_SomeE)
  from op_refines [OF Cons.prems(2) t(1,2)] have g: "good t" and l: "line_step i op (line i s) (line i t)"
    using Cons.prems(3) by simp_all
  have "lopen (line i t) = lopen (line i s)" by (rule line_step_open [OF l]) (use Cons.prems(4,5) in auto)
  with Cons.IH [OF t(3) g Cons.prems(3)] Cons.prems(4,5) show ?case by (simp add: line_def)
qed simp

text \<open>C13. What is queued is sent and what arrives is taken.  On a card whose eight chips keep their side of the
  handshake, each letting at most \<open>D\<close> looks pass before it shows a request and receiving \<open>R\<close> bursts in all, (4097 + R) (2 D + 1)
  sweeps of the poll thread, with a \<open>burst\<close> parameter other than 0, do for every open port, whatever else is going on on its chip and on the others: its ring
  is empty and all that was queued has gone to the transmitter of that port's own channel, in order; every
  burst of its chip has been taken; and what was taken from its channel was given to its tty, byte by byte.\<close>

theorem poll_drains:
  assumes "good s" and "all_work R D (hw s)" and "(word_of_int (burst (par s)) :: u32) \<noteq> 0"
    and "i < NM32A_PORTS_N" and "popen (port i s)" and "(4097 + R) * Suc (2 * D) \<le> n"
  shows "\<exists>s'. nm32a_poll_thread n s = Some s' \<and> ring_content (port i s') = [] \<and>
    tx_sent (i div 4) (i mod 4) (evs s') = tx_sent (i div 4) (i mod 4) (evs s) @ ring_content (port i s) \<and>
    R \<le> rx_ends (i div 4) (evs s') \<and> (\<exists>X. flipped i (evs s') = flipped i (evs s) @ X \<and>
      rx_taken (i div 4) (i mod 4) (evs s') = rx_taken (i div 4) (i mod 4) (evs s) @ X)"
  by (rule thread_does_all [OF assms])

text \<open>
  A card that lets the first look at a request pass unanswered, has room for three bytes each time and receives one
  burst of two bytes, on channel 1 of each of its eight chips; a register is told from its chip by its address.
\<close>

definition chip_at :: "nat \<Rightarrow> nat" where
  "chip_at a = length (takeWhile (\<lambda>b. b \<noteq> a) chip_off)"

definition tir_shows :: "nat \<Rightarrow> cev list \<Rightarrow> u8" where
  "tir_shows c l =
     (if \<not> no_ack l then (if asks_on c 0 l then 0x40 else if asks_on c 1 l then 0x41 else if asks_on c 2 l then 0x42 else 0x43)
      else if asks_tx c l \<and> 1 \<le> waited c l then 0x80 else 0)"

definition rir_shows :: "nat \<Rightarrow> cev list \<Rightarrow> u8" where
  "rir_shows c l =
     (if rx_ends c l = 0 then (if just_acked c l \<noteq> None then 0x4D else if 1 \<le> waited_rx 1 c l then 0x80 else 0) else 0)"

definition patient_hw :: hwenv where
  "patient_hw = demo_hw\<lparr>dev := (\<lambda>l a. Some
     (if a mod 256 = 0xEC then tir_shows (chip_at (a - 0xEC)) l else if a mod 256 = 0xED then rir_shows (chip_at (a - 0xED)) l
      else if a mod 256 = 0x80 then 3 else if a mod 256 = 0x30 then 2 else if a mod 256 = 0xF8 then 0x43 else 0))\<rparr>"

lemma chip_at_off: "c < 8 \<Longrightarrow> chip_at (chip_off ! c) = c"
  by (drule less_8_cases) (elim disjE, simp_all add: chip_at_def chip_off_def)

lemma patient_dev:
  assumes "c < 8" and "r < 256"
  shows "dev patient_hw l (chip_off ! c + r) = Some
     (if r = TIR then tir_shows c l else if r = RIR then rir_shows c l else if r = TFTC then 3 else if r = RFOC then 2
      else if r = RDR then 0x43 else 0)"
proof -
  have "(chip_off ! c + r) mod 256 = r"
    using mod_add_eq [of "chip_off ! c" 256 r] chip_off_mod [OF assms(1)] assms(2) by simp
  then show ?thesis using chip_at_off [OF assms(1)] by (simp add: patient_hw_def)
qed

lemma patient_grants:
  assumes "asks_tx c l \<or> rx_ends c l < 1" and "is_ack (RdB (Bar a) v)"
  shows "grants c 1 l (tir_shows c (RdB (Bar a) v # l)) (rir_shows c (RdB (Reg c TIR) t # RdB (Bar a) v # l))"
  using assms by (auto simp: grants_def tir_shows_def rir_shows_def asks_tx_def just_acked_def)

lemma patient_works:
  assumes "c < 8"
  shows "works c 1 1 patient_hw"
  unfolding works_def
proof (intro allI, goal_cases)
  case (1 l)
  have a: "dev patient_hw l a = Some 0" if "a < 4" for a using that by (simp add: patient_hw_def)
  note b = patient_dev [OF assms]
  have t: "closed l \<and> no_ack l \<longrightarrow> (\<exists>t. dev patient_hw l (chip_off ! c + TIR) = Some t \<and>
      (t AND 0x80 \<noteq> 0 \<longrightarrow> asks_tx c l) \<and> (asks_tx c l \<and> 1 \<le> waited c l \<longrightarrow> t AND 0x80 \<noteq> 0))"
    using b [of TIR l] by (simp add: tir_shows_def)
  have r: "closed l \<and> just_acked c l = None \<longrightarrow> (\<exists>r. dev patient_hw l (chip_off ! c + RIR) = Some r \<and>
      (r AND 0x80 \<noteq> 0 \<longrightarrow> rx_ends c l < 1) \<and> (rx_ends c l < 1 \<and> 1 \<le> waited_rx 1 c l \<longrightarrow> r AND 0x80 \<noteq> 0))"
    using b [of RIR l] by (simp add: rir_shows_def)
  have g: "\<exists>v t r. dev patient_hw l a = Some v \<and> dev patient_hw (RdB (Bar a) v # l) (chip_off ! c + TIR) = Some t \<and>
      dev patient_hw (RdB (Reg c TIR) t # RdB (Bar a) v # l) (chip_off ! c + RIR) = Some r \<and> grants c 1 l t r"
    if "a < 4" "asks_tx c l \<or> rx_ends c l < 1" for a
    using a [OF that(1)] b [of TIR] b [of RIR] patient_grants [OF that(2), of a 0] that(1) by auto
  show ?case
    using b [of RFOC l] b [of RDR l] b [of STK l] b [of TFTC l] t r g by (intro conjI) auto
qed

lemma returns_activate:
  assumes "responsive h" and "ticks h" and "hw s = h"
  shows "returns h snd (nm32a_port_activate i baud s)"
  using assms unfolding nm32a_port_activate_def nm32a_chan_init_def nm32a_set_rate_def Let_def
  by (intro returns, simp_all)

lemma activate_opens:
  assumes "nm32a_port_activate i baud s = Some (r, s')" and "good s" and "i < NM32A_PORTS_N"
    and "dev (hw s) (Lk # evs s) (chip_off ! (i div 4) + GFRCR) \<noteq> Some 0xE0"
  shows "popen (port i s') \<and> ring_content (port i s') = []"
proof -
  have p: "chip (port i s) = i div 4" and i: "i < length (ports s)"
    using assms(2,3) card_inv_port [of s i] by (simp_all add: good_def)
  have "r = 0"
    using assms(1,4) by (auto simp: nm32a_port_activate_def Let_def crd_Some p split: if_splits elim!: bind_SomeE)
  then obtain j where "ports s' = (ports s)[i := opened j (port i s)]" using activate_section(2) [OF assms(1)] by auto
  then have "port i s' = opened j (port i s)" using i by (simp add: port_def)
  then show ?thesis by (simp add: opened_def ring_content_def ring_used_def)
qed

text \<open>A port of that card, opened.\<close>

lemma patient_opened:
  assumes "i < NM32A_PORTS_N"
  obtains s where "drv_exec (Activate i (Some 9600)) (card_start patient_hw default_params) = Some s" and "good s"
    and "popen (port i s)" and "ring_content (port i s) = []" and "ring_used (port i s) = 0"
    and "tx_sent (i div 4) (i mod 4) (evs s) = []" and "all_work 1 1 (hw s)" and "burst (par s) = 32"
proof -
  let ?s = "card_start patient_hw default_params"
  have h: "hw ?s = patient_hw" "responsive patient_hw" "ticks patient_hw"
    using demo_ticks by (simp_all add: card_start_ports responsive_def patient_hw_def ticks_def)
  obtain r s where a: "nm32a_port_activate i (Some 9600) ?s = Some (r, s)"
    using returns_activate [OF h(2,3,1), of i "Some 9600"] by (auto simp: returns_def)
  then have x: "drv_exec (Activate i (Some 9600)) ?s = Some s" by simp
  have v: "valid_op (Activate i (Some 9600))" using assms by simp
  have c: "i div 4 < 8" using assms by simp
  have "popen (port i s) \<and> ring_content (port i s) = []"
    using activate_opens [OF a good_card_start assms] h(1) patient_dev [OF c, of GFRCR] by simp
  moreover from this have "ring_used (port i s) = 0" using length_ring_content [of "port i s"] by simp
  moreover have "tx_sent (i div 4) (i mod 4) (evs s) = []"
    using section_log(2) [OF activate_section(1) [OF a]] by (simp add: card_start_ports)
  moreover have "good s" using op_refines [OF good_card_start v x] by simp
  moreover have "all_work 1 1 (hw s)" "burst (par s) = 32"
    using op_keeps [OF good_card_start v x] patient_works h(1)
    by (simp_all add: all_work_def card_start_ports default_params_def)
  ultimately show thesis using x by (intro that) simp_all
qed

theorem poll_drains_witness:
  "\<exists>s s'. drv_execs [Activate 5 (Some 9600), Write 5 [0x41, 0x00, 0x42]] (card_start patient_hw default_params) = Some s \<and>
     nm32a_poll_thread 12294 s = Some s' \<and> tx_sent 1 1 (evs s') = [0x41, 0x00, 0x00, 0x42] \<and> 1 \<le> rx_ends 1 (evs s')"
proof -
  obtain s1 where x: "drv_exec (Activate 5 (Some 9600)) (card_start patient_hw default_params) = Some s1" "good s1"
    and s1: "popen (port 5 s1)" "ring_content (port 5 s1) = []" "ring_used (port 5 s1) = 0" "tx_sent 1 1 (evs s1) = []"
      "all_work 1 1 (hw s1)" "burst (par s1) = 32"
    by (rule patient_opened [of 5]) simp_all
  obtain s where w: "drv_execs [Write 5 [0x41, 0x00, 0x42]] s1 = Some s" by simp
  have s: "good s" "popen (port 5 s)" "all_work 1 1 (hw s)" "burst (par s) = 32"
    using run_good [OF w x(2)] run_stays_open [OF w x(2), of 5] run_keeps [OF w x(2)] s1 by simp_all
  have "tx_total 5 s = tx_total 5 s1 @ [0x41, 0x00, 0x00, 0x42]"
    using run_stream [OF w x(2), of 5] run_feeds [OF w x(2) _ w x(2), of 5] s1(3) by simp
  then have c: "tx_sent 1 1 (evs s) @ ring_content (port 5 s) = [0x41, 0x00, 0x00, 0x42]"
    using s1(2,4) by (simp add: tx_total_def)
  from poll_drains [OF s(1,3) _ _ s(2), of 12294] s(4) c obtain s' where
      "nm32a_poll_thread 12294 s = Some s'" "tx_sent 1 1 (evs s') = [0x41, 0x00, 0x00, 0x42] \<and> 1 \<le> rx_ends 1 (evs s')" by auto
  moreover have "drv_execs [Activate 5 (Some 9600), Write 5 [0x41, 0x00, 0x42]] (card_start patient_hw default_params) = Some s"
    using x(1) w by (simp del: drv_exec.simps)
  ultimately show ?thesis by blast
qed

end
