(* ===== verification/Nm32a_Rates.thy ===== *)
theory Nm32a_Rates
  imports Nm32a_Lab
begin

text \<open>
  The bring-up tests of \<open>nm32a.c\<close>, second half: those that drive a line and look at what comes back
  (\<open>nm32a_tx_line\<close>, \<open>nm32a_talk\<close>, \<open>nm32a_baud_sweep\<close>, \<open>nm32a_echo_match\<close>,
  \<open>nm32a_measure_baud\<close>).  What a test prints at its end is its result here.
\<close>

section \<open>Shared pieces\<close>

text \<open>
  \<open>i = crd (RFOC); while (i-- > 0 && got < cap) buf[got++] = crd (RDR);\<close>  The list is the part of the
  buffer that is filled.
\<close>

fun drain_buf :: "nat \<Rightarrow> nat \<Rightarrow> nat \<Rightarrow> u8 list \<Rightarrow> nm32a \<Rightarrow> (u8 list \<times> nm32a) option" where
  "drain_buf c cap 0 buf s = Some (buf, s)"
| "drain_buf c cap (Suc i) buf s =
     (if \<not> length buf < cap then Some (buf, s)
      else do { (v, s) \<leftarrow> crd c RDR s; drain_buf c cap i (buf @ [v]) s })"

text \<open>One receive service: acknowledge, count, bytes, end.\<close>

definition drain_service :: "nat \<Rightarrow> nat \<Rightarrow> u8 list \<Rightarrow> nm32a \<Rightarrow> (u8 list \<times> nm32a) option" where
  "drain_service c cap buf s = do {
     (_, s) \<leftarrow> rdb (NM32A_ACK s) s;
     (i, s) \<leftarrow> crd c RFOC s;
     (buf, s) \<leftarrow> drain_buf c cap (unat i) buf s;
     Some (buf, cwr c REOIR 0x00 s)
   }"

text \<open>\<open>for (n = 0; n < N && got < cap; n++)\<close> over the services offered.\<close>

fun listen :: "nat \<Rightarrow> nat \<Rightarrow> nat \<Rightarrow> u8 list \<Rightarrow> nm32a \<Rightarrow> (u8 list \<times> nm32a) option" where
  "listen 0 c cap buf s = Some (buf, s)"
| "listen (Suc n) c cap buf s =
     (if \<not> length buf < cap then Some (buf, s)
      else do {
        (v, s) \<leftarrow> crd c RIR s;
        if v AND 0x80 = 0 then listen n c cap buf s
        else do { (buf, s) \<leftarrow> drain_service c cap buf s; listen n c cap buf s }
      })"

text \<open>Wait for a transmit service; when one is offered, acknowledge it, write the bytes, end it.\<close>

definition prod_line :: "nat \<Rightarrow> nat \<Rightarrow> u8 list \<Rightarrow> nm32a \<Rightarrow> (bool \<times> nm32a) option" where
  "prod_line tries c bs s = do {
     (_, s) \<leftarrow> poll_hi tries c TIR s;
     (v, s) \<leftarrow> crd c TIR s;
     if v AND 0x80 = 0 then Some (False, s)
     else do {
       (_, s) \<leftarrow> rdb (NM32A_ACK s) s;
       Some (True, cwr c TEOIR 0x00 (cwrs c (map (\<lambda>b. (TDR, b)) bs) s))
     }
   }"

section \<open>Does the line move?\<close>

text \<open>Samples of TLVal: how often it was low, how often it changed, its last value.\<close>

fun line_samples :: "nat \<Rightarrow> nat \<Rightarrow> nat \<times> nat \<times> bool \<Rightarrow> nm32a \<Rightarrow> ((nat \<times> nat \<times> bool) \<times> nm32a) option" where
  "line_samples 0 c z s = Some (z, s)"
| "line_samples (Suc n) c (zeros, edges, lst) s = do {
     (v, s) \<leftarrow> crd c RCOR s;
     let v = (v AND 0x80 \<noteq> 0);
     line_samples n c (if \<not> v then zeros + 1 else zeros, if v \<noteq> lst then edges + 1 else edges, v) s
   }"

text \<open>The bursts; the number done comes first.\<close>

fun line_bursts :: "nat \<Rightarrow> nat \<Rightarrow> nat \<times> nat \<times> bool \<Rightarrow> nm32a \<Rightarrow> (nat \<times> (nat \<times> nat \<times> bool) \<times> nm32a) option" where
  "line_bursts 0 c z s = Some (0, z, s)"
| "line_bursts (Suc n) c z s = do {
     (ok, s) \<leftarrow> prod_line 20000 c (replicate 8 0x55) s;
     if \<not> ok then Some (0, z, s)
     else do {
       (z, s) \<leftarrow> line_samples 3000 c z s;
       (k, z, s) \<leftarrow> line_bursts n c z s;
       Some (Suc k, z, s)
     }
   }"

text \<open>The start of \<open>nm32a_tx_line\<close> and \<open>nm32a_talk\<close>: when InitCh hangs GFRCR is read for the message.\<close>

definition line_start :: "nat \<Rightarrow> (nat \<times> u8) list \<Rightarrow> nm32a \<Rightarrow> (bool \<times> nm32a) option" where
  "line_start c regs s = do {
     (rc, s) \<leftarrow> ccr_wait c (cwrs c regs s);
     if rc \<noteq> 0 then do { (_, s) \<leftarrow> crd c GFRCR s; Some (False, s) }
     else do {
       (rc, s) \<leftarrow> ccr_wait c (cwr c CCR (CCR_ENTX OR CCR_ENRX) s);
       if rc \<noteq> 0 then Some (False, s)
       else Some (True, cwrs c [(MSVR_RTS, 0x01), (MSVR_DTR, 0x02), (IER, 0x09)] s)
     }
   }"

definition nm32a_tx_line :: "nat \<Rightarrow> nat \<Rightarrow> nm32a \<Rightarrow> ((nat \<times> nat \<times> nat) option \<times> nm32a) option" where
  "nm32a_tx_line c ch s = do {
     (ok, s) \<leftarrow> line_start c (char_regs ch False) s;
     if \<not> ok then Some (None, s)
     else do {
       (_, s) \<leftarrow> crd c RCOR s;
       (n, (zeros, edges, lst), s) \<leftarrow> line_bursts 40 c (0, 0, True) s;
       (_, s) \<leftarrow> crds c [TIR, CSR] s;
       Some (Some (n, zeros, edges), s)
     }
   }"

section \<open>Talking to the far end\<close>

abbreviation (input) CLKSEL_9600 :: u8 where "CLKSEL_9600 \<equiv> 0x01"
abbreviation (input) BPR_9600 :: u8 where "BPR_9600 \<equiv> 0x71"
abbreviation (input) TALK_BUF :: nat where "TALK_BUF \<equiv> 256"

definition talk_regs :: "nat \<Rightarrow> (nat \<times> u8) list" where
  "talk_regs ch =
     [(TPR, 0x40), (CAR, word_of_nat ch AND 3), (LIVR, 0x40), (RCOR, RCOR_CLK CLKSEL_9600), (RBPR, BPR_9600),
      (TCOR, TCOR_CLK CLKSEL_9600), (TBPR, BPR_9600), (CMR, 0x02), (COR1, 0x17), (COR2, 0x00), (COR3, 0x02),
      (COR4, 0x01), (COR5, 0x00), (CCR, CCR_INITCH)]"

text \<open>
  The wait for one receive service of a round.  The count is clamped to the room left before the
  bytes are read.
\<close>

fun talk_drain :: "nat \<Rightarrow> nat \<Rightarrow> u8 list \<Rightarrow> nm32a \<Rightarrow> (u8 list \<times> nm32a) option" where
  "talk_drain 0 c buf s = Some (buf, s)"
| "talk_drain (Suc n) c buf s = do {
     (v, s) \<leftarrow> crd c RIR s;
     if v AND 0x80 = 0 then talk_drain n c buf s
     else do {
       (_, s) \<leftarrow> rdb (NM32A_ACK s) s;
       (i, s) \<leftarrow> crd c RFOC s;
       let i = (if unat i > TALK_BUF - length buf then TALK_BUF - length buf else unat i);
       (buf, s) \<leftarrow> drain_buf c TALK_BUF i buf s;
       Some (buf, cwr c REOIR 0x00 s)
     }
   }"

text \<open>\<open>for (round = 0; round < 60 && got < sizeof (buf) - 8; round++)\<close>: rounds left, the round.\<close>

fun talk_rounds :: "nat \<Rightarrow> nat \<Rightarrow> nat \<Rightarrow> u8 list \<Rightarrow> nm32a \<Rightarrow> (u8 list \<times> nm32a) option" where
  "talk_rounds 0 rnd c buf s = Some (buf, s)"
| "talk_rounds (Suc n) rnd c buf s =
     (if \<not> length buf < TALK_BUF - 8 then Some (buf, s)
      else do {
        s \<leftarrow> (if rnd mod 20 = 0 then do { (_, s) \<leftarrow> prod_line 100000 c [0x0D, 0x0A] s; Some s } else Some s);
        (buf, s) \<leftarrow> talk_drain 300000 c buf s;
        talk_rounds n (rnd + 1) c buf (mdelay 20 s)
      })"

text \<open>The line shown: at most 76 characters, dots for what does not print.\<close>

definition printable :: "u8 \<Rightarrow> bool" where
  "printable v \<longleftrightarrow> 0x20 \<le> v \<and> v < 0x7f"

definition show_line :: "u8 list \<Rightarrow> string" where
  "show_line buf = map (\<lambda>v. if printable v then char_of (unat v) else CHR ''.'') (take 76 buf)"

definition nm32a_talk :: "nat \<Rightarrow> nat \<Rightarrow> nm32a \<Rightarrow> (u8 list \<times> nm32a) option" where
  "nm32a_talk c ch s = do {
     (ok, s) \<leftarrow> line_start c (talk_regs ch) s;
     if \<not> ok then Some ([], s)
     else do {
       (_, s) \<leftarrow> crd c CSR s;
       (buf, s) \<leftarrow> talk_rounds 60 0 c [] s;
       if buf \<noteq> [] then Some (buf, s)
       else do { (_, s) \<leftarrow> crds c [RIR, RFOC, RISRl, CSR] s; Some (buf, s) }
     }
   }"

section \<open>Searching for the bit rate\<close>

text \<open>The best setting so far: its score, clock select and divisor.\<close>

type_synonym best = "nat \<times> u8 \<times> u8"

definition is_text :: "u8 \<Rightarrow> bool" where
  "is_text v \<longleftrightarrow> printable v \<or> v = 0x0D \<or> v = 0x0A"

definition sweep_regs :: "u8 \<Rightarrow> u8 \<Rightarrow> (nat \<times> u8) list" where
  "sweep_regs sel bpr =
     [(RCOR, sel), (RBPR, bpr), (TCOR, sel), (TBPR, bpr), (CMR, 0x02), (COR1, 0x17), (COR2, 0x00),
      (COR3, 0x02), (COR4, 0x01), (COR5, 0x00), (CCR, CCR_INITCH)]"

definition sweep_score :: "u8 \<Rightarrow> u8 \<Rightarrow> u8 list \<Rightarrow> best \<Rightarrow> best" where
  "sweep_score sel bpr got b =
     (let p = length (filter is_text got)
      in if got \<noteq> [] \<and> p * 4 \<ge> length got * 3 \<and> p > fst b then (p, sel, bpr) else b)"

definition sweep_one :: "nat \<Rightarrow> nat \<Rightarrow> u8 \<times> u8 \<Rightarrow> best \<Rightarrow> nm32a \<Rightarrow> (best \<times> nm32a) option" where
  "sweep_one c ch = (\<lambda>(sel, bpr) b s. do {
     (rc, s) \<leftarrow> ccr_wait c (cwrs c [(CAR, word_of_nat ch AND 3), (CCR, CCR_INITCH)] s);
     if rc \<noteq> 0 then Some (b, s)
     else do {
       (ok, s) \<leftarrow> char_start c (sweep_regs sel bpr) s;
       if \<not> ok then Some (b, s)
       else do {
         (_, s) \<leftarrow> prod_line 60000 c [0x0D] s;
         (got, s) \<leftarrow> listen 40000 c 32 [] (mdelay 60 s);
         Some (sweep_score sel bpr got b, s)
       }
     }
   })"

fun sweep_all :: "nat \<Rightarrow> nat \<Rightarrow> (u8 \<times> u8) list \<Rightarrow> best \<Rightarrow> nm32a \<Rightarrow> (best \<times> nm32a) option" where
  "sweep_all c ch [] b s = Some (b, s)"
| "sweep_all c ch (x # xs) b s = do { (b, s) \<leftarrow> sweep_one c ch x b s; sweep_all c ch xs b s }"

definition sweep_space :: "(u8 \<times> u8) list" where
  "sweep_space = concat (map (\<lambda>sel. map (\<lambda>bpr. (word_of_nat sel, word_of_nat bpr)) [1..<256]) [0..<3])"

definition nm32a_baud_sweep :: "nat \<Rightarrow> nat \<Rightarrow> nm32a \<Rightarrow> (best \<times> nm32a) option" where
  "nm32a_baud_sweep c ch s = sweep_all c ch sweep_space (0, 0, 0) s"

section \<open>Echo match\<close>

definition probe_bytes :: "u8 list" where
  "probe_bytes = [0x55, 0x55, 0x41, 0x41, 0x55, 0x41]"

definition echo_cand :: "(u8 \<times> u8 \<times> nat) list" where
  "echo_cand =
     [(1, 0xe3, 4800), (1, 0x71, 9600), (1, 0x38, 19200), (1, 0x1c, 38400), (1, 0x12, 57600), (1, 0x09, 115200),
      (0, 0xe3, 19200), (0, 0x71, 38400), (0, 0x4b, 57600), (0, 0x25, 115200)]"

definition echo_regs :: "nat \<Rightarrow> u8 \<Rightarrow> u8 \<Rightarrow> (nat \<times> u8) list" where
  "echo_regs ch sel bpr =
     [(CAR, word_of_nat ch AND 3), (RCOR, RCOR_CLK sel), (RBPR, bpr), (TCOR, TCOR_CLK sel), (TBPR, bpr),
      (CMR, 0x02), (COR1, 0x17), (COR2, 0x00), (COR3, 0x02), (COR4, 0x01), (COR5, 0x00), (CCR, CCR_INITCH)]"

definition echo_matches :: "u8 list \<Rightarrow> nat" where
  "echo_matches got = length (filter (\<lambda>(a, b). a = b) (zip got probe_bytes))"

text \<open>One candidate: nothing when it is skipped, else the bytes that came back and the matches.\<close>

definition echo_one :: "nat \<Rightarrow> nat \<Rightarrow> u8 \<times> u8 \<times> nat \<Rightarrow> nm32a \<Rightarrow> ((u8 list \<times> nat) option \<times> nm32a) option" where
  "echo_one c ch = (\<lambda>(sel, bpr, rate) s. do {
     (ok, s) \<leftarrow> char_start c (echo_regs ch sel bpr) s;
     if \<not> ok then Some (None, s)
     else do {
       (ok, s) \<leftarrow> prod_line 60000 c probe_bytes s;
       if \<not> ok then Some (None, s)
       else do {
         (got, s) \<leftarrow> listen 80000 c 16 [] (mdelay 120 s);
         Some (Some (got, echo_matches got), s)
       }
     }
   })"

fun echo_all :: "nat \<Rightarrow> nat \<Rightarrow> (u8 \<times> u8 \<times> nat) list \<Rightarrow> nm32a \<Rightarrow> ((u8 list \<times> nat) option list \<times> nm32a) option" where
  "echo_all c ch [] s = Some ([], s)"
| "echo_all c ch (x # xs) s = do {
     (r, s) \<leftarrow> echo_one c ch x s;
     (rs, s) \<leftarrow> echo_all c ch xs s;
     Some (r # rs, s)
   }"

definition nm32a_echo_match :: "nat \<Rightarrow> nat \<Rightarrow> nm32a \<Rightarrow> ((u8 list \<times> nat) option list \<times> nm32a) option" where
  "nm32a_echo_match c ch s = echo_all c ch echo_cand s"

section \<open>Measuring the clock\<close>

definition ktime :: "labenv \<Rightarrow> nm32a \<Rightarrow> int \<times> nm32a" where
  "ktime E s = (let t = us_clock E (evs s) in (t, ev (Io (ClockUs t)) s))"

text \<open>Wait for TLVal to be \<open>want\<close>; whether it was seen within the tries.\<close>

fun tl_wait :: "nat \<Rightarrow> nat \<Rightarrow> bool \<Rightarrow> nm32a \<Rightarrow> (bool \<times> nm32a) option" where
  "tl_wait 0 c want s = Some (False, s)"
| "tl_wait (Suc n) c want s = do {
     (v, s) \<leftarrow> crd c RCOR s;
     if (v AND 0x80 \<noteq> 0) = want then Some (True, s) else tl_wait n c want s
   }"

text \<open>The characters of one divisor: how many were timed and the microseconds in all.\<close>

fun time_chars :: "nat \<Rightarrow> labenv \<Rightarrow> nat \<Rightarrow> nat \<times> int \<Rightarrow> nm32a \<Rightarrow> ((nat \<times> int) \<times> nm32a) option" where
  "time_chars 0 E c a s = Some (a, s)"
| "time_chars (Suc n) E c (sent, us) s = do {
     (ok, s) \<leftarrow> prod_line 200000 c [0x00] s;
     if \<not> ok then Some ((sent, us), s)
     else do {
       (low, s) \<leftarrow> tl_wait 2000000 c False s;
       if \<not> low then Some ((sent, us), s)
       else do {
         let (t0, s) = ktime E s;
         (_, s) \<leftarrow> tl_wait 2000000 c True s;
         let (t1, s) = ktime E s;
         time_chars n E c (sent + 1, us + (t1 - t0)) s
       }
     }
   }"

definition measure_regs :: "nat \<Rightarrow> u8 \<Rightarrow> (nat \<times> u8) list" where
  "measure_regs ch bpr =
     [(CAR, word_of_nat ch AND 3), (RCOR, 0x00), (RBPR, bpr), (TCOR, 0x00), (TBPR, bpr), (CMR, 0x02),
      (COR1, 0x17), (COR2, 0x00), (COR3, 0x02), (COR4, 0x08), (COR5, 0x00), (CCR, CCR_INITCH)]"

text \<open>The rate and the clock it implies, in 32 bits: nine bit times per character.\<close>

definition measured :: "u32 \<Rightarrow> nat \<Rightarrow> int \<Rightarrow> (u32 \<times> u32) option" where
  "measured bpr sent us =
     (if sent \<noteq> 0 \<and> us > 0
      then let baud = word_of_nat (sent * 9 * 1000000 div unat (word_of_int us :: u32))
           in Some (baud, baud * (bpr + 1) * 8)
      else None)"

definition measure_one :: "labenv \<Rightarrow> nat \<Rightarrow> nat \<Rightarrow> u32 \<Rightarrow> nm32a \<Rightarrow> ((u32 \<times> u32) option \<times> nm32a) option" where
  "measure_one E c ch bpr s = do {
     (ok, s) \<leftarrow> char_start c (measure_regs ch (ucast bpr)) s;
     if \<not> ok then Some (None, s)
     else do {
       ((sent, us), s) \<leftarrow> time_chars 8 E c (0, 0) s;
       Some (measured bpr sent us, s)
     }
   }"

fun measure_all :: "labenv \<Rightarrow> nat \<Rightarrow> nat \<Rightarrow> u32 list \<Rightarrow> nm32a \<Rightarrow> ((u32 \<times> u32) option list \<times> nm32a) option" where
  "measure_all E c ch [] s = Some ([], s)"
| "measure_all E c ch (b # bs) s = do {
     (r, s) \<leftarrow> measure_one E c ch b s;
     (rs, s) \<leftarrow> measure_all E c ch bs s;
     Some (r # rs, s)
   }"

definition bprs :: "u32 list" where
  "bprs = [0x81, 0x86, 0x71, 0x40, 0x20]"

definition nm32a_measure_baud :: "labenv \<Rightarrow> nat \<Rightarrow> nat \<Rightarrow> nm32a \<Rightarrow> ((u32 \<times> u32) option list \<times> nm32a) option" where
  "nm32a_measure_baud E c ch s = measure_all E c ch bprs s"

section \<open>The tests return\<close>

lemma returns_drain_buf [returns]:
  "responsive h \<Longrightarrow> hw s = h \<Longrightarrow> returns h snd (drain_buf c cap i buf s)"
proof (induction i arbitrary: buf s)
  case (Suc i)
  note Suc.IH [OF Suc.prems(1), returns]
  show ?case using Suc.prems by (simp only: drain_buf.simps) (intro returns, simp_all)
qed (simp add: returns)

lemma returns_drain_service [returns]:
  "responsive h \<Longrightarrow> hw s = h \<Longrightarrow> returns h snd (drain_service c cap buf s)"
  unfolding drain_service_def by (intro returns, simp_all)

lemma returns_listen [returns]:
  "responsive h \<Longrightarrow> hw s = h \<Longrightarrow> returns h snd (listen n c cap buf s)"
proof (induction n arbitrary: buf s)
  case (Suc n)
  note Suc.IH [OF Suc.prems(1), returns]
  show ?case using Suc.prems by (simp only: listen.simps) (intro returns, simp_all)
qed (simp add: returns)

lemma returns_prod_line [returns]: "responsive h \<Longrightarrow> hw s = h \<Longrightarrow> returns h snd (prod_line n c bs s)"
  unfolding prod_line_def by (intro returns, simp_all)

lemma returns_line_samples [returns]:
  "responsive h \<Longrightarrow> hw s = h \<Longrightarrow> returns h snd (line_samples n c z s)"
proof (induction n arbitrary: z s)
  case (Suc n)
  note Suc.IH [OF Suc.prems(1), returns]
  show ?case using Suc.prems by (cases z) (simp only: line_samples.simps Let_def, intro returns, simp_all)
qed (simp add: returns)

lemma returns_line_bursts:
  "responsive h \<Longrightarrow> hw s = h \<Longrightarrow> \<exists>k z' t. line_bursts n c z s = Some (k, z', t) \<and> hw t = h"
proof (induction n arbitrary: z s)
  case (Suc n)
  obtain ok t where t: "prod_line 20000 c (replicate 8 0x55) s = Some (ok, t)" "hw t = h"
    using returns_prod_line [OF Suc.prems, of 20000 c "replicate 8 0x55"] by (auto simp: returns_def)
  obtain z' u where u: "line_samples 3000 c z t = Some (z', u)" "hw u = h"
    using returns_line_samples [OF Suc.prems(1) t(2), of 3000 c z] by (auto simp: returns_def)
  from Suc.IH [OF Suc.prems(1) u(2), of z'] t u show ?case by (cases z) auto
next
  case 0
  then show ?case by (cases z) simp
qed

lemma returns_line_start [returns]:
  "responsive h \<Longrightarrow> ticks h \<Longrightarrow> hw s = h \<Longrightarrow> returns h snd (line_start c regs s)"
  unfolding line_start_def by (intro returns, simp_all)

lemma returns_bind_bursts [returns]:
  assumes "responsive h" and "hw s = h" and "\<And>k z t. hw t = h \<Longrightarrow> returns h st (f k z t)"
  shows "returns h st (Option.bind (line_bursts n c z s) (\<lambda>(k, z, t). f k z t))"
  using returns_line_bursts [OF assms(1,2), of n c z] assms(3) by auto

lemma returns_tx_line [returns]:
  assumes "responsive h" and "ticks h" and "hw s = h"
  shows "returns h snd (nm32a_tx_line c ch s)"
proof -
  have k: "returns h snd (do { (_, s) \<leftarrow> crds c [TIR, CSR] t; Some (Some (n, zeros, edges), s) })"
    if "hw t = h" for n zeros edges t
    using assms that by (intro returns, simp_all)
  show ?thesis
    using assms unfolding nm32a_tx_line_def
    by (intro returns, simp_all add: case_prod_unfold k [unfolded case_prod_unfold] del: crds.simps)
qed

lemma returns_talk_drain [returns]:
  "responsive h \<Longrightarrow> hw s = h \<Longrightarrow> returns h snd (talk_drain n c buf s)"
proof (induction n arbitrary: s)
  case (Suc n)
  note Suc.IH [OF Suc.prems(1), returns]
  show ?case using Suc.prems by (simp only: talk_drain.simps Let_def) (intro returns, simp_all)
qed (simp add: returns)

lemma returns_talk_rounds [returns]:
  "responsive h \<Longrightarrow> hw s = h \<Longrightarrow> returns h snd (talk_rounds n r c buf s)"
proof (induction n arbitrary: r buf s)
  case (Suc n)
  note Suc.IH [OF Suc.prems(1), returns]
  show ?case using Suc.prems by (simp only: talk_rounds.simps) (intro returns, simp_all)
qed (simp add: returns)

lemma returns_talk [returns]:
  "responsive h \<Longrightarrow> ticks h \<Longrightarrow> hw s = h \<Longrightarrow> returns h snd (nm32a_talk c ch s)"
  unfolding nm32a_talk_def by (intro returns, simp_all)

lemma returns_sweep_one [returns]:
  "responsive h \<Longrightarrow> ticks h \<Longrightarrow> hw s = h \<Longrightarrow> returns h snd (sweep_one c ch x b s)"
  unfolding sweep_one_def by (cases x) (simp only: prod.case, intro returns, simp_all)

lemma returns_sweep_all [returns]:
  "responsive h \<Longrightarrow> ticks h \<Longrightarrow> hw s = h \<Longrightarrow> returns h snd (sweep_all c ch xs b s)"
proof (induction xs arbitrary: b s)
  case (Cons x xs)
  note Cons.IH [OF Cons.prems(1,2), returns]
  show ?case using Cons.prems by (simp only: sweep_all.simps) (intro returns, simp_all)
qed (simp add: returns)

lemma returns_echo_one [returns]:
  "responsive h \<Longrightarrow> ticks h \<Longrightarrow> hw s = h \<Longrightarrow> returns h snd (echo_one c ch x s)"
  unfolding echo_one_def by (cases x) (simp only: prod.case, intro returns, simp_all)

lemma returns_echo_all [returns]:
  "responsive h \<Longrightarrow> ticks h \<Longrightarrow> hw s = h \<Longrightarrow> returns h snd (echo_all c ch xs s)"
proof (induction xs arbitrary: s)
  case (Cons x xs)
  note Cons.IH [OF Cons.prems(1,2), returns]
  show ?case using Cons.prems by (simp only: echo_all.simps) (intro returns, simp_all)
qed (simp add: returns)

lemma returns_tl_wait [returns]:
  "responsive h \<Longrightarrow> hw s = h \<Longrightarrow> returns h snd (tl_wait n c want s)"
proof (induction n arbitrary: s)
  case (Suc n)
  note Suc.IH [OF Suc.prems(1), returns]
  show ?case using Suc.prems by (simp only: tl_wait.simps) (intro returns, simp_all)
qed (simp add: returns)

lemma returns_ktime [returns]:
  "hw s = h \<Longrightarrow> (\<And>v t. hw t = h \<Longrightarrow> returns h st (f v t)) \<Longrightarrow> returns h st (case ktime E s of (v, t) \<Rightarrow> f v t)"
  by (simp add: ktime_def Let_def)

lemma returns_time_chars:
  "responsive h \<Longrightarrow> hw s = h \<Longrightarrow> returns h snd (time_chars n E c a s)"
proof (induction n arbitrary: a s)
  case (Suc n)
  note Suc.IH [OF Suc.prems(1), returns]
  show ?case using Suc.prems by (cases a) (simp only: time_chars.simps Let_def, intro returns, simp_all)
qed (simp add: returns)

lemma returns_measure_one [returns]:
  assumes "responsive h" and "ticks h" and "hw s = h"
  shows "returns h snd (measure_one E c ch b s)"
proof -
  obtain ok t where t: "char_start c (measure_regs ch (ucast b)) s = Some (ok, t)" "hw t = h"
    using returns_char_start [OF assms, of c "measure_regs ch (ucast b)"] by (auto simp: returns_def)
  with returns_time_chars [OF assms(1) t(2), of 8 E c "(0, 0)"] show ?thesis
    by (auto simp: returns_def measure_one_def)
qed

lemma returns_measure_all [returns]:
  "responsive h \<Longrightarrow> ticks h \<Longrightarrow> hw s = h \<Longrightarrow> returns h snd (measure_all E c ch bs s)"
proof (induction bs arbitrary: s)
  case (Cons b bs)
  note Cons.IH [OF Cons.prems(1,2), returns]
  show ?case using Cons.prems by (simp only: measure_all.simps) (intro returns, simp_all)
qed (simp add: returns)

section \<open>The buffers\<close>

text \<open>The bytes read from RDR of a chip, oldest first.\<close>

fun rdr_bytes :: "nat \<Rightarrow> cev list \<Rightarrow> u8 list" where
  "rdr_bytes c [] = []"
| "rdr_bytes c (RdB (Reg c' r) v # h) = (if c' = c \<and> r = RDR then rdr_bytes c h @ [v] else rdr_bytes c h)"
| "rdr_bytes c (_ # h) = rdr_bytes c h"

text \<open>\<open>fills c s0 cap buf s\<close>: what is in the buffer is what was read from RDR since \<open>s0\<close>, and it fits.\<close>

definition fills :: "nat \<Rightarrow> nm32a \<Rightarrow> nat \<Rightarrow> u8 list \<Rightarrow> nm32a \<Rightarrow> bool" where
  "fills c s0 cap buf s \<longleftrightarrow> rdr_bytes c (evs s) = rdr_bytes c (evs s0) @ buf \<and> length buf \<le> cap"

definition no_rdr :: "cev \<Rightarrow> bool" where
  "no_rdr e \<longleftrightarrow> (\<forall>c v. e \<noteq> RdB (Reg c RDR) v)"

lemma rdr_bytes_cons: "no_rdr e \<Longrightarrow> rdr_bytes c (e # h) = rdr_bytes c h"
  by (cases "(c, e # h)" rule: rdr_bytes.cases) (auto simp: no_rdr_def)

lemma rdr_bytes_grows:
  assumes "grows no_rdr s t"
  shows "rdr_bytes c (evs t) = rdr_bytes c (evs s)"
proof -
  obtain pre where "evs t = pre @ evs s" "list_all no_rdr pre" using assms by (rule growsE)
  moreover have "list_all no_rdr pre \<Longrightarrow> rdr_bytes c (pre @ h) = rdr_bytes c h" for h
    by (induction pre) (simp_all add: rdr_bytes_cons)
  ultimately show ?thesis by simp
qed

lemma fills_step: "fills c s0 cap buf s \<Longrightarrow> grows no_rdr s t \<Longrightarrow> fills c s0 cap buf t"
  by (simp add: fills_def rdr_bytes_grows)

lemma no_rdr_crd: "crd c r s = Some (v, t) \<Longrightarrow> r \<noteq> RDR \<Longrightarrow> grows no_rdr s t"
  by (erule grows_crd) (simp add: no_rdr_def)

lemma no_rdr_ev [simp]: "no_rdr (WrB a v)" "no_rdr (RdB (Bar x) v)" "no_rdr (Udelay d)"
  by (simp_all add: no_rdr_def)

lemma no_rdr_rdb: "rdb (Bar a) s = Some (v, t) \<Longrightarrow> grows no_rdr s t"
  by (auto simp: rdb_Some intro: grows_ev)

lemma no_rdr_cwrs: "grows no_rdr s (cwrs c ws s)"
  by (rule grows_cwrs) (simp add: case_prod_unfold list_all_iff)

lemma no_rdr_poll_hi: "poll_hi n c r s = Some (k, t) \<Longrightarrow> r \<noteq> RDR \<Longrightarrow> grows no_rdr s t"
proof (induction n arbitrary: k s)
  case (Suc n)
  from Suc.prems(1) obtain v u where v: "crd c r s = Some (v, u)"
    and k: "u = t \<or> (\<exists>k'. poll_hi n c r u = Some (k', t))"
    by (auto elim!: bind_SomeE split: if_splits)
  have "grows no_rdr s u" using v Suc.prems(2) by (rule no_rdr_crd)
  with k Suc.IH Suc.prems(2) show ?case by (auto intro: grows_trans)
qed simp

lemma no_rdr_ccr_wait: "ccr_wait c s = Some (r, t) \<Longrightarrow> grows no_rdr s t"
proof -
  have "plain_read c e \<Longrightarrow> no_rdr e" for e
    by (induction c e rule: plain_read.induct) (auto simp: no_rdr_def)
  then show "ccr_wait c s = Some (r, t) \<Longrightarrow> grows no_rdr s t"
    by (blast dest: ccr_wait_Some(1) intro: grows_mono)
qed

lemma no_rdr_cwr: "grows no_rdr s t \<Longrightarrow> grows no_rdr s (cwr c r v t)"
  unfolding cwr_def by (rule grows_snoc_ev) simp_all

lemma no_rdr_prod_line: "prod_line n c bs s = Some (ok, t) \<Longrightarrow> grows no_rdr s t"
proof -
  assume "prod_line n c bs s = Some (ok, t)"
  then obtain k s1 v s2 where a: "poll_hi n c TIR s = Some (k, s1)" "crd c TIR s1 = Some (v, s2)"
    and b: "(if v AND 0x80 = 0 then Some (False, s2) else do {
       (_, s) \<leftarrow> rdb (NM32A_ACK s2) s2;
       Some (True, cwr c TEOIR 0x00 (cwrs c (map (\<lambda>b. (TDR, b)) bs) s)) }) = Some (ok, t)"
    by (auto simp: prod_line_def elim!: bind_SomeE)
  have g: "grows no_rdr s s2"
    using no_rdr_poll_hi [OF a(1)] no_rdr_crd [OF a(2)] by (auto intro: grows_trans)
  show ?thesis
  proof (cases "v AND 0x80 = 0")
    case True
    with b g show ?thesis by simp
  next
    case False
    with b obtain w s3 where c: "rdb (NM32A_ACK s2) s2 = Some (w, s3)"
      and t: "t = cwr c TEOIR 0x00 (cwrs c (map (\<lambda>b. (TDR, b)) bs) s3)"
      by (auto elim!: bind_SomeE)
    show ?thesis
      unfolding t using g no_rdr_rdb [OF c] no_rdr_cwrs [of s3 c] by (blast intro: grows_trans no_rdr_cwr)
  qed
qed

lemma drain_buf_fills:
  "drain_buf c cap i buf s = Some (buf', t) \<Longrightarrow> fills c s0 cap buf s \<Longrightarrow> fills c s0 cap buf' t"
proof (induction i arbitrary: buf s)
  case (Suc i)
  show ?case
  proof (cases "length buf < cap")
    case True
    with Suc.prems(1) obtain v u where v: "crd c RDR s = Some (v, u)" and k: "drain_buf c cap i (buf @ [v]) u = Some (buf', t)"
      by (auto elim!: bind_SomeE)
    have "fills c s0 cap (buf @ [v]) u"
      using Suc.prems(2) v True by (auto simp: fills_def crd_Some)
    with Suc.IH [OF k] show ?thesis .
  next
    case False
    with Suc.prems show ?thesis by simp
  qed
qed simp

lemma drain_service_fills:
  assumes "drain_service c cap buf s = Some (buf', t)" and "fills c s0 cap buf s"
  shows "fills c s0 cap buf' t"
proof -
  from assms(1) obtain w s1 i s2 s3 where a: "rdb (NM32A_ACK s) s = Some (w, s1)" "crd c RFOC s1 = Some (i, s2)"
      "drain_buf c cap (unat i) buf s2 = Some (buf', s3)" and t: "t = cwr c REOIR 0x00 s3"
    by (auto simp: drain_service_def elim!: bind_SomeE)
  have "fills c s0 cap buf s2"
    using assms(2) no_rdr_rdb [OF a(1)] no_rdr_crd [OF a(2)] by (auto intro: fills_step)
  from drain_buf_fills [OF a(3) this] show ?thesis
    unfolding t by (rule fills_step) (simp add: no_rdr_cwr)
qed

lemma listen_fills:
  "listen n c cap buf s = Some (buf', t) \<Longrightarrow> fills c s0 cap buf s \<Longrightarrow> fills c s0 cap buf' t"
proof (induction n arbitrary: buf s)
  case (Suc n)
  show ?case
  proof (cases "length buf < cap")
    case True
    with Suc.prems(1) obtain v u where v: "crd c RIR s = Some (v, u)"
      and k: "(if v AND 0x80 = 0 then listen n c cap buf u
        else do { (buf, s) \<leftarrow> drain_service c cap buf u; listen n c cap buf s }) = Some (buf', t)"
      by (auto elim!: bind_SomeE)
    have f: "fills c s0 cap buf u" using Suc.prems(2) no_rdr_crd [OF v] by (auto intro: fills_step)
    show ?thesis
      using k f Suc.IH by (auto split: if_splits elim!: bind_SomeE dest: drain_service_fills)
  next
    case False
    with Suc.prems show ?thesis by simp
  qed
qed simp

lemma talk_drain_fills:
  "talk_drain n c buf s = Some (buf', t) \<Longrightarrow> fills c s0 TALK_BUF buf s \<Longrightarrow> fills c s0 TALK_BUF buf' t"
proof (induction n arbitrary: s)
  case (Suc n)
  from Suc.prems(1) obtain v u where v: "crd c RIR s = Some (v, u)"
    and k: "(if v AND 0x80 = 0 then talk_drain n c buf u else do {
       (_, s) \<leftarrow> rdb (NM32A_ACK u) u;
       (i, s) \<leftarrow> crd c RFOC s;
       let i = (if unat i > TALK_BUF - length buf then TALK_BUF - length buf else unat i);
       (buf, s) \<leftarrow> drain_buf c TALK_BUF i buf s;
       Some (buf, cwr c REOIR 0x00 s) }) = Some (buf', t)"
    by (auto elim!: bind_SomeE)
  have f: "fills c s0 TALK_BUF buf u" using Suc.prems(2) no_rdr_crd [OF v] by (auto intro: fills_step)
  show ?case
  proof (cases "v AND 0x80 = 0")
    case True
    with k f Suc.IH show ?thesis by simp
  next
    case False
    with k obtain w s1 i s2 n' s3 where a: "rdb (NM32A_ACK u) u = Some (w, s1)" "crd c RFOC s1 = Some (i, s2)"
        "drain_buf c TALK_BUF n' buf s2 = Some (buf', s3)" and t: "t = cwr c REOIR 0x00 s3"
      by (auto simp: Let_def elim!: bind_SomeE)
    have "fills c s0 TALK_BUF buf s2"
      using f no_rdr_rdb [OF a(1)] no_rdr_crd [OF a(2)] by (auto intro: fills_step)
    from drain_buf_fills [OF a(3) this] show ?thesis
      unfolding t by (rule fills_step) (simp add: no_rdr_cwr)
  qed
qed simp

lemma talk_rounds_fills:
  "talk_rounds n r c buf s = Some (buf', t) \<Longrightarrow> fills c s0 TALK_BUF buf s \<Longrightarrow> fills c s0 TALK_BUF buf' t"
proof (induction n arbitrary: r buf s)
  case (Suc n)
  show ?case
  proof (cases "length buf < TALK_BUF - 8")
    case True
    with Suc.prems(1) obtain s1 buf1 s2 where a: "(if r mod 20 = 0 then do { (_, s) \<leftarrow> prod_line 100000 c [0x0D, 0x0A] s; Some s } else Some s) = Some s1"
      and b: "talk_drain 300000 c buf s1 = Some (buf1, s2)" and k: "talk_rounds n (r + 1) c buf1 (mdelay 20 s2) = Some (buf', t)"
      by (auto simp del: talk_drain.simps elim!: bind_SomeE split del: if_split)
    have "grows no_rdr s s1" using a by (auto split: if_splits elim!: bind_SomeE dest: no_rdr_prod_line)
    with Suc.prems(2) have "fills c s0 TALK_BUF buf s1" by (rule fills_step)
    from talk_drain_fills [OF b this] have "fills c s0 TALK_BUF buf1 (mdelay 20 s2)"
      by (rule fills_step) (simp add: mdelay_def grows_ev)
    from Suc.IH [OF k this] show ?thesis .
  next
    case False
    with Suc.prems show ?thesis by simp
  qed
qed simp

lemma no_rdr_crds: "crds c rs s = Some (vs, t) \<Longrightarrow> RDR \<notin> set rs \<Longrightarrow> grows no_rdr s t"
proof (induction rs arbitrary: vs s)
  case (Cons r rs)
  from Cons.prems(1) obtain v u vs' where "crd c r s = Some (v, u)" "crds c rs u = Some (vs', t)"
    by (auto elim!: bind_SomeE)
  with Cons.IH Cons.prems(2) show ?case by (auto intro: grows_trans dest: no_rdr_crd)
qed simp

lemma no_rdr_line_start: "line_start c regs s = Some (ok, t) \<Longrightarrow> grows no_rdr s t"
proof -
  assume l: "line_start c regs s = Some (ok, t)"
  obtain q s1 where q: "ccr_wait c (cwrs c regs s) = Some (q, s1)"
    using l by (cases "ccr_wait c (cwrs c regs s)") (auto simp: line_start_def)
  have g: "grows no_rdr s s1" using no_rdr_cwrs no_rdr_ccr_wait [OF q] by (rule grows_trans)
  show ?thesis
  proof (cases "q = 0")
    case False
    with l q g show ?thesis by (auto simp: line_start_def elim!: bind_SomeE dest!: no_rdr_crd intro: grows_trans)
  next
    case True
    with l q obtain q2 s2 where q2: "ccr_wait c (cwr c CCR (CCR_ENTX OR CCR_ENRX) s1) = Some (q2, s2)"
      and t: "t = s2 \<or> t = cwrs c [(MSVR_RTS, 0x01), (MSVR_DTR, 0x02), (IER, 0x09)] s2"
      by (auto simp: line_start_def simp del: cwrs_simps elim!: bind_SomeE split: if_splits)
    have "grows no_rdr s s2" using no_rdr_cwr [OF g] no_rdr_ccr_wait [OF q2] by (rule grows_trans)
    with t no_rdr_cwrs show ?thesis by (blast intro: grows_trans)
  qed
qed

lemma no_rdr_char_start: "char_start c regs s = Some (ok, t) \<Longrightarrow> grows no_rdr s t"
proof -
  assume l: "char_start c regs s = Some (ok, t)"
  obtain q s1 where q: "ccr_wait c (cwrs c regs s) = Some (q, s1)"
    using l by (cases "ccr_wait c (cwrs c regs s)") (auto simp: char_start_def)
  have g: "grows no_rdr s s1" using no_rdr_cwrs no_rdr_ccr_wait [OF q] by (rule grows_trans)
  show ?thesis
  proof (cases "q = 0")
    case False
    with l q g show ?thesis by (auto simp: char_start_def)
  next
    case True
    with l q obtain q2 s2 where q2: "ccr_wait c (cwr c CCR (CCR_ENTX OR CCR_ENRX) s1) = Some (q2, s2)"
      and t: "t = s2 \<or> t = cwr c IER 0x09 s2"
      by (auto simp: char_start_def elim!: bind_SomeE split: if_splits)
    have "grows no_rdr s s2" using no_rdr_cwr [OF g] no_rdr_ccr_wait [OF q2] by (rule grows_trans)
    with t show ?thesis by (blast intro: no_rdr_cwr)
  qed
qed

lemma fills_start: "fills c s cap [] s"
  by (simp add: fills_def)

lemma talk_fills:
  assumes "nm32a_talk c ch s = Some (buf, t)"
  shows "buf \<noteq> [] \<Longrightarrow> fills c s TALK_BUF buf t" and "buf = [] \<Longrightarrow> rdr_bytes c (evs t) = rdr_bytes c (evs s)"
proof -
  obtain ok s1 where a: "line_start c (talk_regs ch) s = Some (ok, s1)"
    using assms by (cases "line_start c (talk_regs ch) s") (auto simp: nm32a_talk_def)
  note g = no_rdr_line_start [OF a]
  have *: "fills c s TALK_BUF buf t"
  proof (cases ok)
    case False
    with assms a g fills_step [OF fills_start g] show ?thesis by (simp add: nm32a_talk_def)
  next
    case True
    with assms a obtain v s2 where v: "crd c CSR s1 = Some (v, s2)"
      by (cases "crd c CSR s1") (auto simp: nm32a_talk_def)
    with assms a True obtain s3 where r: "talk_rounds 60 0 c [] s2 = Some (buf, s3)"
      and k: "(if buf \<noteq> [] then Some (buf, s3) else do { (_, s) \<leftarrow> crds c [RIR, RFOC, RISRl, CSR] s3; Some (buf, s) }) = Some (buf, t)"
      by (cases "talk_rounds 60 0 c [] s2") (auto simp: nm32a_talk_def simp del: crds.simps elim!: bind_SomeE split: if_splits)
    have "grows no_rdr s s2" using g no_rdr_crd [OF v] by (auto intro: grows_trans)
    from talk_rounds_fills [OF r fills_step [OF fills_start this]]
    have f: "fills c s TALK_BUF buf s3" .
    from k have "s3 = t \<or> grows no_rdr s3 t"
      by (auto simp del: crds.simps split: if_splits elim!: bind_SomeE dest!: no_rdr_crds)
    with f show ?thesis by (auto intro: fills_step)
  qed
  then show "buf \<noteq> [] \<Longrightarrow> fills c s TALK_BUF buf t" by simp
  show "buf = [] \<Longrightarrow> rdr_bytes c (evs t) = rdr_bytes c (evs s)"
    using * by (simp add: fills_def)
qed

definition echo_bytes :: "(u8 list \<times> nat) option \<Rightarrow> u8 list" where
  "echo_bytes r = (case r of None \<Rightarrow> [] | Some (got, m) \<Rightarrow> got)"

definition echo_fits :: "(u8 list \<times> nat) option \<Rightarrow> bool" where
  "echo_fits r = (case r of None \<Rightarrow> True | Some (got, m) \<Rightarrow> length got \<le> 16 \<and> m \<le> 6)"

lemma echo_matches_6: "echo_matches got \<le> 6"
proof -
  have "echo_matches got \<le> length (zip got probe_bytes)"
    unfolding echo_matches_def by (rule length_filter_le)
  then show ?thesis by (simp add: probe_bytes_def)
qed

lemma echo_one_bytes:
  assumes "echo_one c ch x s = Some (r, t)"
  shows "rdr_bytes c (evs t) = rdr_bytes c (evs s) @ echo_bytes r \<and> echo_fits r"
proof -
  obtain sel bpr rate where x: "x = (sel, bpr, rate)" by (cases x)
  obtain ok s1 where a: "char_start c (echo_regs ch sel bpr) s = Some (ok, s1)"
    using assms by (cases "char_start c (echo_regs ch sel bpr) s") (auto simp: echo_one_def x)
  note g1 = no_rdr_char_start [OF a]
  show ?thesis
  proof (cases ok)
    case False
    with assms a g1 show ?thesis by (auto simp: echo_one_def x rdr_bytes_grows echo_bytes_def echo_fits_def)
  next
    case True
    obtain ok2 s2 where b: "prod_line 60000 c probe_bytes s1 = Some (ok2, s2)"
      using assms a True by (cases "prod_line 60000 c probe_bytes s1") (auto simp: echo_one_def x)
    have g2: "grows no_rdr s s2" using g1 no_rdr_prod_line [OF b] by (rule grows_trans)
    show ?thesis
    proof (cases ok2)
      case False
      with assms a b True g2 show ?thesis by (auto simp: echo_one_def x rdr_bytes_grows echo_bytes_def echo_fits_def)
    next
      case ok2: True
      obtain got u where l: "listen 80000 c 16 [] (mdelay 120 s2) = Some (got, u)"
        using assms a b True ok2 by (cases "listen 80000 c 16 [] (mdelay 120 s2)") (auto simp: echo_one_def x)
      have "grows no_rdr s2 (mdelay 120 s2)" by (simp add: mdelay_def grows_ev)
      with g2 have "grows no_rdr s (mdelay 120 s2)" by (rule grows_trans)
      from listen_fills [OF l fills_step [OF fills_start this]] have "fills c s 16 got u" .
      with assms a b True ok2 l echo_matches_6 show ?thesis
        by (auto simp: echo_one_def x fills_def echo_bytes_def echo_fits_def)
    qed
  qed
qed

lemma echo_all_bytes:
  "echo_all c ch xs s = Some (rs, t) \<Longrightarrow> length rs = length xs \<and> list_all echo_fits rs \<and>
     rdr_bytes c (evs t) = rdr_bytes c (evs s) @ concat (map echo_bytes rs)"
proof (induction xs arbitrary: s rs)
  case (Cons x xs)
  from Cons.prems obtain r u rs' where a: "echo_one c ch x s = Some (r, u)" "echo_all c ch xs u = Some (rs', t)"
      and rs: "rs = r # rs'"
    by (auto elim!: bind_SomeE)
  from echo_one_bytes [OF a(1)] Cons.IH [OF a(2)] show ?case by (simp add: rs)
qed simp

text \<open>C37. The tests that listen to a line never run over their buffers, whatever count the card announces.  What
  \<open>nm32a_talk\<close> holds at its end is exactly the bytes it took from the receive register, in order, and at
  most 256; \<open>nm32a_echo_match\<close> has one result for each of its ten candidates, takes at most 16 bytes for each
  and loses none of them.\<close>

theorem tests_keep_buffers:
  assumes "nm32a_talk c ch s = Some (buf, t)" and "nm32a_echo_match c ch s' = Some (rs, t')"
  shows "rdr_bytes c (evs t) = rdr_bytes c (evs s) @ buf \<and> length buf \<le> 256 \<and>
    length rs = 10 \<and> list_all echo_fits rs \<and>
    rdr_bytes c (evs t') = rdr_bytes c (evs s') @ concat (map echo_bytes rs)"
  using talk_fills [OF assms(1)] echo_all_bytes [OF assms(2) [unfolded nm32a_echo_match_def]]
  by (cases "buf = []") (simp_all add: fills_def echo_cand_def)

theorem tests_keep_buffers_witness:
  "\<exists>buf t rs t'. nm32a_talk 4 0 (kzalloc_card demo_hw default_params) = Some (buf, t) \<and>
     nm32a_echo_match 4 0 t = Some (rs, t') \<and> length buf \<le> 256 \<and> length rs = 10"
proof -
  let ?s = "kzalloc_card demo_hw default_params"
  obtain buf t where t: "nm32a_talk 4 0 ?s = Some (buf, t)" "hw t = demo_hw"
    using returns_talk [OF demo_responsive demo_ticks, of ?s 4 0] by (auto simp: returns_def)
  obtain rs t' where t': "nm32a_echo_match 4 0 t = Some (rs, t')"
    using returns_echo_all [OF demo_responsive demo_ticks t(2), of 4 0 echo_cand]
    unfolding returns_def nm32a_echo_match_def by fastforce
  from tests_keep_buffers [OF t(1) t'] t(1) t' show ?thesis by blast
qed

end
