(* ===== verification/Ucode.thy ===== *)
theory Ucode
  imports Nm32a_Chan
begin

text \<open>
  The CD2481 microcode: unpacking the 18-bit instructions from the blob (\<open>ucode_insn\<close>), the
  download of one chip by the driver (\<open>nm32a_download\<close>), and the same procedure in the user
  space tool \<open>tools/nm32a/ucode.c\<close>.

  The blob and its instruction count come from a generated header; they are a parameter of the
  model.
\<close>

section \<open>Unpacking\<close>

text \<open>The loop over the three bytes that can hold an instruction, as the fold it is.\<close>

definition insn_window :: "u8 list \<Rightarrow> u32 \<Rightarrow> u32" where
  "insn_window b byte =
     foldl (\<lambda>v k. if unat (byte + word_of_nat k) < length b
                  then v OR push_bit (8 * k) (ucast (b ! unat (byte + word_of_nat k)) :: u32) else v)
       0 [0, 1, 2]"

definition ucode_insn :: "u8 list \<Rightarrow> u32 \<Rightarrow> u32" where
  "ucode_insn b i =
     (let bt = i * 18; byte = drop_bit 3 bt
      in drop_bit (unat (bt AND 7)) (insn_window b byte) AND 0x3FFFF)"

text \<open>Bit \<open>n\<close> of the blob read as one little-endian bit stream; beyond the end it is 0.\<close>

definition blob_bit :: "u8 list \<Rightarrow> nat \<Rightarrow> bool" where
  "blob_bit b n \<longleftrightarrow> n div 8 < length b \<and> bit (b ! (n div 8)) (n mod 8)"

definition window_byte :: "u8 list \<Rightarrow> nat \<Rightarrow> nat \<Rightarrow> u32" where
  "window_byte b n k = (if n + k < length b then push_bit (8 * k) (ucast (b ! (n + k))) else 0)"

lemma bit_window_byte:
  assumes "k < 3"
  shows "bit (window_byte b n k) m \<longleftrightarrow> 8 * k \<le> m \<and> m < 8 * k + 8 \<and> n + k < length b \<and> bit (b ! (n + k)) (m - 8 * k)"
proof -
  have lt: "bit (x :: u8) j \<Longrightarrow> j < 8" for x j by (auto dest: bit_imp_le_length)
  then show ?thesis
    using assms by (auto simp: window_byte_def bit_push_bit_iff bit_ucast_iff dest: lt)
qed

lemma insn_window_bytes:
  assumes "unat byte + 2 < 2 ^ 32"
  shows "insn_window b byte = window_byte b (unat byte) 0 OR window_byte b (unat byte) 1 OR window_byte b (unat byte) 2"
proof -
  have u: "unat (byte + word_of_nat k) = unat byte + k" if "k \<le> 2" for k
    using assms that by (simp add: unat_word_ariths unat_of_nat)
  note u1 = u [of 1, simplified] and u2 = u [of 2, simplified]
  show ?thesis
    by (simp add: insn_window_def window_byte_def u1 u2 or.assoc)
qed

lemma bit_window:
  assumes "unat byte + 2 < 2 ^ 32"
  shows "bit (insn_window b byte) m \<longleftrightarrow> m < 24 \<and> blob_bit b (8 * unat byte + m)"
proof -
  let ?n = "unat byte"
  have e: "bit (insn_window b byte) m \<longleftrightarrow> (\<exists>k < 3. bit (window_byte b ?n k) m)"
    by (auto simp: insn_window_bytes [OF assms] bit_or_iff less_Suc_eq numeral_3_eq_3 numeral_2_eq_2)
  have k: "(8 * ?n + m) div 8 = ?n + m div 8" "(8 * ?n + m) mod 8 = m mod 8" by simp_all
  have eq: "8 * k \<le> m \<and> m < 8 * k + 8 \<longleftrightarrow> k = m div 8" for k by auto
  have "(\<exists>k < 3. bit (window_byte b ?n k) m) \<longleftrightarrow>
      (\<exists>k < 3. k = m div 8 \<and> ?n + k < length b \<and> bit (b ! (?n + k)) (m - 8 * k))"
    by (metis (no_types, lifting) bit_window_byte eq)
  also have "\<dots> \<longleftrightarrow> m div 8 < 3 \<and> ?n + m div 8 < length b \<and> bit (b ! (?n + m div 8)) (m mod 8)"
    by (auto simp: minus_mult_div_eq_mod)
  also have "\<dots> \<longleftrightarrow> m < 24 \<and> blob_bit b (8 * ?n + m)"
    by (auto simp: blob_bit_def k)
  finally show ?thesis using e by simp
qed

text \<open>
  Instruction \<open>i\<close> is bits \<open>18 i .. 18 i + 17\<close> of the stream.  The three-byte window is wide
  enough because \<open>18 i\<close> is even: the first bit is at most bit 6 of its byte.
\<close>

lemma insn_bits:
  assumes "unat i * 18 + 24 < 2 ^ 32"
  shows "bit (ucode_insn b i) j \<longleftrightarrow> j < 18 \<and> blob_bit b (unat i * 18 + j)"
proof -
  let ?bt = "unat i * 18"
  have bt: "unat (i * 18) = ?bt"
    using assms by (simp add: unat_word_ariths)
  have byte: "unat (drop_bit 3 (i * 18)) = ?bt div 8"
    by (simp only: unat_drop_bit_eq bt) (simp only: drop_bit_eq_div power3_eq_cube, simp)
  have "i * 18 AND 7 = take_bit 3 (i * 18)"
    by (simp add: take_bit_eq_mask mask_eq_exp_minus_1)
  then have low: "unat (i * 18 AND 7) = ?bt mod 8"
    by (simp add: take_bit_eq_mod unat_mod_distrib bt)
  have mask: "bit (0x3FFFF :: u32) j \<longleftrightarrow> j < 18"
  proof -
    have "(0x3FFFF :: u32) = mask 18" by (simp add: mask_eq_exp_minus_1)
    then show ?thesis by (simp only: bit_mask_iff) auto
  qed
  have "even ?bt" by simp
  then have six: "?bt mod 8 \<le> 6" by presburger
  have "unat (drop_bit 3 (i * 18)) + 2 < 2 ^ 32" using assms byte by simp
  then have "bit (ucode_insn b i) j \<longleftrightarrow>
      (j < 18 \<and> ?bt mod 8 + j < 24 \<and> blob_bit b (8 * (?bt div 8) + (?bt mod 8 + j)))"
    unfolding ucode_insn_def Let_def bit_and_iff mask bit_drop_bit_eq comp_apply low
    by (simp only: bit_window byte conj_commute)
  also have "8 * (?bt div 8) + (?bt mod 8 + j) = ?bt + j"
    by (metis add.assoc mult_div_mod_eq)
  finally show ?thesis using six by auto
qed

section \<open>Packing, as the reference\<close>

text \<open>A stream of 18-bit instructions as bits, and bits as bytes, least significant first.\<close>

definition insn_stream :: "u32 list \<Rightarrow> bool list" where
  "insn_stream ws = concat (map (\<lambda>w. map (bit w) [0..<18]) ws)"

definition packs :: "u32 list \<Rightarrow> u8 list \<Rightarrow> bool" where
  "packs ws b \<longleftrightarrow> 18 * length ws \<le> 8 * length b \<and>
     (\<forall>n < 18 * length ws. blob_bit b n = insn_stream ws ! n)"

text \<open>A packer: the bytes of the stream, the last one filled with zeros.\<close>

definition pack_byte :: "bool list \<Rightarrow> nat \<Rightarrow> u8" where
  "pack_byte bs k = horner_sum of_bool 2 (map (\<lambda>j. 8 * k + j < length bs \<and> bs ! (8 * k + j)) [0..<8])"

definition pack :: "u32 list \<Rightarrow> u8 list" where
  "pack ws = (let bs = insn_stream ws in map (pack_byte bs) [0..<(length bs + 7) div 8])"

lemma length_insn_stream [simp]: "length (insn_stream ws) = 18 * length ws"
  by (induction ws) (simp_all add: insn_stream_def)

lemma insn_stream_nth:
  "i < length ws \<Longrightarrow> j < 18 \<Longrightarrow> insn_stream ws ! (18 * i + j) = bit (ws ! i) j"
proof (induction ws arbitrary: i)
  case (Cons w ws)
  have c: "insn_stream (w # ws) = map (bit w) [0..<18] @ insn_stream ws"
    by (simp add: insn_stream_def)
  show ?case
  proof (cases i)
    case 0
    with Cons.prems show ?thesis by (simp add: c nth_append)
  next
    case (Suc k)
    with Cons show ?thesis by (simp add: c nth_append)
  qed
qed simp

lemma bit_pack_byte: "j < 8 \<Longrightarrow> bit (pack_byte bs k) j \<longleftrightarrow> 8 * k + j < length bs \<and> bs ! (8 * k + j)"
  unfolding pack_byte_def by (subst bit_horner_sum_bit_word_iff) (simp del: upt_rec_numeral)

lemma packs_pack: "packs ws (pack ws)"
  unfolding packs_def
proof (intro conjI allI impI)
  let ?bs = "insn_stream ws"
  have len: "length (pack ws) = (18 * length ws + 7) div 8" by (simp add: pack_def Let_def)
  then show "18 * length ws \<le> 8 * length (pack ws)" by linarith
  fix n
  assume n: "n < 18 * length ws"
  then have k: "n div 8 < length (pack ws)" unfolding len by linarith
  then have "pack ws ! (n div 8) = pack_byte ?bs (n div 8)" by (simp add: pack_def Let_def)
  with n k show "blob_bit (pack ws) n = ?bs ! n" by (simp add: blob_bit_def bit_pack_byte)
qed

lemma insn_packed:
  assumes "packs ws b" and "i < length ws" and "length ws \<le> 8192"
  shows "ucode_insn b (word_of_nat i) = ws ! i AND 0x3FFFF"
proof (rule bit_word_eqI)
  fix j
  assume "j < LENGTH(32)"
  have u: "unat (word_of_nat i :: u32) = i" using assms by (simp add: unat_of_nat)
  have "(0x3FFFF :: u32) = mask 18" by (simp add: mask_eq_exp_minus_1)
  then have m: "bit (0x3FFFF :: u32) j \<longleftrightarrow> j < 18" by (simp only: bit_mask_iff) auto
  have "bit (ucode_insn b (word_of_nat i)) j \<longleftrightarrow> j < 18 \<and> blob_bit b (i * 18 + j)"
    using insn_bits [of "word_of_nat i" b j] assms(2,3) by (simp add: u)
  also have "\<dots> \<longleftrightarrow> j < 18 \<and> bit (ws ! i) j"
  proof (cases "j < 18")
    case True
    then have lt: "18 * i + j < 18 * length ws" using assms(2) by linarith
    have "blob_bit b (18 * i + j) = insn_stream ws ! (18 * i + j)"
      using assms(1) lt unfolding packs_def by blast
    then show ?thesis using insn_stream_nth [OF assms(2) True] by (simp add: mult.commute)
  qed simp
  finally show "bit (ucode_insn b (word_of_nat i)) j = bit (ws ! i AND 0x3FFFF) j"
    unfolding bit_and_iff m by blast
qed

section \<open>Downloading one chip\<close>

text \<open>Park the MPU on "jump 0x3fff" and enter data-write mode; leave it running from the store.\<close>

definition dl_setup_regs :: "(nat \<times> u8) list" where
  "dl_setup_regs = [(AIRL, 0xff), (AIRM, 0x3f), (AIRH, 0x03), (MTCR, 0x01), (BTCR, 0x01), (MTCR, 0x02)]"

definition insn_regs :: "u32 \<Rightarrow> (nat \<times> u8) list" where
  "insn_regs insn = [(AIRL, ucast (insn AND 0xff)), (AIRM, ucast (drop_bit 8 insn AND 0xff)),
     (AIRH, ucast (drop_bit 16 insn AND 0x03)), (BTCR, 0x03)]"

definition dl_start_regs :: "(nat \<times> u8) list" where
  "dl_start_regs = [(AIRL, 0xff), (AIRM, 0x3f), (AIRH, 0x03), (MTCR, 0x01), (BTCR, 0x03), (BTCR, 0x03),
     (MTCR, 0x03), (BTCR, 0x00)]"

text \<open>The wait for the firmware revision: at most \<open>n\<close> reads of GFRCR; the last value read.\<close>

fun gfrcr_poll :: "nat \<Rightarrow> nat \<Rightarrow> u8 \<Rightarrow> nm32a \<Rightarrow> (u8 \<times> nm32a) option" where
  "gfrcr_poll 0 c after s = Some (after, s)"
| "gfrcr_poll (Suc n) c after s = do {
     (after, s) \<leftarrow> crd c GFRCR s;
     if after \<noteq> 0 \<and> after \<noteq> 0xff then Some (after, s) else gfrcr_poll n c after s
   }"

definition GFRCR_TRIES :: nat where "GFRCR_TRIES = 200000"

definition nm32a_download :: "u8 list \<Rightarrow> nat \<Rightarrow> nat \<Rightarrow> nm32a \<Rightarrow> (int \<times> nm32a) option" where
  "nm32a_download b insns c s = do {
     (before, s) \<leftarrow> crd c GFRCR s;
     let s = cwrs c dl_setup_regs s;
     let s = foldl (\<lambda>s i. cwrs c (insn_regs (ucode_insn b (word_of_nat i))) s) s [0..<insns];
     let s = cwrs c dl_start_regs s;
     (n, s) \<leftarrow> ccr_wait c (cwr c CCR CCR_RSTALL s);
     (after, s) \<leftarrow> gfrcr_poll GFRCR_TRIES c 0 s;
     Some (if n \<noteq> 0 \<or> after = 0 \<or> after = 0xff then - EIO else 0, s)
   }"

text \<open>\<open>nm32a_probe\<close>: every chip in turn, whatever the result, then the ttys.\<close>

fun download_all :: "u8 list \<Rightarrow> nat \<Rightarrow> nat list \<Rightarrow> nm32a \<Rightarrow> nm32a option" where
  "download_all b insns [] s = Some s"
| "download_all b insns (c # cs) s = do {
     (_, s) \<leftarrow> nm32a_download b insns c s;
     download_all b insns cs s
   }"

section \<open>What the store receives\<close>

text \<open>
  The download side of the chip, as the datasheet procedure in the code describes it: a single step
  (\<open>BTCR = 3\<close>) in data-write mode (\<open>MTCR = 2\<close>) stores the auxiliary instruction.
\<close>

fun last_wr :: "nat \<Rightarrow> nat \<Rightarrow> cev list \<Rightarrow> u8 option" where
  "last_wr c r [] = None"
| "last_wr c r (WrB (Reg c' r') v # h) = (if c' = c \<and> r' = r then Some v else last_wr c r h)"
| "last_wr c r (_ # h) = last_wr c r h"

definition air_part :: "nat \<Rightarrow> nat \<Rightarrow> cev list \<Rightarrow> u32" where
  "air_part c r h = (case last_wr c r h of Some v \<Rightarrow> ucast v | None \<Rightarrow> 0)"

definition air :: "nat \<Rightarrow> cev list \<Rightarrow> u32" where
  "air c h = push_bit 16 (air_part c AIRH h) OR push_bit 8 (air_part c AIRM h) OR air_part c AIRL h"

fun stored :: "nat \<Rightarrow> cev list \<Rightarrow> u32 list" where
  "stored c [] = []"
| "stored c (WrB (Reg c' r) v # h) =
     (if c' = c \<and> r = BTCR \<and> v = 0x03 \<and> last_wr c MTCR h = Some 0x02 then stored c h @ [air c h]
      else stored c h)"
| "stored c (_ # h) = stored c h"

lemma bit_air_byte:
  assumes "n \<le> 8"
  shows "bit (ucast (ucast (drop_bit k w AND mask n :: u32) :: u8) :: u32) m \<longleftrightarrow> m < n \<and> bit w (k + m)"
  using assms by (auto simp: bit_ucast_iff bit_and_iff bit_mask_iff bit_drop_bit_eq dest: bit_imp_le_length)

lemma air_parts:
  assumes "w AND 0x3FFFF = (w :: u32)"
  shows "push_bit 16 (ucast (ucast (drop_bit 16 w AND 0x03) :: u8)) OR
    push_bit 8 (ucast (ucast (drop_bit 8 w AND 0xff) :: u8)) OR ucast (ucast (w AND 0xff) :: u8) = w"
    (is "?l = w")
proof (rule bit_word_eqI)
  fix j
  assume j: "j < LENGTH(32)"
  have m: "(0x3FFFF :: u32) = mask 18" "(0xff :: u32) = mask 8" "(0x03 :: u32) = mask 2"
    by (simp_all add: mask_eq_exp_minus_1)
  have hi: "bit w j \<Longrightarrow> j < 18"
    using assms m(1) by (metis bit_and_iff bit_mask_iff)
  have "bit ?l j \<longleftrightarrow> (16 \<le> j \<and> j - 16 < 2 \<and> bit w (16 + (j - 16))) \<or>
      (8 \<le> j \<and> j - 8 < 8 \<and> bit w (8 + (j - 8))) \<or> (j < 8 \<and> bit w j)"
    using j bit_air_byte [of 2 16 w "j - 16"] bit_air_byte [of 8 8 w "j - 8"] bit_air_byte [of 8 0 w j]
    unfolding m(2,3) bit_or_iff bit_push_bit_iff drop_bit_0 id_apply by simp
  with hi show "bit ?l j = bit w j" by auto
qed

lemma ucode_insn_18: "ucode_insn b i AND 0x3FFFF = ucode_insn b i"
  by (simp add: ucode_insn_def Let_def and.assoc)

lemma store_insn:
  assumes "last_wr c MTCR (evs s) = Some 0x02" and "w AND 0x3FFFF = w"
  shows "stored c (evs (cwrs c (insn_regs w) s)) = stored c (evs s) @ [w]"
    and "last_wr c MTCR (evs (cwrs c (insn_regs w) s)) = Some 0x02"
  using assms air_parts [OF assms(2)] by (simp_all add: insn_regs_def cwrs_def air_def air_part_def)

lemma store_insns:
  assumes "last_wr c MTCR (evs s) = Some 0x02"
  shows "stored c (evs (foldl (\<lambda>s i. cwrs c (insn_regs (ucode_insn b (word_of_nat i))) s) s ns)) =
      stored c (evs s) @ map (\<lambda>i. ucode_insn b (word_of_nat i)) ns \<and>
    last_wr c MTCR (evs (foldl (\<lambda>s i. cwrs c (insn_regs (ucode_insn b (word_of_nat i))) s) s ns)) = Some 0x02"
  using assms
proof (induction ns arbitrary: s)
  case (Cons n ns)
  let ?s = "cwrs c (insn_regs (ucode_insn b (word_of_nat n))) s"
  note S = store_insn [OF Cons.prems ucode_insn_18 [of b "word_of_nat n"]]
  from Cons.IH [OF S(2)] S(1) show ?case by simp
qed simp

lemma store_reads:
  assumes "list_all (plain_read c') pre"
  shows "stored c (pre @ h) = stored c h" and "last_wr c r (pre @ h) = last_wr c r h"
proof -
  show "stored c (pre @ h) = stored c h"
    using assms by (induction pre) (auto elim!: plain_read.elims)
  show "last_wr c r (pre @ h) = last_wr c r h"
    using assms by (induction pre) (auto elim!: plain_read.elims)
qed

lemma store_grows:
  assumes "grows (plain_read c') s s'"
  shows "stored c (evs s') = stored c (evs s)" and "last_wr c r (evs s') = last_wr c r (evs s)"
  using assms by (auto elim!: growsE simp: store_reads)

lemma store_other_chip:
  assumes "list_all (of_chip c) pre" and "c' \<noteq> c"
  shows "stored c' (pre @ h) = stored c' h \<and> last_wr c' r (pre @ h) = last_wr c' r h"
  using assms
proof (induction pre)
  case (Cons e pre)
  then show ?case by (cases "(c, e)" rule: of_chip.cases) auto
qed simp

lemma gfrcr_poll_Some:
  assumes "gfrcr_poll n c a s = Some (v, s')"
  shows "grows (plain_read c) s s'" and
    "v \<noteq> 0 \<and> v \<noteq> 0xff \<longrightarrow> (v = a \<and> n = 0) \<or> (\<exists>h. evs s' = RdB (Reg c GFRCR) v # h)"
proof -
  have "grows (plain_read c) s s' \<and>
    (v \<noteq> 0 \<and> v \<noteq> 0xff \<longrightarrow> (v = a \<and> n = 0) \<or> (\<exists>h. evs s' = RdB (Reg c GFRCR) v # h))"
    using assms
  proof (induction n arbitrary: a s)
    case (Suc n)
    then obtain x s1 where r: "crd c GFRCR s = Some (x, s1)"
      and k: "(if x \<noteq> 0 \<and> x \<noteq> 0xff then Some (x, s1) else gfrcr_poll n c x s1) = Some (v, s')"
      by (auto elim!: bind_SomeE)
    have g: "grows (plain_read c) s s1" using r by (rule grows_crd) simp
    show ?case
    proof (cases "x \<noteq> 0 \<and> x \<noteq> 0xff")
      case True
      with k r g show ?thesis by (auto simp: crd_Some)
    next
      case False
      with k have "gfrcr_poll n c x s1 = Some (v, s')" by auto
      from Suc.IH [OF this] g False show ?thesis by (auto intro: grows_trans)
    qed
  qed simp
  then show "grows (plain_read c) s s'" and
    "v \<noteq> 0 \<and> v \<noteq> 0xff \<longrightarrow> (v = a \<and> n = 0) \<or> (\<exists>h. evs s' = RdB (Reg c GFRCR) v # h)" by blast+
qed

lemma gfrcr_poll_returns:
  "responsive (hw s) \<Longrightarrow> \<exists>v s'. gfrcr_poll n c a s = Some (v, s')"
proof (induction n arbitrary: a s)
  case (Suc n)
  from crd_responsive [OF Suc.prems] obtain v
    where r: "crd c GFRCR s = Some (v, ev (RdB (Reg c GFRCR) v) s)" by blast
  with Suc.IH [of "ev (RdB (Reg c GFRCR) v) s" v] Suc.prems show ?case by simp
qed simp

lemma grows_foldl_cwrs:
  "(\<And>i. list_all (\<lambda>(r, v). P (WrB (Reg c r) v)) (f i)) \<Longrightarrow> grows P s (foldl (\<lambda>s i. cwrs c (f i) s) s ns)"
proof (induction ns arbitrary: s)
  case (Cons n ns)
  have "grows P s (cwrs c (f n) s)" using Cons.prems by (rule grows_cwrs)
  also have "grows P (cwrs c (f n) s) (foldl (\<lambda>s i. cwrs c (f i) s) (cwrs c (f n) s) ns)"
    using Cons by blast
  finally show ?case by simp
qed simp

text \<open>The steps of a download, named.\<close>

lemma download_steps:
  assumes "nm32a_download b insns c s = Some (r, s')"
  obtains v0 s0 s1 s2 s3 n s4 v where
    "crd c GFRCR s = Some (v0, s0)" and "s1 = cwrs c dl_setup_regs s0"
    and "s2 = foldl (\<lambda>s i. cwrs c (insn_regs (ucode_insn b (word_of_nat i))) s) s1 [0..<insns]"
    and "s3 = cwrs c (dl_start_regs @ [(CCR, CCR_RSTALL)]) s2"
    and "ccr_wait c s3 = Some (n, s4)" and "gfrcr_poll GFRCR_TRIES c 0 s4 = Some (v, s')"
    and "r = (if n \<noteq> 0 \<or> v = 0 \<or> v = 0xff then - EIO else 0)"
  using assms by (auto simp: nm32a_download_def Let_def cwrs_append elim!: bind_SomeE)

lemma download_stored:
  assumes "nm32a_download b insns c s = Some (r, s')"
  shows "stored c (evs s') = stored c (evs s) @ map (\<lambda>i. ucode_insn b (word_of_nat i)) [0..<insns] \<and>
    last_wr c MTCR (evs s') = Some 0x03 \<and> last_wr c BTCR (evs s') = Some 0x00 \<and>
    (r = 0 \<or> r = - EIO) \<and>
    (r = 0 \<longrightarrow> (\<exists>v h. evs s' = RdB (Reg c GFRCR) v # h \<and> v \<noteq> 0 \<and> v \<noteq> 0xff)) \<and>
    grows (of_chip c) s s'"
proof -
  obtain v0 s0 s1 s2 s3 n s4 v where
      r0: "crd c GFRCR s = Some (v0, s0)" and s1: "s1 = cwrs c dl_setup_regs s0"
    and s2: "s2 = foldl (\<lambda>s i. cwrs c (insn_regs (ucode_insn b (word_of_nat i))) s) s1 [0..<insns]"
    and s3: "s3 = cwrs c (dl_start_regs @ [(CCR, CCR_RSTALL)]) s2"
    and r4: "ccr_wait c s3 = Some (n, s4)" and r5: "gfrcr_poll GFRCR_TRIES c 0 s4 = Some (v, s')"
    and r: "r = (if n \<noteq> 0 \<or> v = 0 \<or> v = 0xff then - EIO else 0)"
    using assms by (rule download_steps)
  have e0: "evs s0 = RdB (Reg c GFRCR) v0 # evs s" using r0 by (simp add: crd_Some)
  have st1: "stored c (evs s1) = stored c (evs s)" "last_wr c MTCR (evs s1) = Some 0x02"
    by (simp_all add: s1 dl_setup_regs_def cwrs_def e0)
  note S2 = store_insns [OF st1(2), of b "[0..<insns]", folded s2]
  have st3: "stored c (evs s3) = stored c (evs s2)" "last_wr c MTCR (evs s3) = Some 0x03"
      "last_wr c BTCR (evs s3) = Some 0x00"
    by (simp_all add: s3 dl_start_regs_def cwrs_def)
  note G4 = ccr_wait_Some(1) [OF r4] and G5 = gfrcr_poll_Some [OF r5]
  note st5 = store_grows [OF G4] store_grows [OF G5(1)]
  have oc: "plain_read c e \<Longrightarrow> of_chip c e" for e by (induction c e rule: plain_read.induct) auto
  have "grows (of_chip c) s s0" using r0 by (rule grows_crd) simp
  also have "grows (of_chip c) s0 s1" unfolding s1 by (rule grows_cwrs) (simp add: dl_setup_regs_def)
  also have "grows (of_chip c) s1 s2"
    unfolding s2 by (rule grows_foldl_cwrs) (simp add: insn_regs_def)
  also have "grows (of_chip c) s2 s3" unfolding s3 by (rule grows_cwrs) (simp add: dl_start_regs_def)
  also have "grows (of_chip c) s3 s4" by (rule grows_mono [OF G4 oc])
  also have "grows (of_chip c) s4 s'" by (rule grows_mono [OF G5(1) oc])
  finally have g: "grows (of_chip c) s s'" .
  have "r = 0 \<longrightarrow> (\<exists>v h. evs s' = RdB (Reg c GFRCR) v # h \<and> v \<noteq> 0 \<and> v \<noteq> 0xff)"
    using G5(2) r by (auto simp: GFRCR_TRIES_def split: if_splits)
  then show ?thesis using g r st1 S2 st3 st5 by simp
qed

lemma download_all_stored:
  assumes "download_all b insns cs s = Some s'" and "distinct cs"
  shows "(\<forall>c \<in> set cs. stored c (evs s') =
      stored c (evs s) @ map (\<lambda>i. ucode_insn b (word_of_nat i)) [0..<insns] \<and>
      last_wr c MTCR (evs s') = Some 0x03 \<and> last_wr c BTCR (evs s') = Some 0x00) \<and>
    (\<forall>c. c \<notin> set cs \<longrightarrow> stored c (evs s') = stored c (evs s) \<and> last_wr c MTCR (evs s') = last_wr c MTCR (evs s) \<and>
      last_wr c BTCR (evs s') = last_wr c BTCR (evs s))"
  using assms
proof (induction cs arbitrary: s)
  case (Cons c cs)
  then obtain r t where r: "nm32a_download b insns c s = Some (r, t)" and k: "download_all b insns cs t = Some s'"
    by (auto elim!: bind_SomeE)
  note D = download_stored [OF r]
  have D1: "stored c (evs t) = stored c (evs s) @ map (\<lambda>i. ucode_insn b (word_of_nat i)) [0..<insns]"
      "last_wr c MTCR (evs t) = Some 0x03" "last_wr c BTCR (evs t) = Some 0x00"
    using D by blast+
  have oth: "stored c' (evs t) = stored c' (evs s) \<and> last_wr c' q (evs t) = last_wr c' q (evs s)"
    if "c' \<noteq> c" for c' q
    using D that store_other_chip by (auto elim!: growsE)
  have d: "distinct cs" "c \<notin> set cs" using Cons.prems(2) by simp_all
  note IH = Cons.IH [OF k d(1)]
  have "stored c (evs s') = stored c (evs t)" "last_wr c MTCR (evs s') = last_wr c MTCR (evs t)"
      "last_wr c BTCR (evs s') = last_wr c BTCR (evs t)"
    using IH d(2) by blast+
  moreover have "\<forall>c' \<in> set cs. c' \<noteq> c" using d(2) by blast
  ultimately show ?case using IH D1 oth by simp
qed simp

section \<open>Properties of the microcode\<close>

text \<open>Instruction i of the blob is bits 18 i to 18 i + 17 of its little-endian bit stream, with
  zeros past its end: the three bytes the code looks at always contain the whole instruction, and
  nothing of its neighbours leaks in.  It holds for every index whose bit offset fits 32 bits.\<close>

lemma ucode_insn_bits:
  assumes "unat i * 18 + 24 < 2 ^ 32"
  shows "bit (ucode_insn b i) j \<longleftrightarrow> j < 18 \<and> blob_bit b (unat i * 18 + j)"
  using assms by (rule insn_bits)

text \<open>Unpacking inverts packing: from the blob that packs a list of at most 8192 instruction
  words, the code reads back instruction i as the low 18 bits of word i.\<close>

theorem ucode_insn_unpacks:
  assumes "length ws \<le> 8192" and "i < length ws"
  shows "ucode_insn (pack ws) (word_of_nat i) = ws ! i AND 0x3FFFF"
  using insn_packed [OF packs_pack assms(2,1)] .

theorem ucode_insn_unpacks_witness: "ucode_insn (pack [0x1E000, 0x3FFFF]) 1 = 0x3FFFF"
  using ucode_insn_unpacks [of "[0x1E000, 0x3FFFF]" 1] by simp

text \<open>C17. Downloading the blob that packs the instructions ws leaves the chip's store with exactly
  the low 18 bits of ws, in order and nothing else, the MPU switched to execute from the store with
  its clock on; only that chip is accessed; the result is 0 or -EIO, and 0 only if the last thing
  read was a firmware revision that is neither 0x00 nor 0xff.\<close>

theorem download_fills_store:
  assumes "nm32a_download (pack ws) (length ws) c s = Some (r, s')" and "length ws \<le> 8192"
  shows "stored c (evs s') = stored c (evs s) @ map (\<lambda>w. w AND 0x3FFFF) ws \<and>
    last_wr c MTCR (evs s') = Some 0x03 \<and> last_wr c BTCR (evs s') = Some 0x00 \<and>
    (r = 0 \<or> r = - EIO) \<and>
    (r = 0 \<longrightarrow> (\<exists>v h. evs s' = RdB (Reg c GFRCR) v # h \<and> v \<noteq> 0 \<and> v \<noteq> 0xff)) \<and>
    grows (of_chip c) s s'"
proof -
  have "map (\<lambda>i. ucode_insn (pack ws) (word_of_nat i)) [0..<length ws] = map (\<lambda>w. w AND 0x3FFFF) ws"
    using insn_packed [OF packs_pack _ assms(2)] by (intro nth_equalityI) simp_all
  with download_stored [OF assms(1)] show ?thesis by simp
qed

text \<open>A card on which every register reads 0.\<close>

definition idle_hw :: hwenv where
  "idle_hw = demo_hw\<lparr>dev := (\<lambda>h a. Some 0)\<rparr>"

lemma idle_crd: "hw s = idle_hw \<Longrightarrow> crd c r s = Some (0, ev (RdB (Reg c r) 0) s)"
  by (simp add: crd_def rdb_def idle_hw_def)

lemma idle_ccr_wait: "hw s = idle_hw \<Longrightarrow> ccr_wait c s = Some (0, ev (RdB (Reg c CCR) 0) s)"
  by (simp add: ccr_wait_def ccr_poll.simps idle_crd)

lemma idle_gfrcr: "hw s = idle_hw \<Longrightarrow> \<exists>s'. gfrcr_poll n c 0 s = Some (0, s') \<and> hw s' = idle_hw"
  by (induction n arbitrary: s) (simp_all add: idle_crd)

lemma hw_foldl_cwrs: "hw (foldl (\<lambda>s i. cwrs c (f i) s) s ns) = hw s"
  by (induction ns arbitrary: s) simp_all

lemma idle_download:
  assumes "hw s = idle_hw"
  shows "\<exists>s'. nm32a_download b n c s = Some (- EIO, s') \<and> hw s' = idle_hw"
proof -
  let ?s0 = "ev (RdB (Reg c GFRCR) 0) s"
  let ?s3 = "cwr c CCR CCR_RSTALL (cwrs c dl_start_regs (foldl (\<lambda>s i. cwrs c (insn_regs (ucode_insn b (word_of_nat i))) s)
      (cwrs c dl_setup_regs ?s0) [0..<n]))"
  have h: "hw ?s3 = idle_hw" using assms by (simp add: hw_foldl_cwrs)
  obtain s' where "gfrcr_poll GFRCR_TRIES c 0 (ev (RdB (Reg c CCR) 0) ?s3) = Some (0, s')" "hw s' = idle_hw"
    using idle_gfrcr [of "ev (RdB (Reg c CCR) 0) ?s3"] h by auto
  with idle_ccr_wait [OF h, of c] show ?thesis
    using assms by (simp add: nm32a_download_def Let_def idle_crd)
qed

lemma idle_download_all: "hw s = idle_hw \<Longrightarrow> \<exists>s'. download_all b n cs s = Some s'"
proof (induction cs arbitrary: s)
  case (Cons c cs)
  from idle_download [OF Cons.prems] obtain t where "nm32a_download b n c s = Some (- EIO, t)" "hw t = idle_hw"
    by blast
  with Cons.IH [of t] show ?case by simp
qed simp

theorem download_fills_store_witness:
  "\<exists>s'. nm32a_download (pack [0x1E000, 0x12345]) 2 0 (kzalloc_card idle_hw default_params) = Some (- EIO, s') \<and>
     stored 0 (evs s') = [0x1E000, 0x12345]"
proof -
  obtain s' where r: "nm32a_download (pack [0x1E000, 0x12345]) (length [0x1E000, 0x12345 :: u32]) 0
      (kzalloc_card idle_hw default_params) = Some (- EIO, s')"
    using idle_download [OF demo_fields(1)] by blast
  from download_fills_store [OF r] r show ?thesis by (simp add: numeral_2_eq_2)
qed

text \<open>Probe downloads every chip whatever the others answered: afterwards each of the eight
  stores holds the whole instruction sequence once and runs from it, and a chip that is not in the
  list is untouched.\<close>

theorem probe_downloads_every_chip:
  assumes "download_all b insns [0..<NM32A_CHIPS] s = Some s'" and "c < NM32A_CHIPS"
  shows "stored c (evs s') = stored c (evs s) @ map (\<lambda>i. ucode_insn b (word_of_nat i)) [0..<insns] \<and>
    last_wr c MTCR (evs s') = Some 0x03 \<and> last_wr c BTCR (evs s') = Some 0x00"
  using download_all_stored [OF assms(1)] assms(2) by simp

theorem probe_downloads_every_chip_witness:
  "\<exists>s'. download_all (pack [0x1E000]) 1 [0..<8] (kzalloc_card idle_hw default_params) = Some s' \<and>
     stored 7 (evs s') = [ucode_insn (pack [0x1E000]) 0]"
proof -
  obtain s' where r: "download_all (pack [0x1E000]) 1 [0..<8] (kzalloc_card idle_hw default_params) = Some s'"
    using idle_download_all [OF demo_fields(1)] by blast
  from probe_downloads_every_chip [OF r, of 7] r show ?thesis by simp
qed

end
