(* ===== verification/Nm32a_Selftest.thy ===== *)
theory Nm32a_Selftest
  imports Nm32a_Rates Ucode
begin

text \<open>
  The two module parameters of \<open>nm32a.c\<close> that start tests: \<open>selftest\<close> (\<open>nm32a_set_selftest\<close>), which
  dispatches on a number, and \<open>sendbreak\<close> (\<open>sendbreak_set\<close>), which queues a break and watches the line.
  The kernel's number parsers are arguments.  What the rest of the driver does while the break test
  sleeps is an argument too, applied between its steps.
\<close>

section \<open>The self-test\<close>

definition selftest_run :: "labenv \<Rightarrow> u8 list \<Rightarrow> nat \<Rightarrow> int \<Rightarrow> nm32a \<Rightarrow> nm32a option" where
  "selftest_run E blob insns n s =
     (if n = 0 then nm32a_dump s
      else if n = 20 then map_option snd (nm32a_measure_baud E 4 0 s)
      else if n = 19 then map_option snd (nm32a_echo_match 4 0 s)
      else if n = 18 then map_option snd (nm32a_baud_sweep 4 0 s)
      else if n = 17 then map_option snd (nm32a_talk 4 0 s)
      else if n = 15 \<or> n = 16 then map_option snd (nm32a_tx_line (if n = 16 then 4 else 0) 0 s)
      else if n = 13 \<or> n = 14 then nm32a_acked_tx 0 (n = 13) s
      else if n = 11 \<or> n = 12 then map_option snd (nm32a_hunt_ack (n = 12) s)
      else if n = 9 \<or> n = 10 then nm32a_char_tx 0 (n = 9) s
      else if n = 7 \<or> n = 8 then nm32a_io_probe E (n = 8) s
      else if n = 6 then nm32a_find_iack E s
      else if n = 1 then download_all blob insns [0..<NM32A_CHIPS] s
      else map_option snd (nm32a_stage E 0 0 (n - 1) s))"

text \<open>\<open>kstrtoint\<close> yields an error or a number; \<open>nm32a_dev\<close> is NULL before probe.\<close>

definition nm32a_set_selftest ::
    "(string \<Rightarrow> int + int) \<Rightarrow> labenv \<Rightarrow> u8 list \<Rightarrow> nat \<Rightarrow> string \<Rightarrow> nm32a option \<Rightarrow> (int \<times> nm32a option) option" where
  "nm32a_set_selftest kstrtoint E blob insns val d =
     (case kstrtoint val of
        Inl rc \<Rightarrow> Some (rc, d)
      | Inr n \<Rightarrow>
          (case d of
             None \<Rightarrow> Some (- ENODEV, None)
           | Some s \<Rightarrow> do { s \<leftarrow> selftest_run E blob insns n s; Some (0, Some s) }))"

section \<open>The break test\<close>

definition sb_put :: "u8 \<Rightarrow> nport \<Rightarrow> nport" where
  "sb_put cmd np = (if nm32a_tx_space np \<ge> 2 then nm32a_tx_put (nm32a_tx_put np 0x00) cmd else np)"

definition sb_begin :: "nat \<Rightarrow> nm32a \<Rightarrow> bool \<times> nm32a" where
  "sb_begin i s = (let np = port i s in (popen np, set_port i (sb_put 0x81 (np\<lparr>popen := True\<rparr>)) s))"

text \<open>One sample of the transmit pin, with the delay after it.\<close>

definition sb_sample :: "nat \<Rightarrow> nat \<Rightarrow> nm32a \<Rightarrow> (bool \<times> nm32a) option" where
  "sb_sample c ch s = do {
     let s = cwr c CAR (word_of_nat ch) (mutex_lock s);
     (v, s) \<leftarrow> crd c RCOR s;
     Some (v AND 0x80 = 0, ev (Udelay 200) (mutex_unlock s))
   }"

fun sb_samples :: "(nat \<Rightarrow> nm32a \<Rightarrow> nm32a option) \<Rightarrow> nat \<Rightarrow> nat \<Rightarrow> nat \<Rightarrow> nm32a \<Rightarrow> (nat \<times> nm32a) option" where
  "sb_samples others 0 c ch s = Some (0, s)"
| "sb_samples others (Suc n) c ch s = do {
     (low, s) \<leftarrow> sb_sample c ch s;
     s \<leftarrow> others n s;
     (k, s) \<leftarrow> sb_samples others n c ch s;
     Some (if low then Suc k else k, s)
   }"

definition sb_run :: "(nat \<Rightarrow> nm32a \<Rightarrow> nm32a option) \<Rightarrow> nat \<Rightarrow> nm32a \<Rightarrow> (nat \<times> nm32a) option" where
  "sb_run others i s = do {
     let (was_open, s) = sb_begin i s;
     (low, s) \<leftarrow> sb_samples others 400 (i div 4) (i mod 4) s;
     let s = set_port i (sb_put 0x83 (port i s)) s;
     s \<leftarrow> others 400 (ev (Msleep 50) s);
     Some (low, set_port i ((port i s)\<lparr>popen := was_open\<rparr>) s)
   }"

definition sendbreak_set ::
    "(string \<Rightarrow> nat option) \<Rightarrow> (nat \<Rightarrow> nm32a \<Rightarrow> nm32a option) \<Rightarrow> string \<Rightarrow> nm32a option \<Rightarrow> (int \<times> nm32a option) option" where
  "sendbreak_set kstrtouint others val d =
     (case (d, kstrtouint val) of
        (Some s, Some i) \<Rightarrow>
          if i \<ge> NM32A_PORTS_N then Some (- EINVAL, d)
          else do { (_, s) \<leftarrow> sb_run others i s; Some (0, Some s) }
      | _ \<Rightarrow> Some (- EINVAL, d))"

section \<open>The tests return\<close>

lemma returns_map_snd [returns]: "returns h snd m \<Longrightarrow> returns h here (map_option snd m)"
  by (auto simp: returns_def)

lemma returns_gfrcr_poll [returns]:
  "responsive h \<Longrightarrow> hw s = h \<Longrightarrow> returns h snd (gfrcr_poll n c a s)"
proof (induction n arbitrary: a s)
  case (Suc n)
  note Suc.IH [OF Suc.prems(1), returns]
  show ?case using Suc.prems by (simp only: gfrcr_poll.simps) (intro returns, simp_all)
qed (simp add: returns)

lemma hw_foldl: "(\<And>s x. hw (f s x) = hw s) \<Longrightarrow> hw (foldl f s xs) = hw s"
  by (induction xs arbitrary: s) simp_all

lemma returns_download [returns]:
  "responsive h \<Longrightarrow> ticks h \<Longrightarrow> hw s = h \<Longrightarrow> returns h snd (nm32a_download b n c s)"
  unfolding nm32a_download_def Let_def by (intro returns, simp_all add: hw_foldl)

lemma returns_download_all [returns]:
  "responsive h \<Longrightarrow> ticks h \<Longrightarrow> hw s = h \<Longrightarrow> returns h here (download_all b n cs s)"
proof (induction cs arbitrary: s)
  case (Cons c cs)
  note Cons.IH [OF Cons.prems(1,2), returns]
  show ?case using Cons.prems by (simp only: download_all.simps) (intro returns, simp_all)
qed (simp add: returns)

lemma returns_selftest:
  "responsive h \<Longrightarrow> ticks h \<Longrightarrow> io_alive E \<Longrightarrow> hw s = h \<Longrightarrow> returns h here (selftest_run E b i n s)"
  unfolding selftest_run_def nm32a_measure_baud_def nm32a_echo_match_def nm32a_baud_sweep_def
  by (intro returns, assumption+)

text \<open>C38. No self-test can hang the writer of the parameter: on a card whose reads retire, with a clock that
  advances, every number starts a test that comes to an end, whatever the registers return.  A value that
  is not a number gives the parser's error and without a card the result is -ENODEV, both with nothing
  done; otherwise the result is 0, even when the test itself failed.\<close>

theorem selftest_returns:
  assumes "pred_option (\<lambda>s. responsive (hw s) \<and> ticks (hw s)) d" and "io_alive E"
  shows "\<exists>r d'. nm32a_set_selftest kstrtoint E blob insns val d = Some (r, d') \<and>
    (case (kstrtoint val, d) of
       (Inl rc, _) \<Rightarrow> r = rc \<and> d' = d
     | (Inr n, None) \<Rightarrow> r = - ENODEV \<and> d' = None
     | (Inr n, Some s) \<Rightarrow> r = 0 \<and> d' \<noteq> None)"
proof (cases "kstrtoint val")
  case (Inl rc)
  then show ?thesis by (simp add: nm32a_set_selftest_def)
next
  case (Inr n)
  show ?thesis
  proof (cases d)
    case None
    with Inr show ?thesis by (simp add: nm32a_set_selftest_def)
  next
    case (Some s)
    then obtain t where "selftest_run E blob insns n s = Some t"
      using assms returns_selftest [of "hw s" E s blob insns n] by (auto simp: returns_def)
    with Some Inr show ?thesis by (simp add: nm32a_set_selftest_def)
  qed
qed

theorem selftest_returns_witness:
  "\<exists>d'. nm32a_set_selftest (\<lambda>v. if v = ''18'' then Inr 18 else Inl (- EINVAL)) lab_demo [] 0 ''18''
     (Some (kzalloc_card demo_hw default_params)) = Some (0, d') \<and> d' \<noteq> None"
proof -
  let ?d = "Some (kzalloc_card demo_hw default_params)"
  have "pred_option (\<lambda>s. responsive (hw s) \<and> ticks (hw s)) ?d" "io_alive lab_demo"
    by (simp_all add: demo_responsive demo_ticks io_alive_def lab_demo_def)
  from selftest_returns [OF this, of "\<lambda>v. if v = ''18'' then Inr 18 else Inl (- EINVAL)" "[]" 0 "''18''"] show ?thesis by auto
qed

section \<open>What the tests do not do\<close>

text \<open>
  The tests take no lock: from the unlocked state the first thing every self-test does to the card is an
  access with \<open>hw_lock\<close> free, while the poll thread runs.
\<close>

lemma selftest_unlocked:
  assumes "selftest_run E b i 0 s = Some t" and "evs s = []"
  shows "\<not> legal_log (evs t)"
proof -
  let ?rest = "\<lambda>s. do {
     (_, s) \<leftarrow> rdb (Bar (NM32A_PORTS + 1)) s;
     (_, s) \<leftarrow> rdb (Bar NM32A_CTL) s;
     (_, s) \<leftarrow> rdb (Bar (NM32A_CTL + 1)) s;
     each (\<lambda>c s. do {
       (_, s) \<leftarrow> crd c GFRCR s;
       each (\<lambda>ch s. dump_chan c s ch) [0, 1, 2, 3] s
     }) [0..<NM32A_CHIPS] s }"
  have "selftest_run E b i 0 s = do { (_, s) \<leftarrow> rdb (Bar NM32A_PORTS) s; ?rest s }"
    by (simp only: selftest_run_def nm32a_dump_def if_True refl)
  with assms(1) obtain v s1 where v: "rdb (Bar NM32A_PORTS) s = Some (v, s1)" and t: "?rest s1 = Some t"
    by (cases "rdb (Bar NM32A_PORTS) s") auto
  have c: "does (\<lambda>e. True) s0 here (dump_chan c u ch)" if "grows (\<lambda>e. True) s0 u" for s0 c u ch
    using that unfolding dump_chan_def Let_def
    by (intro does grows_snoc_cwr, simp_all add: reg_events_def here_def grows_snoc_cwr)
  have "does (\<lambda>e. True) s1 here (?rest s1)"
    by (intro does c, simp_all add: reg_events_def here_def)
  then have "grows (\<lambda>e. True) s1 t" using t by (simp only: does_def here_def)
  then obtain pre where p: "evs t = pre @ evs s1" by (rule growsE)
  have "evs s1 = [RdB (Bar NM32A_PORTS) v]" using v assms(2) by (simp add: rdb_Some)
  moreover have "\<not> legal_log (pre @ [RdB (Bar NM32A_PORTS) v])" for pre
    by (induction pre) simp_all
  ultimately show ?thesis by (simp add: p)
qed

text \<open>
  The break test restores the open flag it found, whatever happened meanwhile: a port that a user opens
  during the test is closed behind his back.
\<close>

lemma sendbreak_restores:
  assumes "sb_run others i s = Some (low, t)" and "i < length (ports s)"
    and "\<And>n u u'. others n u = Some u' \<Longrightarrow> length (ports u') = length (ports u)"
  shows "popen (port i t) = popen (port i s)"
proof -
  have l: "length (ports u') = length (ports u)" if "sb_samples others n c ch u = Some (k, u')" for n c ch u k u'
    using that
  proof (induction n arbitrary: u k)
    case (Suc n)
    then obtain b u1 u2 k' where "sb_sample c ch u = Some (b, u1)" "others n u1 = Some u2"
        "sb_samples others n c ch u2 = Some (k', u')"
      by (auto elim!: bind_SomeE)
    with Suc.IH assms(3) show ?case
      by (fastforce simp: sb_sample_def mutex_lock_def mutex_unlock_def crd_Some elim!: bind_SomeE)
  qed simp
  from assms(1) obtain u w where u: "sb_samples others 400 (i div 4) (i mod 4) (snd (sb_begin i s)) = Some (low, u)"
    and w: "others 400 (ev (Msleep 50) (set_port i (sb_put 0x83 (port i u)) u)) = Some w"
    and t: "t = set_port i ((port i w)\<lparr>popen := popen (port i s)\<rparr>) w"
    by (auto simp: sb_run_def sb_begin_def Let_def elim!: bind_SomeE)
  have "length (ports w) = length (ports s)"
    using l [OF u] assms(3) [OF w] by (simp add: sb_begin_def Let_def)
  with assms(2) show ?thesis by (simp add: t)
qed

end
