(* ===== verification/Nm32a_Probe.thy ===== *)
theory Nm32a_Probe
  imports "HOL-Library.Multiset" Nm32a_Selftest
begin

text \<open>
  The life cycle of the driver \<open>nm32a.c\<close>: \<open>nm32a_probe\<close>, \<open>nm32a_tty_setup\<close>, \<open>nm32a_remove\<close>, and the tty
  entry points that only look a port up.  What the kernel's functions return is an input; the calls that
  acquire and release kernel objects are logged, newest first.
\<close>

section \<open>Kernel objects\<close>

text \<open>The field \<open>p->tty\<close>: NULL, an error pointer, or the driver object.\<close>

datatype ttyp = TtyNull | TtyErr int | TtyDrv

datatype kcall =
    EnableDevice int
  | SetMaster
  | Iomap bool
  | TtyAlloc ttyp
  | SetOps
  | PortInit nat
  | RegisterDriver int
  | KrefPut ttyp
  | RegisterDevice nat
  | KthreadRun bool
  | KthreadStop
  | UnregisterDevice ttyp nat
  | UnregisterDriver ttyp
  | SetDrvdata
  | ClearMaster

record probe_in =
  mem_ok :: bool
  enable_rc :: int
  iomap_ok :: bool
  tty_rc :: int
  reg_rc :: int
  thread_ok :: bool

record drv =
  card :: "nm32a option"
  ttyd :: ttyp
  poller :: bool
  global_dev :: bool
  drvdata :: bool
  kcalls :: "kcall list"

definition kc :: "kcall \<Rightarrow> drv \<Rightarrow> drv" where
  "kc e d = d\<lparr>kcalls := e # kcalls d\<rparr>"

definition kcs :: "kcall list \<Rightarrow> drv \<Rightarrow> drv" where
  "kcs es d = foldl (\<lambda>d e. kc e d) d es"

definition no_driver :: drv where
  "no_driver = \<lparr>card = None, ttyd = TtyNull, poller = False, global_dev = False, drvdata = False, kcalls = []\<rparr>"

section \<open>Set-up\<close>

text \<open>The whole of \<open>nm32a_tty_setup\<close>; its loop over the ports is \<open>nm32a_tty_setup\<close> of the card.\<close>

definition tty_setup_all :: "probe_in \<Rightarrow> drv \<Rightarrow> int \<times> drv" where
  "tty_setup_all k d =
     (let p = (if tty_rc k = 0 then TtyDrv else TtyErr (tty_rc k));
          d = kc (TtyAlloc p) (d\<lparr>ttyd := p\<rparr>)
      in case p of
           TtyErr rc \<Rightarrow> (rc, d)
         | _ \<Rightarrow>
             let d = kc SetOps d;
                 d = kcs (map PortInit [0..<NM32A_PORTS_N]) (d\<lparr>card := map_option nm32a_tty_setup (card d)\<rparr>);
                 d = kc (RegisterDriver (reg_rc k)) d
             in if reg_rc k \<noteq> 0 then (reg_rc k, kc (KrefPut (ttyd d)) d)
                else (0, kcs (map RegisterDevice [0..<NM32A_PORTS_N]) d))"

definition nm32a_probe :: "probe_in \<Rightarrow> hwenv \<Rightarrow> params \<Rightarrow> u8 list \<Rightarrow> nat \<Rightarrow> drv \<Rightarrow> (int \<times> drv) option" where
  "nm32a_probe k h pr blob insns d =
     (if \<not> mem_ok k then Some (- ENOMEM, d)
      else
        let d = kc (EnableDevice (enable_rc k)) (d\<lparr>card := Some (kzalloc_card h pr), ttyd := TtyNull, poller := False\<rparr>)
        in if enable_rc k \<noteq> 0 then Some (enable_rc k, d)
           else
             let d = kc (Iomap (iomap_ok k)) (kc SetMaster d)
             in if \<not> iomap_ok k then Some (- ENOMEM, d)
                else do {
                  s \<leftarrow> download_all blob insns [0..<NM32A_CHIPS] (kzalloc_card h pr);
                  let (rc, d) = tty_setup_all k (d\<lparr>card := Some s\<rparr>);
                  let d = (if rc \<noteq> 0 then d else kc (KthreadRun (thread_ok k)) (d\<lparr>poller := thread_ok k\<rparr>));
                  let d = d\<lparr>global_dev := True\<rparr>;
                  Some (0, kc SetDrvdata (d\<lparr>drvdata := True\<rparr>))
                })"

section \<open>Removal\<close>

definition nm32a_remove :: "drv \<Rightarrow> drv" where
  "nm32a_remove d =
     (let d = (if drvdata d
               then
                 let d = (if poller d then kc KthreadStop d else d)
                 in if ttyd d \<noteq> TtyNull
                    then
                      let d = kcs (map (UnregisterDevice (ttyd d)) [0..<NM32A_PORTS_N]) d;
                          d = kc (UnregisterDriver (ttyd d)) d
                      in kc (KrefPut (ttyd d)) d
                    else d
               else d)
      in kc ClearMaster d)"

section \<open>The tty entry points\<close>

text \<open>A tty of the driver: its index and \<open>driver_data\<close>, a port number or NULL.\<close>

record tty =
  tindex :: nat
  driver_data :: "nat option"

definition nm32a_lookup :: "tty \<Rightarrow> nat" where
  "nm32a_lookup t = tindex t"

text \<open>\<open>tty_port_open\<close> and \<open>tty_port_close\<close> are the kernel's: they call \<open>activate\<close> and \<open>shutdown\<close>.\<close>

definition nm32a_tty_open ::
    "(nat \<Rightarrow> nm32a \<Rightarrow> (int \<times> nm32a) option) \<Rightarrow> tty \<Rightarrow> nm32a \<Rightarrow> (int \<times> tty \<times> nm32a) option" where
  "nm32a_tty_open tty_port_open t s =
     (let i = nm32a_lookup t; t = t\<lparr>driver_data := Some i\<rparr>
      in do { (rc, s) \<leftarrow> tty_port_open i s; Some (rc, t, s) })"

definition nm32a_tty_close :: "(nat \<Rightarrow> nm32a \<Rightarrow> nm32a) \<Rightarrow> tty \<Rightarrow> nm32a \<Rightarrow> nm32a" where
  "nm32a_tty_close tty_port_close t s = (case driver_data t of None \<Rightarrow> s | Some i \<Rightarrow> tty_port_close i s)"

section \<open>Uses of the tty driver object\<close>

text \<open>
  The documented life of the object: allocated with one reference, registered, its devices
  registered on it, and freed by the last put.  The monitor reads the calls from the oldest.
\<close>

datatype life = NoDrv | Alloc | Reg "nat list" | Freed

fun tty_step :: "kcall \<Rightarrow> life \<Rightarrow> life option" where
  "tty_step (TtyAlloc p) l = Some (if p = TtyDrv then Alloc else l)"
| "tty_step (RegisterDriver rc) l = (if l = Alloc then Some (if rc = 0 then Reg [] else Alloc) else None)"
| "tty_step (RegisterDevice i) l = (case l of Reg is \<Rightarrow> Some (Reg (i # is)) | _ \<Rightarrow> None)"
| "tty_step (UnregisterDevice p i) l =
     (case (p, l) of (TtyDrv, Reg is) \<Rightarrow> if i \<in> set is then Some (Reg (remove1 i is)) else None | _ \<Rightarrow> None)"
| "tty_step (UnregisterDriver p) l = (case (p, l) of (TtyDrv, Reg []) \<Rightarrow> Some Alloc | _ \<Rightarrow> None)"
| "tty_step (KrefPut p) l = (if p = TtyDrv \<and> l = Alloc then Some Freed else None)"
| "tty_step _ l = Some l"

fun tty_life :: "kcall list \<Rightarrow> life option" where
  "tty_life [] = Some NoDrv"
| "tty_life (e # es) = do { l \<leftarrow> tty_life es; tty_step e l }"

text \<open>The poll thread and bus mastering.\<close>

fun thread_alive :: "kcall list \<Rightarrow> bool" where
  "thread_alive [] = False"
| "thread_alive (KthreadRun b # es) = b"
| "thread_alive (KthreadStop # es) = False"
| "thread_alive (_ # es) = thread_alive es"

fun mastering :: "kcall list \<Rightarrow> bool" where
  "mastering [] = False"
| "mastering (SetMaster # es) = True"
| "mastering (ClearMaster # es) = False"
| "mastering (_ # es) = mastering es"

lemma kcs_kcalls [simp]: "kcalls (kcs es d) = rev es @ kcalls d"
  by (induction es arbitrary: d) (simp_all add: kcs_def kc_def)

lemma kcs_fields [simp]:
  "card (kcs es d) = card d" "ttyd (kcs es d) = ttyd d" "poller (kcs es d) = poller d"
  "global_dev (kcs es d) = global_dev d" "drvdata (kcs es d) = drvdata d"
  by (induction es arbitrary: d) (simp_all add: kcs_def kc_def)

lemma kc_fields [simp]:
  "card (kc e d) = card d" "ttyd (kc e d) = ttyd d" "poller (kc e d) = poller d"
  "global_dev (kc e d) = global_dev d" "drvdata (kc e d) = drvdata d" "kcalls (kc e d) = e # kcalls d"
  by (simp_all add: kc_def)

lemma ttyd_simps:
  "ttyd (d\<lparr>card := c\<rparr>) = ttyd d" "ttyd (d\<lparr>ttyd := p\<rparr>) = p" "card (d\<lparr>ttyd := p\<rparr>) = card d"
  by simp_all

lemma life_inits: "tty_life (rev (map PortInit xs) @ es) = tty_life es"
  by (induction xs rule: rev_induct) (auto simp: bind_eq_None_conv split: Option.bind_split)

lemma life_registers:
  "tty_life es = Some (Reg is) \<Longrightarrow> tty_life (rev (map RegisterDevice xs) @ es) = Some (Reg (rev xs @ is))"
  by (induction xs rule: rev_induct) simp_all

lemma life_unregisters:
  "tty_life es = Some (Reg is) \<Longrightarrow> mset xs = mset is \<Longrightarrow>
     tty_life (rev (map (UnregisterDevice TtyDrv) xs) @ es) = Some (Reg [])"
proof -
  have "tty_life es = Some (Reg is) \<Longrightarrow> mset xs + mset ys = mset is \<Longrightarrow>
     \<exists>zs. tty_life (rev (map (UnregisterDevice TtyDrv) xs) @ es) = Some (Reg zs) \<and> mset zs = mset ys" for ys
  proof (induction xs arbitrary: ys rule: rev_induct)
    case (snoc x xs)
    then obtain zs where z: "tty_life (rev (map (UnregisterDevice TtyDrv) xs) @ es) = Some (Reg zs)"
        "mset zs = mset (x # ys)"
      using snoc.IH [of "x # ys"] by auto
    from z(2) have "x \<in> set zs" by (metis list.set_intros(1) set_mset_mset)
    with z show ?case by (auto simp: mset_remove1)
  qed (auto simp: )
  from this [of "[]"] show "tty_life es = Some (Reg is) \<Longrightarrow> mset xs = mset is \<Longrightarrow> ?thesis" by auto
qed

section \<open>Probe and remove\<close>

abbreviation (input) init_calls :: "kcall list \<Rightarrow> kcall list" where
  "init_calls es \<equiv> rev (map PortInit [0..<NM32A_PORTS_N]) @ SetOps # TtyAlloc TtyDrv # es"

lemma setup_cases:
  assumes "tty_setup_all k d = (rc, d')"
  obtains (alloc) "tty_rc k \<noteq> 0" and "rc = tty_rc k" and "ttyd d' = TtyErr (tty_rc k)"
      and "kcalls d' = TtyAlloc (TtyErr (tty_rc k)) # kcalls d" and "poller d' = poller d"
  | (reg) "tty_rc k = 0" and "reg_rc k \<noteq> 0" and "rc = reg_rc k" and "ttyd d' = TtyDrv"
      and "kcalls d' = KrefPut TtyDrv # RegisterDriver (reg_rc k) # init_calls (kcalls d)" and "poller d' = poller d"
  | (ok) "tty_rc k = 0" and "reg_rc k = 0" and "rc = 0" and "ttyd d' = TtyDrv"
      and "kcalls d' = rev (map RegisterDevice [0..<NM32A_PORTS_N]) @ RegisterDriver 0 # init_calls (kcalls d)"
      and "poller d' = poller d"
proof (cases "tty_rc k = 0")
  case False
  then have "(rc, d') = (tty_rc k, kc (TtyAlloc (TtyErr (tty_rc k))) (d\<lparr>ttyd := TtyErr (tty_rc k)\<rparr>))"
    using assms [symmetric] unfolding tty_setup_all_def Let_def by (simp only: if_False ttyp.case)
  with False show thesis by (intro alloc) simp_all
next
  case t: True
  let ?d = "kc (RegisterDriver (reg_rc k)) (kcs (map PortInit [0..<NM32A_PORTS_N])
    (kc SetOps (kc (TtyAlloc TtyDrv) (d\<lparr>ttyd := TtyDrv\<rparr>))\<lparr>card := map_option nm32a_tty_setup (card d)\<rparr>))"
  have e: "(rc, d') = (if reg_rc k \<noteq> 0 then (reg_rc k, kc (KrefPut TtyDrv) ?d)
      else (0, kcs (map RegisterDevice [0..<NM32A_PORTS_N]) ?d))"
    using assms [symmetric] unfolding tty_setup_all_def t Let_def
    by (simp only: simp_thms if_True ttyp.case kc_fields kcs_fields ttyd_simps)
  show thesis
  proof (cases "reg_rc k = 0")
    case True
    with e have "rc = 0" "d' = kcs (map RegisterDevice [0..<NM32A_PORTS_N]) ?d" by simp_all
    with t True show thesis by (intro ok) (simp_all del: upt_rec_numeral)
  next
    case False
    with e have "rc = reg_rc k" "d' = kc (KrefPut TtyDrv) ?d" by simp_all
    with t False show thesis by (intro reg) (simp_all del: upt_rec_numeral)
  qed
qed

lemma life_setup:
  assumes "tty_setup_all k d = (rc, d')" and "tty_life (kcalls d) = Some NoDrv"
  shows "if tty_rc k \<noteq> 0 then rc \<noteq> 0 \<and> ttyd d' = TtyErr (tty_rc k) \<and> tty_life (kcalls d') = Some NoDrv
    else if reg_rc k \<noteq> 0 then rc \<noteq> 0 \<and> ttyd d' = TtyDrv \<and> tty_life (kcalls d') = Some Freed
    else rc = 0 \<and> ttyd d' = TtyDrv \<and> tty_life (kcalls d') = Some (Reg (rev [0..<NM32A_PORTS_N]))"
proof -
  have i: "tty_life (init_calls (kcalls d)) = Some Alloc"
    using assms(2) by (simp only: life_inits tty_life.simps) simp
  then have "tty_life (RegisterDriver 0 # init_calls (kcalls d)) = Some (Reg [])" by (simp del: upt_rec_numeral)
  note reg = life_registers [OF this, of "[0..<NM32A_PORTS_N]", unfolded append_Nil2]
  from assms(1) show ?thesis
  proof (cases rule: setup_cases)
    case alloc
    with assms(2) show ?thesis by simp
  next
    case reg
    with i show ?thesis by (simp del: upt_rec_numeral)
  next
    case ok
    then show ?thesis by (simp only: reg if_False if_True simp_thms)
  qed
qed

lemma setup_fields:
  assumes "tty_setup_all k d = (rc, d')"
  shows "thread_alive (kcalls d') = thread_alive (kcalls d)" and "mastering (kcalls d') = mastering (kcalls d)"
    and "poller d' = poller d"
proof -
  have p: "thread_alive (rev (map PortInit xs) @ es) = thread_alive es"
      "mastering (rev (map PortInit xs) @ es) = mastering es"
      "thread_alive (rev (map RegisterDevice xs) @ es) = thread_alive es"
      "mastering (rev (map RegisterDevice xs) @ es) = mastering es" for es xs
    by (induction xs rule: rev_induct) simp_all
  from assms show "thread_alive (kcalls d') = thread_alive (kcalls d)"
    by (cases rule: setup_cases) (simp_all add: p del: upt_rec_numeral)
  from assms show "mastering (kcalls d') = mastering (kcalls d)"
    by (cases rule: setup_cases) (simp_all add: p del: upt_rec_numeral)
  from assms show "poller d' = poller d" by (cases rule: setup_cases)
qed

lemma remove_calls:
  assumes "drvdata d"
  shows "kcalls (nm32a_remove d) = ClearMaster #
    (if ttyd d = TtyNull then [] else
       KrefPut (ttyd d) # UnregisterDriver (ttyd d) # rev (map (UnregisterDevice (ttyd d)) [0..<NM32A_PORTS_N])) @
    (if poller d then [KthreadStop] else []) @ kcalls d"
  using assms by (simp add: nm32a_remove_def Let_def del: upt_rec_numeral)

lemma life_remove:
  assumes "ttyd d = TtyDrv" and "drvdata d" and "tty_life (kcalls d) = Some (Reg (rev [0..<NM32A_PORTS_N]))"
  shows "tty_life (kcalls (nm32a_remove d)) = Some Freed"
proof -
  let ?es = "(if poller d then [KthreadStop] else []) @ kcalls d"
  have "tty_life ?es = Some (Reg (rev [0..<NM32A_PORTS_N]))" using assms(3) by (simp del: upt_rec_numeral)
  from life_unregisters [OF this, of "[0..<NM32A_PORTS_N]"]
  have "tty_life (rev (map (UnregisterDevice TtyDrv) [0..<NM32A_PORTS_N]) @ ?es) = Some (Reg [])"
    by (simp del: upt_rec_numeral)
  then show ?thesis by (simp add: remove_calls [OF assms(2)] assms(1) del: upt_rec_numeral)
qed

text \<open>A use of an object that is not registered is not repaired by later calls.\<close>

lemma life_bad_remove:
  assumes "drvdata d" and "ttyd d \<noteq> TtyNull" and "\<And>is. tty_life (kcalls d) \<noteq> Some (Reg is)"
  shows "tty_life (kcalls (nm32a_remove d)) = None"
proof -
  let ?es = "(if poller d then [KthreadStop] else []) @ kcalls d"
  have "tty_life ?es = tty_life (kcalls d)"
    by (cases "tty_life (kcalls d)") simp_all
  moreover have "tty_step (UnregisterDevice (ttyd d) 0) l = None" if "tty_life (kcalls d) = Some l" for l
    using assms(3) that by (cases l) (auto split: ttyp.split)
  ultimately have n: "tty_life (UnregisterDevice (ttyd d) 0 # ?es) = None"
    by (cases "tty_life (kcalls d)") (simp_all del: tty_step.simps)
  have "tty_life (xs @ UnregisterDevice (ttyd d) 0 # ?es) = None" for xs
    using n by (induction xs) (simp_all del: tty_life.simps(2) add: tty_life.simps(2) [of _ "_ @ _"])
  moreover have "rev (map (UnregisterDevice (ttyd d)) [0..<NM32A_PORTS_N]) =
      rev (map (UnregisterDevice (ttyd d)) [1..<NM32A_PORTS_N]) @ [UnregisterDevice (ttyd d) 0]"
    by (subst upt_conv_Cons) (simp_all del: upt_rec_numeral)
  ultimately show ?thesis
    using assms(2) by (simp add: remove_calls [OF assms(1)] del: upt_rec_numeral)
qed

lemma remove_stops:
  assumes "drvdata d" and "poller d \<or> \<not> thread_alive (kcalls d)"
  shows "\<not> thread_alive (kcalls (nm32a_remove d)) \<and> \<not> mastering (kcalls (nm32a_remove d))"
proof -
  have "thread_alive (rev (map (UnregisterDevice p) xs) @ es) = thread_alive es" for p xs es
    by (induction xs rule: rev_induct) simp_all
  with assms(2) show ?thesis
    by (auto simp: remove_calls [OF assms(1)] simp del: upt_rec_numeral)
qed

text \<open>C39. Loading and unloading.  Probe fails, with nothing registered and the card forgotten, exactly when memory,
  the PCI device or its window cannot be had; in every other case it succeeds, whatever the microcode and the
  tty layer answer.  Removal then always leaves no poll thread and no bus mastering.  The tty driver object is
  used correctly by the two together, registered, emptied and freed once, exactly when its set-up succeeded:
  when allocation or registration had failed, removal uses an error pointer or an object already freed.\<close>

theorem probe_then_remove:
  assumes "nm32a_probe k h pr blob insns no_driver = Some (r, d)"
  shows "if mem_ok k \<and> enable_rc k = 0 \<and> iomap_ok k
    then r = 0 \<and> \<not> thread_alive (kcalls (nm32a_remove d)) \<and> \<not> mastering (kcalls (nm32a_remove d)) \<and>
      tty_life (kcalls (nm32a_remove d)) = (if tty_rc k = 0 \<and> reg_rc k = 0 then Some Freed else None)
    else r \<noteq> 0 \<and> tty_life (kcalls d) = Some NoDrv \<and> \<not> drvdata d \<and> \<not> global_dev d"
proof (cases "mem_ok k \<and> enable_rc k = 0 \<and> iomap_ok k")
  case False
  with assms show ?thesis
    by (auto simp: nm32a_probe_def no_driver_def Let_def split: if_splits)
next
  case True
  let ?d0 = "kcs [EnableDevice 0, SetMaster, Iomap True] (no_driver\<lparr>card := Some (kzalloc_card h pr)\<rparr>)"
  from True assms obtain s where s: "download_all blob insns [0..<NM32A_CHIPS] (kzalloc_card h pr) = Some s"
    by (cases "download_all blob insns [0..<NM32A_CHIPS] (kzalloc_card h pr)")
      (auto simp: nm32a_probe_def Let_def simp del: upt_rec_numeral)
  let ?d1 = "?d0\<lparr>card := Some s\<rparr>"
  obtain rc d2 where d2: "tty_setup_all k ?d1 = (rc, d2)" by fastforce
  let ?d3 = "(if rc \<noteq> 0 then d2 else kc (KthreadRun (thread_ok k)) (d2\<lparr>poller := thread_ok k\<rparr>))\<lparr>global_dev := True\<rparr>"
  have e: "r = 0" "d = kc SetDrvdata (?d3\<lparr>drvdata := True\<rparr>)"
    using assms True s d2
    by (simp_all add: nm32a_probe_def Let_def kcs_def kc_def no_driver_def del: upt_rec_numeral split: prod.splits)
  have l1: "tty_life (kcalls ?d1) = Some NoDrv" by (simp add: no_driver_def)
  note L = life_setup [OF d2 l1] and F = setup_fields [OF d2]
  have kd: "kcalls d = SetDrvdata # (if rc \<noteq> 0 then [] else [KthreadRun (thread_ok k)]) @ kcalls d2"
    "ttyd d = ttyd d2" "drvdata d" "poller d = (if rc \<noteq> 0 then poller d2 else thread_ok k)"
    by (simp_all add: e(2))
  have life: "tty_life (kcalls d) = tty_life (kcalls d2)"
    by (cases "tty_life (kcalls d2)") (simp_all add: kd)
  have "poller d \<or> \<not> thread_alive (kcalls d)"
    using F by (simp add: kd no_driver_def)
  from remove_stops [OF kd(3) this]
  have stop: "\<not> thread_alive (kcalls (nm32a_remove d)) \<and> \<not> mastering (kcalls (nm32a_remove d))" .
  have "tty_life (kcalls (nm32a_remove d)) = (if tty_rc k = 0 \<and> reg_rc k = 0 then Some Freed else None)"
  proof (cases "tty_rc k = 0 \<and> reg_rc k = 0")
    case ok: True
    with L life_remove [of d] show ?thesis by (simp add: life kd del: upt_rec_numeral)
  next
    case bad: False
    then have "ttyd d \<noteq> TtyNull" "\<And>is. tty_life (kcalls d) \<noteq> Some (Reg is)"
      using L by (auto simp: life kd simp del: upt_rec_numeral split: if_splits)
    with life_bad_remove [OF kd(3)] have "tty_life (kcalls (nm32a_remove d)) = None" by blast
    with bad show ?thesis by auto
  qed
  with True e(1) stop show ?thesis by simp
qed

lemma demo_download_all: "\<exists>s. download_all [] 0 cs (kzalloc_card demo_hw default_params) = Some s"
  using returns_download_all [OF demo_responsive demo_ticks, of "kzalloc_card demo_hw default_params" "[]" 0 cs]
  by (auto simp: returns_def)

theorem probe_then_remove_witness:
  "\<exists>d. nm32a_probe \<lparr>mem_ok = True, enable_rc = 0, iomap_ok = True, tty_rc = -12, reg_rc = 0, thread_ok = True\<rparr>
       demo_hw default_params [] 0 no_driver = Some (0, d) \<and> tty_life (kcalls (nm32a_remove d)) = None"
proof -
  let ?k = "\<lparr>mem_ok = True, enable_rc = 0, iomap_ok = True, tty_rc = -12, reg_rc = 0, thread_ok = True\<rparr>"
  obtain s where s: "download_all [] 0 [0..<NM32A_CHIPS] (kzalloc_card demo_hw default_params) = Some s"
    using demo_download_all by blast
  then obtain r d where p: "nm32a_probe ?k demo_hw default_params [] 0 no_driver = Some (r, d)"
    by (simp add: nm32a_probe_def Let_def tty_setup_all_def del: upt_rec_numeral)
  from probe_then_remove [OF p] p show ?thesis by auto
qed

end
