(* ===== verification/Nm32a_Boot.thy ===== *)
theory Nm32a_Boot
  imports Nm32a_Grain Nm32a_Probe
begin

text \<open>
  From probe to the running driver.  The properties of runs start at \<open>card_start\<close>, a card with an empty log; probe
  hands over a card whose log holds the download into eight chips, and the hardware's answers depend
  on all of it.  Two states are related when one is the other with an older log beneath it; every operation of
  the driver keeps the relation (by transfer, one rule for each definition), so what holds of every run on every hardware
  holds of every run of the card that probe leaves.
\<close>

section \<open>A state with an older log beneath\<close>

text \<open>The hardware as it is once \<open>L\<close> has been done to it.\<close>

definition hw_after :: "hwenv \<Rightarrow> cev list \<Rightarrow> hwenv" where
  "hw_after h L = h\<lparr>dev := \<lambda>l. dev h (l @ L), jif := \<lambda>l. jif h (l @ L), lim := \<lambda>l. lim h (l @ L)\<rparr>"

definition later :: "cev list \<Rightarrow> nm32a \<Rightarrow> nm32a \<Rightarrow> bool" where
  "later L s u \<longleftrightarrow> (\<exists>h. hw s = hw_after h L \<and> u = s\<lparr>hw := h, evs := evs s @ L\<rparr>)"

abbreviation (input) laters :: "cev list \<Rightarrow> ('a \<times> nm32a) option \<Rightarrow> ('a \<times> nm32a) option \<Rightarrow> bool" where
  "laters L \<equiv> rel_option (rel_prod (=) (later L))"

text \<open>What each operation does with the relation: it reads the same, it moves both sides, it returns the same and moves both.\<close>

abbreviation (input) given :: "('b \<Rightarrow> 'c \<Rightarrow> bool) \<Rightarrow> ('a \<Rightarrow> 'b) \<Rightarrow> ('a \<Rightarrow> 'c) \<Rightarrow> bool" where
  "given R \<equiv> rel_fun (=) R"

abbreviation (input) reads_later :: "cev list \<Rightarrow> (nm32a \<Rightarrow> 'a) \<Rightarrow> (nm32a \<Rightarrow> 'a) \<Rightarrow> bool" where
  "reads_later L \<equiv> rel_fun (later L) (=)"

abbreviation (input) moves_later :: "cev list \<Rightarrow> (nm32a \<Rightarrow> nm32a) \<Rightarrow> (nm32a \<Rightarrow> nm32a) \<Rightarrow> bool" where
  "moves_later L \<equiv> rel_fun (later L) (later L)"

abbreviation (input) steps_later :: "cev list \<Rightarrow> (nm32a \<Rightarrow> nm32a option) \<Rightarrow> (nm32a \<Rightarrow> nm32a option) \<Rightarrow> bool" where
  "steps_later L \<equiv> rel_fun (later L) (rel_option (later L))"

abbreviation (input) gives_later :: "cev list \<Rightarrow> (nm32a \<Rightarrow> 'a \<times> nm32a) \<Rightarrow> (nm32a \<Rightarrow> 'a \<times> nm32a) \<Rightarrow> bool" where
  "gives_later L \<equiv> rel_fun (later L) (rel_prod (=) (later L))"

abbreviation (input) runs_later ::
    "cev list \<Rightarrow> (nm32a \<Rightarrow> ('a \<times> nm32a) option) \<Rightarrow> (nm32a \<Rightarrow> ('a \<times> nm32a) option) \<Rightarrow> bool" where
  "runs_later L \<equiv> rel_fun (later L) (laters L)"

lemma laterD: "later L s u \<Longrightarrow> evs u = evs s @ L \<and> ports u = ports s \<and> port i u = port i s"
  by (auto simp: later_def port_def)

lemma rdb_later [transfer_rule]: "(given (runs_later L)) rdb rdb"
  by (auto simp: rel_fun_def later_def rdb_def hw_after_def ev_def split: option.splits)

lemma fields_later [transfer_rule]:
  "(reads_later L) par par" "(reads_later L) ports ports" "(reads_later L) trace trace"
  "(reads_later L) jiffies jiffies" "(reads_later L) ratelimit ratelimit"
  "(reads_later L) NM32A_ERR_WINDOW NM32A_ERR_WINDOW"
  "(reads_later L) st_good st_good" "(reads_later L) st_bytes st_bytes"
  "(reads_later L) st_overrun st_overrun" "(reads_later L) st_break st_break" "(reads_later L) st_timeout st_timeout"
  "(reads_later L) st_misgrant st_misgrant" "(reads_later L) st_nogrant st_nogrant"
  by (auto simp: rel_fun_def later_def hw_after_def jiffies_def ratelimit_def NM32A_ERR_WINDOW_def)

lemma updates_later [transfer_rule]:
  "(given (moves_later L)) ev ev"
  "(given (moves_later L)) ports_update ports_update" "(given (moves_later L)) trace_update trace_update"
  "(given (moves_later L)) st_good_update st_good_update" "(given (moves_later L)) st_bytes_update st_bytes_update"
  "(given (moves_later L)) st_overrun_update st_overrun_update" "(given (moves_later L)) st_break_update st_break_update"
  "(given (moves_later L)) st_timeout_update st_timeout_update"
  "(given (moves_later L)) st_misgrant_update st_misgrant_update" "(given (moves_later L)) st_nogrant_update st_nogrant_update"
  by (auto simp: rel_fun_def later_def ev_def)

section \<open>The operations keep the relation\<close>

lemma crd_later [transfer_rule]: "(given (given (runs_later L))) crd crd"
  unfolding crd_def by transfer_prover

lemma cwr_later [transfer_rule]: "(given (given (given (moves_later L)))) cwr cwr"
  unfolding cwr_def by transfer_prover

lemma lock_later [transfer_rule]: "(moves_later L) mutex_lock mutex_lock" "(moves_later L) mutex_unlock mutex_unlock"
  unfolding mutex_lock_def mutex_unlock_def by transfer_prover+

lemma port_later [transfer_rule]:
  "(given (reads_later L)) port port" "(given (given (moves_later L))) set_port set_port"
  unfolding port_def set_port_def by transfer_prover+

lemma cwrs_later [transfer_rule]: "(given (given (moves_later L))) cwrs cwrs"
proof -
  have "later L s u \<Longrightarrow> later L (cwrs c ws s) (cwrs c ws u)" for c ws s u
  proof (induction ws arbitrary: s u)
    case (Cons w ws)
    have "later L (cwr c (fst w) (snd w) s) (cwr c (fst w) (snd w) u)"
      using cwr_later [of L] Cons.prems by (simp add: rel_fun_def)
    from Cons.IH [OF this] show ?case by (cases w) simp
  qed simp
  then show ?thesis by (simp add: rel_fun_def)
qed

lemma rate_later [transfer_rule]: "(given (given (moves_later L))) nm32a_set_rate nm32a_set_rate"
  unfolding nm32a_set_rate_def by transfer_prover

text \<open>The wait is a partial function: the relation is followed from either side.\<close>

lemma poll_follows:
  assumes step: "\<And>s u. R s u \<Longrightarrow> rel_option (rel_prod (=) R) (crd c CCR s) (crd c CCR u) \<and> jiffies s = jiffies u"
    and "ccr_poll c e s = Some y" and "R s u"
  shows "\<exists>u'. ccr_poll c e u = Some (fst y, u') \<and> R (snd y) u'"
proof -
  define P where "P = (\<lambda>c' e s y. c' = c \<longrightarrow> (\<forall>u. R s u \<longrightarrow> (\<exists>u'. ccr_poll c e u = Some (fst y, u') \<and> R (snd y) u')))"
  have "P c e s y"
  proof (rule ccr_poll.raw_induct [where P = P, OF _ assms(2)], unfold P_def, intro impI allI)
    fix poll :: "nat \<Rightarrow> u32 \<Rightarrow> nm32a \<Rightarrow> (bool \<times> nm32a) option" and c' e s y u
    assume IH: "\<And>c' e s y. poll c' e s = Some y \<Longrightarrow>
        c' = c \<longrightarrow> (\<forall>u. R s u \<longrightarrow> (\<exists>u'. ccr_poll c e u = Some (fst y, u') \<and> R (snd y) u'))"
      and k: "Option.bind (crd c' CCR s) (\<lambda>(v, s). if v = 0 then Some (True, s)
        else if time_before (jiffies s) e then poll c' e s else Some (False, s)) = Some y"
      and c: "c' = c" and r: "R s u"
    from k c obtain v s1 where r1: "crd c CCR s = Some (v, s1)" and k1: "(if v = 0 then Some (True, s1)
        else if time_before (jiffies s1) e then poll c e s1 else Some (False, s1)) = Some y"
      by (auto elim!: bind_SomeE)
    from step [OF r] r1 obtain u1 where u1: "crd c CCR u = Some (v, u1)" "R s1 u1"
      by (auto simp: option_rel_Some1 rel_prod_sel)
    have j: "jiffies s1 = jiffies u1" using step [OF u1(2)] by simp
    show "\<exists>u'. ccr_poll c e u = Some (fst y, u') \<and> R (snd y) u'"
    proof (cases "v \<noteq> 0 \<and> time_before (jiffies s1) e")
      case True
      with k1 IH u1(2) have "\<exists>u'. ccr_poll c e u1 = Some (fst y, u') \<and> R (snd y) u'" by simp
      with True u1(1) j show ?thesis by (subst ccr_poll.simps) simp
    next
      case False
      with k1 u1 j show ?thesis by (subst ccr_poll.simps) (auto split: if_splits)
    qed
  qed
  with assms(3) show ?thesis by (simp add: P_def)
qed

lemma ccr_poll_later [transfer_rule]: "(given (given (runs_later L))) ccr_poll ccr_poll"
proof -
  have c: "laters L (crd c CCR s) (crd c CCR u)" and j: "jiffies s = jiffies u" if "later L s u" for c s u
    using that crd_later [of L] fields_later(4) [of L] by (simp_all add: rel_fun_def)
  have c': "rel_option (rel_prod (=) (\<lambda>u s. later L s u)) (crd c CCR u) (crd c CCR s)" if "later L s u" for c s u
    using c [OF that, of c] by (auto simp: option.rel_sel rel_prod_sel)
  have "laters L (ccr_poll c e s) (ccr_poll c e u)" if "later L s u" for c e s u
  proof (cases "ccr_poll c e s")
    case (Some y)
    from poll_follows [of "later L", OF _ this that] c j show ?thesis
      by (auto simp: Some rel_prod_sel)
  next
    case None
    have "ccr_poll c e u = None"
    proof (cases "ccr_poll c e u")
      case (Some y)
      from poll_follows [of "\<lambda>u s. later L s u", OF _ this that] c' j None show ?thesis by auto
    qed
    with None show ?thesis by simp
  qed
  then show ?thesis by (simp add: rel_fun_def)
qed

lemma timeout_later [transfer_rule]:
  "(reads_later L) (\<lambda>s. msecs_to_jiffies (hz (hw s)) CCR_WAIT_MS) (\<lambda>s. msecs_to_jiffies (hz (hw s)) CCR_WAIT_MS)"
  by (auto simp: rel_fun_def later_def hw_after_def)

lemma ccr_wait_later [transfer_rule]: "(given (runs_later L)) ccr_wait ccr_wait"
proof -
  define dl :: "nm32a \<Rightarrow> u32" where "dl = (\<lambda>s. msecs_to_jiffies (hz (hw s)) CCR_WAIT_MS)"
  have [transfer_rule]: "(reads_later L) dl dl" unfolding dl_def by (rule timeout_later)
  have e: "ccr_wait = (\<lambda>c s. do {
     (ok, t) \<leftarrow> ccr_poll c (jiffies s + dl s) s;
     if ok then Some (0, t)
     else if ratelimit t then do {
       (_, t) \<leftarrow> crd c CCR t;
       (_, t) \<leftarrow> crd c GFRCR t;
       Some (- ETIMEDOUT, t)
     } else Some (- ETIMEDOUT, t)
   })"
    by (intro ext) (simp add: ccr_wait_def dl_def)
  show ?thesis unfolding e by transfer_prover
qed

lemma chan_init_later [transfer_rule]: "(given (given (given (steps_later L)))) nm32a_chan_init nm32a_chan_init"
  unfolding nm32a_chan_init_def by transfer_prover

lemma arm_chan_later [transfer_rule]: "(given (rel_fun (later L) (given (later L)))) arm_chan arm_chan"
  unfolding arm_chan_def by transfer_prover

lemma arm_tx_later [transfer_rule]: "(given (moves_later L)) nm32a_arm_tx nm32a_arm_tx"
  unfolding nm32a_arm_tx_def by transfer_prover

lemma mctrl_later [transfer_rule]:
  "(given (given (given (moves_later L)))) nm32a_set_mctrl nm32a_set_mctrl"
  "(given (given (moves_later L))) nm32a_dtr_rts nm32a_dtr_rts"
  unfolding nm32a_set_mctrl_def nm32a_dtr_rts_def by transfer_prover+

lemma activate_later [transfer_rule]: "(given (given (runs_later L))) nm32a_port_activate nm32a_port_activate"
  unfolding nm32a_port_activate_def by transfer_prover

lemma shutdown_later [transfer_rule]: "(given (moves_later L)) nm32a_port_shutdown nm32a_port_shutdown"
  unfolding nm32a_port_shutdown_def by transfer_prover

lemma termios_later [transfer_rule]:
  "(given (given (steps_later L))) nm32a_tty_set_termios nm32a_tty_set_termios"
  unfolding nm32a_tty_set_termios_def by transfer_prover

lemma write_later [transfer_rule]:
  "(given (given (gives_later L))) nm32a_tty_write nm32a_tty_write"
  unfolding nm32a_tty_write_def by transfer_prover

lemma break_later [transfer_rule]:
  "(given (given (gives_later L))) nm32a_break_ctl nm32a_break_ctl"
  unfolding nm32a_break_ctl_def by transfer_prover

section \<open>The service keeps it\<close>

lemma read_rdr_later [transfer_rule]: "(given (given (given (runs_later L)))) read_rdr read_rdr"
proof -
  have "later L s u \<Longrightarrow> laters L (read_rdr c us n s) (read_rdr c us n u)" for c us n s u
  proof (induction n arbitrary: s u)
    case (Suc n)
    have [transfer_rule]: "(runs_later L) (read_rdr c us n) (read_rdr c us n)"
      using Suc.IH by (simp add: rel_fun_def)
    note Suc.prems [transfer_rule]
    show ?case unfolding read_rdr.simps by transfer_prover
  qed simp
  then show ?thesis by (simp add: rel_fun_def)
qed

lemma eoi_retry_later [transfer_rule]:
  "(given (given (given (given (steps_later L))))) eoi_retry eoi_retry"
proof -
  have "later L s u \<Longrightarrow> rel_option (later L) (eoi_retry n c r v s) (eoi_retry n c r v u)" for n c r v s u
  proof (induction n arbitrary: s u)
    case 0
    note 0 [transfer_rule]
    show ?case unfolding eoi_retry.simps by transfer_prover
  next
    case (Suc n)
    have [transfer_rule]: "(steps_later L) (eoi_retry n c r v) (eoi_retry n c r v)"
      using Suc.IH by (simp add: rel_fun_def)
    note Suc.prems [transfer_rule]
    show ?case unfolding eoi_retry.simps by transfer_prover
  qed
  then show ?thesis by (simp add: rel_fun_def)
qed

lemma tx_fill_later [transfer_rule]: "(given (given (given (gives_later L)))) tx_fill tx_fill"
proof -
  have "later L s u \<Longrightarrow> rel_prod (=) (later L) (tx_fill n c i s) (tx_fill n c i u)" for n c i s u
  proof (induction n arbitrary: s u)
    case (Suc n)
    have [transfer_rule]: "(gives_later L) (tx_fill n c i) (tx_fill n c i)"
      using Suc.IH by (simp add: rel_fun_def)
    note Suc.prems [transfer_rule]
    show ?case unfolding tx_fill.simps by transfer_prover
  qed simp
  then show ?thesis by (simp add: rel_fun_def)
qed

lemma eoi_later [transfer_rule]: "(given (given (given (steps_later L)))) nm32a_eoi nm32a_eoi"
  unfolding nm32a_eoi_def by transfer_prover

lemma rx_exception_later [transfer_rule]:
  "(given (given (given (moves_later L)))) nm32a_rx_exception nm32a_rx_exception"
  unfolding nm32a_rx_exception_def by transfer_prover

lemma deliver_later [transfer_rule]: "(given (given (moves_later L))) rx_deliver rx_deliver"
  unfolding rx_deliver_def tty_flip_def by transfer_prover

lemma bump_later [transfer_rule]: "(given (moves_later L)) bump_st_break bump_st_break"
  unfolding bump_st_break_def by transfer_prover

lemma service_rx_exception_later [transfer_rule]:
  "(given (given (given (runs_later L)))) service_rx_exception service_rx_exception"
  unfolding service_rx_exception_def by transfer_prover

lemma service_tx_later [transfer_rule]: "(given (given (runs_later L))) service_tx service_tx"
  unfolding service_tx_def by transfer_prover

lemma ack_address_later [transfer_rule]:
  "(reads_later L) NM32A_ACK_RX NM32A_ACK_RX" "(reads_later L) NM32A_ACK_TX NM32A_ACK_TX"
  unfolding NM32A_ACK_RX_def NM32A_ACK_TX_def by transfer_prover+

lemma svc_steps_later [transfer_rule]:
  "(given (runs_later L)) svc_begin svc_begin"
  "(given (given (given (given (runs_later L))))) confirm_step confirm_step"
  "(given (given (given (given (runs_later L))))) ack_step ack_step"
  "(given (given (given (runs_later L)))) rx_step rx_step"
  unfolding svc_begin_def confirm_step_def ack_step_def rx_step_def by transfer_prover+

lemma tx_step_later [transfer_rule]:
  "(given (given (runs_later L))) (\<lambda>c tir s. svc_next (InTx c tir) s) (\<lambda>c tir s. svc_next (InTx c tir) s)"
  unfolding svc_next.simps by transfer_prover

lemma svc_next_later:
  assumes "later L s u"
  shows "laters L (svc_next pc s) (svc_next pc u)"
  using assms svc_steps_later [of L] tx_step_later [of L] deliver_later [of L]
  by (cases pc) (simp_all add: rel_fun_def)

section \<open>Runs keep it\<close>

lemma drv_exec_later:
  assumes "later L s u" and "\<forall>c. op \<noteq> Service c"
  shows "rel_option (later L) (drv_exec op s) (drv_exec op u)"
proof (cases op)
  case (Write i bs)
  have "rel_prod (=) (later L) (nm32a_tty_write (Some i) bs s) (nm32a_tty_write (Some i) bs u)"
    using write_later [of L] assms(1) by (simp add: rel_fun_def)
  with Write show ?thesis by (simp add: rel_prod_sel)
next
  case (Break i st)
  have "rel_prod (=) (later L) (nm32a_break_ctl (Some i) st s) (nm32a_break_ctl (Some i) st u)"
    using break_later [of L] assms(1) by (simp add: rel_fun_def)
  with Break show ?thesis by (simp add: rel_prod_sel)
next
  case (Activate i baud)
  have "laters L (nm32a_port_activate i baud s) (nm32a_port_activate i baud u)"
    using activate_later [of L] assms(1) by (simp add: rel_fun_def)
  with Activate show ?thesis by (auto simp: option.rel_map rel_prod_sel elim!: option.rel_mono_strong)
next
  case (Termios i rate)
  with assms(1) termios_later [of L] show ?thesis by (simp add: rel_fun_def)
qed (use assms arm_tx_later [of L] mctrl_later(2) [of L] shutdown_later [of L] updates_later(1) [of L] in
      \<open>simp_all add: rel_fun_def\<close>)

lemma gstep_later:
  assumes "gstep ls (u, pc) (u', pc')" and "later L s u"
  shows "\<exists>s'. later L s' u' \<and> gstep ls (s, pc) (s', pc')"
  using assms(1)
proof (cases rule: gstep.cases)
  case (call op)
  have n: "\<forall>c. op \<noteq> Service c" using call(3) by (auto simp: may_run_def)
  obtain s' where s': "drv_exec op s = Some s'" "later L s' u'"
    using drv_exec_later [OF assms(2) n] call(4) by (auto simp: option_rel_Some2)
  moreover have "call_of op u = call_of op s" using laterD [OF assms(2)] by (intro call_of_ports) simp
  ultimately show ?thesis using call gstep.call [OF call(3) s'(1)] by auto
next
  case (start c b)
  have "laters L (svc_begin c s) (svc_begin c u)" using svc_steps_later(1) [of L] assms(2) by (simp add: rel_fun_def)
  with start(4) obtain s' where "svc_begin c s = Some (pc', s')" "later L s' u'"
    by (auto simp: option_rel_Some2 rel_prod_sel)
  with start gstep.start [OF start(3)] show ?thesis by auto
next
  case proceed
  with svc_next_later [OF assms(2), of pc] obtain s' where "svc_next pc s = Some (pc', s')" "later L s' u'"
    by (auto simp: option_rel_Some2 rel_prod_sel)
  with proceed gstep.proceed show ?thesis by auto
qed

lemma gruns_later:
  assumes "gruns x cs y" and "later L s (fst x)"
  shows "\<exists>s'. later L s' (fst y) \<and> gruns (s, snd x) cs (s', snd y)"
  using assms
proof (induction rule: gruns.induct)
  case none
  then show ?case using gruns.none by blast
next
  case (more cs y ls z)
  then obtain s1 where s1: "later L s1 (fst y)" "gruns (s, snd x) cs (s1, snd y)" by blast
  from more.hyps(2) gstep_later [OF _ s1(1), of ls "snd y" "fst z" "snd z"]
  obtain s2 where "later L s2 (fst z)" "gstep ls (s1, snd y) (s2, snd z)" by auto
  with gruns.more [OF s1(2)] show ?case by blast
qed

section \<open>The card that probe leaves\<close>

lemma tty_setup_later [transfer_rule]: "(moves_later L) nm32a_tty_setup nm32a_tty_setup"
  unfolding nm32a_tty_setup_def by transfer_prover

lemma download_all_grows: "download_all b insns cs s = Some s' \<Longrightarrow> grows (\<lambda>e. True) s s'"
proof (induction cs arbitrary: s)
  case (Cons c cs)
  then obtain r t where r: "nm32a_download b insns c s = Some (r, t)" and k: "download_all b insns cs t = Some s'"
    by (auto elim!: bind_SomeE)
  have "grows (of_chip c) s t" using download_stored [OF r] by blast
  then have "grows (\<lambda>e. True) s t" by (rule grows_mono) simp
  with Cons.IH [OF k] show ?case by (rule grows_trans [rotated])
qed simp

lemma setup_card: "tty_setup_all k d = (rc, d') \<Longrightarrow> tty_rc k = 0 \<Longrightarrow> card d' = map_option nm32a_tty_setup (card d)"
  by (auto simp: tty_setup_all_def Let_def simp del: upt_rec_numeral split: if_splits)

lemma probed_card:
  assumes "nm32a_probe k h p blob insns no_driver = Some (r, d)" and "mem_ok k" and "enable_rc k = 0"
    and "iomap_ok k" and "tty_rc k = 0"
  shows "\<exists>L u. card d = Some u \<and> evs u = L \<and> later L (card_start (hw_after h L) p) u \<and>
    (\<forall>c < NM32A_CHIPS. stored c L = map (\<lambda>i. ucode_insn blob (word_of_nat i)) [0..<insns])"
proof -
  from assms(1-4) obtain v where v: "download_all blob insns [0..<NM32A_CHIPS] (kzalloc_card h p) = Some v"
    by (cases "download_all blob insns [0..<NM32A_CHIPS] (kzalloc_card h p)")
      (auto simp: nm32a_probe_def Let_def simp del: upt_rec_numeral)
  from download_all_grows [OF v] have e: "v = (kzalloc_card h p)\<lparr>evs := evs v\<rparr>"
    by (auto elim!: growsE simp: kzalloc_card_def)
  obtain d0 d1 rc where s: "tty_setup_all k d0 = (rc, d1)" "card d0 = Some v" "card d = card d1"
    using assms v by (auto simp: nm32a_probe_def Let_def simp del: upt_rec_numeral split: prod.splits if_splits)
  have "later (evs v) (kzalloc_card (hw_after h (evs v)) p) v"
    using e by (auto simp: later_def kzalloc_card_def)
  then have "later (evs v) (card_start (hw_after h (evs v)) p) (nm32a_tty_setup v)"
    using tty_setup_later [of "evs v"] by (simp add: rel_fun_def card_start_def)
  moreover have "card d = Some (nm32a_tty_setup v)" using setup_card [OF s(1) assms(5)] s by simp
  moreover have "evs (nm32a_tty_setup v) = evs v" using laterD [OF calculation(1)] by (simp add: card_start_ports)
  moreover have "stored c (evs v) = map (\<lambda>i. ucode_insn blob (word_of_nat i)) [0..<insns]" if "c < NM32A_CHIPS" for c
    using download_all_stored [OF v] that by simp
  ultimately show ?thesis by blast
qed

text \<open>C6. From probe on.  When probe succeeds and the tty layer takes the driver, every chip's store has received the whole
  microcode; and whatever runs then on the card that probe leaves, at the grain of the locks, at every
  point: the accesses since are legal, of what the tty of a port got and what waits for it nothing was invented,
  repeated or reordered, and as long as a port is not opened anew, what its line has sent since and what
  its ring holds are exactly the bytes that the writers were told were accepted, in order.\<close>

theorem driver_from_probe:
  assumes "nm32a_probe k h p blob insns no_driver = Some (0, d)" and "tty_rc k = 0" and "reg_rc k = 0"
    and "card d = Some u" and "gruns (u, Out b) cs (t, pc)" and "i < NM32A_PORTS_N"
  shows "(\<forall>c < NM32A_CHIPS. stored c (evs u) = map (\<lambda>j. ucode_insn blob (word_of_nat j)) [0..<insns]) \<and>
    (\<exists>l. evs t = l @ evs u \<and> legal_log l \<and>
      subseq (flipped i l @ pending i pc) (rx_taken (i div 4) (i mod 4) l) \<and>
      ((\<forall>(op, acc) \<in> set cs. \<forall>baud. op \<noteq> Activate i baud) \<longrightarrow>
        tx_sent (i div 4) (i mod 4) l @ ring_content (port i t) = concat (map (\<lambda>(op, acc). acc i) cs)))"
proof -
  have ok: "mem_ok k" "enable_rc k = 0" "iomap_ok k"
    using assms(1) by (auto simp: nm32a_probe_def Let_def split: if_splits)
  from probed_card [OF assms(1) ok assms(2)] assms(4) have
      l: "later (evs u) (card_start (hw_after h (evs u)) p) u"
    and m: "\<forall>c < NM32A_CHIPS. stored c (evs u) = map (\<lambda>j. ucode_insn blob (word_of_nat j)) [0..<insns]"
    by (auto simp del: upt_rec_numeral)
  let ?s = "card_start (hw_after h (evs u)) p"
  from gruns_later [OF assms(5), of "evs u" ?s] l obtain s' where
      s': "later (evs u) s' t" "gruns (?s, Out b) cs (s', pc)" by auto
  have a: "good ?s" "rx_ok (Out b) ?s" by (simp_all add: good_card_start rx_ok_card_start)
  have z: "tx_total i ?s = []"
    using line_card_start [OF assms(6), of "hw_after h (evs u)" p] by (simp add: tx_total_def line_def)
  note R = gruns_ok [OF s'(2), simplified, OF a]
  have "legal_log (evs s')" using R at_ok_log by blast
  with R z assms(6) laterD [OF s'(1), of i] m show ?thesis by (auto simp: rx_ok_def tx_total_def)
qed

theorem driver_from_probe_witness:
  "\<exists>d u t. nm32a_probe \<lparr>mem_ok = True, enable_rc = 0, iomap_ok = True, tty_rc = 0, reg_rc = 0, thread_ok = True\<rparr>
       demo_hw default_params [1, 2, 3] 1 no_driver = Some (0, d) \<and> card d = Some u \<and>
     gruns (u, Out False) [call_of (Write 0 [0x41]) u] (t, Out False) \<and>
     (\<exists>l. evs t = l @ evs u \<and> legal_log l \<and> tx_sent 0 0 l @ ring_content (port 0 t) = [0x41])"
proof -
  let ?k = "\<lparr>mem_ok = True, enable_rc = 0, iomap_ok = True, tty_rc = 0, reg_rc = 0, thread_ok = True\<rparr>"
  obtain s where s: "download_all [1, 2, 3] 1 [0..<NM32A_CHIPS] (kzalloc_card demo_hw default_params) = Some s"
    using returns_download_all [OF demo_responsive demo_ticks, of "kzalloc_card demo_hw default_params" "[1, 2, 3]" 1]
    by (auto simp: returns_def simp del: upt_rec_numeral)
  obtain d where p: "nm32a_probe ?k demo_hw default_params [1, 2, 3] 1 no_driver = Some (0, d)"
    using s by (simp add: nm32a_probe_def Let_def tty_setup_all_def del: upt_rec_numeral)
  from probed_card [OF p] obtain u where u: "card d = Some u" and
      l: "later (evs u) (card_start (hw_after demo_hw (evs u)) default_params) u"
    by auto
  have p0: "port 0 u = zero_port" using laterD [OF l, of 0] by (simp add: port_card_start zero_port_def)
  let ?t = "snd (nm32a_tty_write (Some 0) [0x41] u)"
  have "gstep [call_of (Write 0 [0x41]) u] (u, Out False) (?t, Out False)"
    by (rule gstep.call) (simp_all add: may_run_def)
  then have r: "gruns (u, Out False) [call_of (Write 0 [0x41]) u] (?t, Out False)"
    by (blast intro: gruns_call gruns.none)
  have acc: "accepted 0 (Write 0 [0x41]) u = [0x41]"
    by (simp add: nm32a_tty_write_def Let_def nm32a_tx_space_def p0 zero_port_def)
  from driver_from_probe [OF p _ _ u r, of 0] acc p u r show ?thesis
    by (simp add: call_of_def del: upt_rec_numeral) blast
qed

end
