(* ===== verification/Cstdlib.thy ===== *)
theory Cstdlib
  imports Prelude
begin

text \<open>
  The parts of the C library that the tools use on strings: \<open>%d\<close> of \<open>sscanf\<close>, \<open>atoi\<close>,
  \<open>strtoul\<close> with base 0, \<open>fgets\<close> and \<open>%d\<close> of \<open>printf\<close>.  Numbers are unbounded until they are stored: an
  \<open>int\<close> overflow in \<open>%d\<close> or \<open>atoi\<close> is undefined in C and stays a large number here.
\<close>

section \<open>Numbers from text\<close>

definition isspace :: "char \<Rightarrow> bool" where
  "isspace c \<longleftrightarrow> c = CHR 0x20 \<or> c = CHR 0x09 \<or> c = CHR 0x0A \<or> c = CHR 0x0B \<or> c = CHR 0x0C \<or> c = CHR 0x0D"

definition digit_val :: "char \<Rightarrow> nat" where
  "digit_val c =
     (let v = of_char c :: nat
      in if 48 \<le> v \<and> v \<le> 57 then v - 48
         else if 97 \<le> v \<and> v \<le> 122 then v - 87
         else if 65 \<le> v \<and> v \<le> 90 then v - 55 else 99)"

fun scan_digits :: "nat \<Rightarrow> nat \<Rightarrow> string \<Rightarrow> nat \<times> string" where
  "scan_digits b acc [] = (acc, [])"
| "scan_digits b acc (c # cs) =
     (if digit_val c < b then scan_digits b (acc * b + digit_val c) cs else (acc, c # cs))"

fun scan_sign :: "string \<Rightarrow> bool \<times> string" where
  "scan_sign [] = (False, [])"
| "scan_sign (c # cs) = (if c = CHR ''-'' then (True, cs) else if c = CHR ''+'' then (False, cs) else (False, c # cs))"

definition scan_int :: "string \<Rightarrow> (int \<times> string) option" where
  "scan_int s =
     (let (neg, s) = scan_sign (dropWhile isspace s)
      in if s \<noteq> [] \<and> digit_val (hd s) < 10
         then let (v, rest) = scan_digits 10 0 s in Some (if neg then - int v else int v, rest)
         else None)"

definition atoi :: "string \<Rightarrow> int" where
  "atoi s = (case scan_int s of Some (v, rest) \<Rightarrow> v | None \<Rightarrow> 0)"

text \<open>\<open>strtoul (s, NULL, 0)\<close> on a 32-bit machine: a prefix chooses the base, overflow saturates.\<close>

definition strtoul :: "string \<Rightarrow> u32" where
  "strtoul s =
     (let (neg, s) = scan_sign (dropWhile isspace s);
          hex = (take 1 s = ''0'' \<and> (take 1 (drop 1 s) = ''x'' \<or> take 1 (drop 1 s) = ''X'') \<and>
                 drop 2 s \<noteq> [] \<and> digit_val (hd (drop 2 s)) < 16);
          v = (if hex then fst (scan_digits 16 0 (drop 2 s))
               else if take 1 s = ''0'' then fst (scan_digits 8 0 s)
               else fst (scan_digits 10 0 s))
      in if 2 ^ 32 \<le> v then - 1 else if neg then - word_of_nat v else word_of_nat v)"

section \<open>Lines of a file\<close>

text \<open>\<open>fgets\<close> with room for \<open>k\<close> characters: up to and with the newline, or the first \<open>k\<close>.\<close>

fun fgets :: "nat \<Rightarrow> string \<Rightarrow> string \<times> string" where
  "fgets k [] = ([], [])"
| "fgets k (c # cs) =
     (if k = 0 then ([], c # cs)
      else if c = CHR 0x0A then ([c], cs) else let (l, r) = fgets (k - 1) cs in (c # l, r))"

lemma fgets_append: "fst (fgets k cs) @ snd (fgets k cs) = cs"
  by (induction k cs rule: fgets.induct) (auto simp: Let_def split: prod.splits)

lemma fgets_shorter: "0 < k \<Longrightarrow> cs \<noteq> [] \<Longrightarrow> length (snd (fgets k cs)) < length cs"
proof -
  assume "0 < k" and "cs \<noteq> []"
  then have "fst (fgets k cs) \<noteq> []" by (cases cs) (auto simp: Let_def split: prod.splits)
  with fgets_append [of k cs] show ?thesis by (metis add_less_cancel_right length_append length_greater_0_conv add_0)
qed

lemma fgets_line:
  "CHR 0x0A \<notin> set l \<Longrightarrow> length l < k \<Longrightarrow> fgets k (l @ CHR 0x0A # r) = (l @ [CHR 0x0A], r)"
  by (induction l arbitrary: k) (auto simp: Let_def)

section \<open>Numbers to text\<close>

fun show_nat :: "nat \<Rightarrow> string" where
  "show_nat n = (if n < 10 then [char_of (48 + n)] else show_nat (n div 10) @ [char_of (48 + n mod 10)])"

declare show_nat.simps [simp del]

definition show_int :: "int \<Rightarrow> string" where
  "show_int v = (if v < 0 then CHR ''-'' # show_nat (nat (- v)) else show_nat (nat v))"

lemma digit_val_digit [simp]: "d < 10 \<Longrightarrow> digit_val (char_of (48 + d)) = d"
  by (simp add: digit_val_def Let_def)

lemma scan_digits_append:
  "\<forall>c \<in> set ds. digit_val c < b \<Longrightarrow> scan_digits b acc (ds @ r) = scan_digits b (fst (scan_digits b acc ds)) r"
  by (induction ds arbitrary: acc) auto

lemma show_nat_digits: "c \<in> set (show_nat n) \<Longrightarrow> \<exists>d < (10::nat). c = char_of (48 + d)"
proof (induction n rule: show_nat.induct)
  case (1 n)
  show ?case
  proof (cases "n < 10")
    case True
    with "1.prems" show ?thesis by (subst (asm) show_nat.simps) auto
  next
    case False
    from "1.prems" False have "c \<in> set (show_nat (n div 10)) \<or> c = char_of (48 + n mod 10)"
      by (subst (asm) show_nat.simps) auto
    then show ?thesis
    proof
      assume "c \<in> set (show_nat (n div 10))"
      with "1.IH" False show ?thesis by blast
    next
      assume "c = char_of (48 + n mod 10)"
      then show ?thesis by (intro exI [of _ "n mod 10"]) simp
    qed
  qed
qed

lemma show_nat_digit_val: "c \<in> set (show_nat n) \<Longrightarrow> digit_val c < 10"
  using show_nat_digits by fastforce

lemma scan_show_nat: "scan_digits 10 acc (show_nat n) = (acc * 10 ^ length (show_nat n) + n, [])"
proof (induction n arbitrary: acc rule: show_nat.induct)
  case (1 n)
  show ?case
  proof (cases "n < 10")
    case True
    then show ?thesis by (subst (1 2) show_nat.simps) simp
  next
    case False
    have "scan_digits 10 acc (show_nat n) =
        scan_digits 10 (acc * 10 ^ length (show_nat (n div 10)) + n div 10) [char_of (48 + n mod 10)]"
      using "1.IH" [OF False, of acc] False show_nat_digit_val [of _ "n div 10"]
      by (subst show_nat.simps) (simp add: scan_digits_append)
    also have "\<dots> = ((acc * 10 ^ length (show_nat (n div 10)) + n div 10) * 10 + n mod 10, [])"
      by simp
    also have "\<dots> = (acc * 10 ^ length (show_nat n) + n, [])"
      using False by (subst (2) show_nat.simps) (simp add: algebra_simps)
    finally show ?thesis .
  qed
qed

lemma show_nat_nonempty: "show_nat n \<noteq> []"
  by (subst show_nat.simps) simp

lemma scan_digits_stop: "r = [] \<or> \<not> digit_val (hd r) < b \<Longrightarrow> scan_digits b acc r = (acc, r)"
  by (cases r) auto

lemma scan_digits_show:
  "r = [] \<or> \<not> digit_val (hd r) < 10 \<Longrightarrow> scan_digits 10 0 (show_nat n @ r) = (n, r)"
  using show_nat_digit_val [of _ n] by (simp add: scan_digits_append scan_show_nat scan_digits_stop)

lemma digit_not_space: "digit_val c < 10 \<Longrightarrow> \<not> isspace c \<and> c \<noteq> CHR ''-'' \<and> c \<noteq> CHR ''+'' \<and> c \<noteq> CHR ''#'' \<and> c \<noteq> CHR 0x00"
  by (auto simp: isspace_def digit_val_def Let_def)

text \<open>What \<open>%d\<close> prints, \<open>%d\<close> reads back, after any white space.\<close>

lemma scan_int_show:
  assumes "list_all isspace w" and "r = [] \<or> \<not> digit_val (hd r) < 10"
  shows "scan_int (w @ show_int v @ r) = Some (v, r)"
proof -
  have w: "dropWhile isspace (w @ c # x) = c # x" if "\<not> isspace c" for c x
    using assms(1) that by (induction w) auto
  have d: "digit_val (hd (show_nat n)) < 10" for n
    using show_nat_digit_val show_nat_nonempty by (metis list.set_sel(1))
  obtain c x where n: "show_nat (nat v) = c # x" by (metis list.exhaust show_nat_nonempty)
  show ?thesis
  proof (cases "v < 0")
    case True
    have "\<not> isspace CHR ''-''" by (simp add: isspace_def)
    from w [OF this] True assms(2) show ?thesis
      using d show_nat_nonempty by (simp add: scan_int_def show_int_def Let_def scan_digits_show)
  next
    case False
    from d [of "nat v"] n have c: "digit_val c < 10" by simp
    from digit_not_space [OF c] w [of c "x @ r"] have "dropWhile isspace (w @ show_nat (nat v) @ r) = show_nat (nat v) @ r"
      by (simp add: n)
    moreover have "scan_sign (show_nat (nat v) @ r) = (False, show_nat (nat v) @ r)"
      using digit_not_space [OF c] by (simp add: n)
    ultimately show ?thesis
      using False assms(2) d [of "nat v"] show_nat_nonempty [of "nat v"]
      by (simp add: scan_int_def show_int_def Let_def scan_digits_show)
  qed
qed

end
