(* ===== verification/Tool_Ucode.thy ===== *)
theory Tool_Ucode
  imports Ucode Cstdlib
begin

text \<open>
  The user space downloader \<open>tools/nm32a/ucode.c\<close>: option parsing, the register writes through
  the mapped window (each read back, with the byte-lane XOR), the download of the selected chips.

  The window is a parameter: what a byte read returns, as a function of the accesses made so far
  (newest first).  So are the files, whether \<open>/dev/mem\<close> opens and what mapping it gives.  What the tool prints
  to its output is a list of lines.
\<close>

datatype tev = TRd u32 u8 | TWr u32 u8

record tool =
  twin :: "tev list \<Rightarrow> u32 \<Rightarrow> u8"
  thist :: "tev list"
  cbase :: u32
  lane :: u32
  RA :: u32
  RM :: u32
  RH :: u32
  RMT :: u32
  RBT :: u32

section \<open>Register access\<close>

definition rd :: "u32 \<Rightarrow> tool \<Rightarrow> u8 \<times> tool" where
  "rd reg s =
     (let off = cbase s + (reg XOR lane s); v = twin s (thist s) off
      in (v, s\<lparr>thist := TRd off v # thist s\<rparr>))"

definition wr :: "u32 \<Rightarrow> u8 \<Rightarrow> tool \<Rightarrow> tool" where
  "wr reg v s =
     (let off = cbase s + (reg XOR lane s); s = s\<lparr>thist := TWr off v # thist s\<rparr>
      in snd (rd reg s))"

section \<open>The download sequence\<close>

definition put :: "u32 \<Rightarrow> tool \<Rightarrow> tool" where
  "put insn s =
     (let s = wr (RA s) (ucast (insn AND 0xff)) s;
          s = wr (RM s) (ucast (drop_bit 8 insn AND 0xff)) s;
          s = wr (RH s) (ucast (drop_bit 16 insn AND 0x03)) s
      in wr (RBT s) 0x03 s)"

definition jump_3fff :: "tool \<Rightarrow> tool" where
  "jump_3fff s = wr (RH s) 0x03 (wr (RM s) 0x3f (wr (RA s) 0xff s))"

definition dl_setup :: "bool \<Rightarrow> tool \<Rightarrow> tool" where
  "dl_setup datasheet s =
     (let s = (if datasheet
               then wr (RBT s) 0x03 (wr (RBT s) 0x03 (wr (RMT s) 0x01 (jump_3fff (wr (RBT s) 0x01 s))))
               else wr (RBT s) 0x01 (wr (RMT s) 0x01 (jump_3fff s)))
      in wr (RMT s) 0x02 s)"

definition dl_start :: "tool \<Rightarrow> tool" where
  "dl_start s =
     (let s = jump_3fff s;
          s = wr (RMT s) 0x01 s;
          s = wr (RBT s) 0x03 s;
          s = wr (RBT s) 0x03 s;
          s = wr (RMT s) 0x03 s
      in wr (RBT s) 0x00 s)"

definition insn_at :: "u8 list \<Rightarrow> nat \<Rightarrow> u32 \<Rightarrow> u32" where
  "insn_at b len i =
     (let bt = i * 18; byte = drop_bit 3 bt;
          v = foldl (\<lambda>v k. if unat (byte + k) < len
                           then v OR push_bit (unat (8 * k)) (ucast (b ! unat (byte + k))) else v) 0 [0, 1, 2]
      in drop_bit (unat (bt AND 7)) v AND 0x3FFFF)"

section \<open>Options\<close>

record uopts =
  base :: u32
  only :: int
  datasheet :: bool
  verify :: bool
  use_int :: bool
  olane :: u32
  path :: "string option"

definition default_opts :: uopts where
  "default_opts = \<lparr>base = 0x18000000, only = -1, datasheet = False, verify = False, use_int = False,
     olane = 0, path = None\<rparr>"

fun parse_args :: "string list \<Rightarrow> uopts \<Rightarrow> uopts" where
  "parse_args [] opts = opts"
| "parse_args [a] opts =
     (if a = ''--ds'' then opts\<lparr>datasheet := True\<rparr>
      else if a = ''--int'' then opts\<lparr>use_int := True\<rparr>
      else if a = ''--verify'' then opts\<lparr>verify := True\<rparr>
      else opts\<lparr>path := Some a\<rparr>)"
| "parse_args (a # v # as) opts =
     (if a = ''--base'' then parse_args as (opts\<lparr>base := strtoul v\<rparr>)
      else if a = ''--chip'' then parse_args as (opts\<lparr>only := atoi v\<rparr>)
      else if a = ''--ds'' then parse_args (v # as) (opts\<lparr>datasheet := True\<rparr>)
      else if a = ''--xor'' then parse_args as (opts\<lparr>olane := strtoul v\<rparr>)
      else if a = ''--int'' then parse_args (v # as) (opts\<lparr>use_int := True\<rparr>)
      else if a = ''--verify'' then parse_args (v # as) (opts\<lparr>verify := True\<rparr>)
      else parse_args (v # as) (opts\<lparr>path := Some a\<rparr>))"

section \<open>The run\<close>

definition STORE_WORDS :: nat where "STORE_WORDS = 8192"
definition TRIES :: nat where "TRIES = 200000"

definition ninsn_of :: "nat \<Rightarrow> nat" where
  "ninsn_of flen = (let n = unat (word_of_nat (flen * 8 div 18) :: u32) in if n > STORE_WORDS then STORE_WORDS else n)"

fun poll_reg :: "nat \<Rightarrow> u32 \<Rightarrow> (u8 \<Rightarrow> bool) \<Rightarrow> u8 \<Rightarrow> tool \<Rightarrow> u8 \<times> tool" where
  "poll_reg 0 reg ok v s = (v, s)"
| "poll_reg (Suc n) reg ok v s =
     (let (v, s) = rd reg s in if ok v then (v, s) else poll_reg n reg ok v s)"

text \<open>One chip: the two values printed at the end and the state.\<close>

definition ucode_chip :: "uopts \<Rightarrow> u8 list \<Rightarrow> nat \<Rightarrow> tool \<Rightarrow> u8 \<times> u8 \<times> tool" where
  "ucode_chip opts b c s =
     (let s = s\<lparr>cbase := word_of_nat (chip_off ! c)\<rparr>;
          (before, s) = rd 0x81 s;
          s = dl_setup (datasheet opts) s;
          n = ninsn_of (length b);
          s = foldl (\<lambda>s i. put (insn_at b (length b) (word_of_nat i)) s) s [0..<n];
          s = foldl (\<lambda>s i. put 0x1E000 s) s [n..<STORE_WORDS];
          s = dl_start s;
          s = wr 0x13 0x10 s;
          (ccr, s) = poll_reg TRIES 0x13 (\<lambda>v. v = 0) 0xff s;
          (after, s) = poll_reg TRIES 0x81 (\<lambda>v. v \<noteq> 0 \<and> v \<noteq> 0xff) before s
      in (ccr, after, s))"

definition start_tool :: "(tev list \<Rightarrow> u32 \<Rightarrow> u8) \<Rightarrow> uopts \<Rightarrow> tool" where
  "start_tool w opts =
     (let s = \<lparr>twin = w, thist = [], cbase = 0, lane = olane opts, RA = 0xF2, RM = 0xF3, RH = 0xF0,
               RMT = 0xF1, RBT = 0xF6\<rparr>
      in if use_int opts then s\<lparr>RA := 0xF0, RM := 0xF1, RH := 0xF2, RMT := 0xF3, RBT := 0xF4\<rparr> else s)"

definition ucode_run :: "uopts \<Rightarrow> u8 list \<Rightarrow> tool \<Rightarrow> tool" where
  "ucode_run opts b s =
     foldl (\<lambda>s c. if only opts \<ge> 0 \<and> int c \<noteq> only opts then s else snd (snd (ucode_chip opts b c s)))
       s [0..<NM32A_CHIPS]"

text \<open>The lines printed: of the blob, of each chip, and with \<open>--verify\<close> of its boot revision.\<close>

datatype uline =
    Loaded nat nat u32 bool u32
  | ChipLine nat nat u8 u8 u8 bool
  | Revision bool

fun ucode_lines :: "uopts \<Rightarrow> u8 list \<Rightarrow> nat list \<Rightarrow> tool \<Rightarrow> uline list \<times> tool" where
  "ucode_lines opts b [] s = ([], s)"
| "ucode_lines opts b (c # cs) s =
     (if only opts \<ge> 0 \<and> int c \<noteq> only opts then ucode_lines opts b cs s
      else
        let before = fst (rd 0x81 (s\<lparr>cbase := word_of_nat (chip_off ! c)\<rparr>));
            (ccr, after, s) = ucode_chip opts b c s;
            ls = ChipLine c (chip_off ! c) before after ccr (ccr = 0) #
                 (if verify opts then [Revision (before = 0xE0)] else []);
            (rest, s) = ucode_lines opts b cs s
        in (ls @ rest, s))"

text \<open>
  \<open>main\<close>: the exit status, the lines, and the accesses.  \<open>files f\<close> is \<open>None\<close> if \<open>f\<close> does not open, and otherwise what
  could be read of it, \<open>None\<close> for a short read; \<open>mapped b\<close> is the window that \<open>mmap\<close> gives at \<open>b\<close>.
\<close>

definition ucode_main ::
    "(string \<Rightarrow> u8 list option option) \<Rightarrow> bool \<Rightarrow> (u32 \<Rightarrow> (tev list \<Rightarrow> u32 \<Rightarrow> u8) option) \<Rightarrow> string list \<Rightarrow>
     int \<times> uline list \<times> tev list" where
  "ucode_main files mem_opens mapped args =
     (let opts = parse_args args default_opts in
      case path opts of
        None \<Rightarrow> (2, [], [])
      | Some f \<Rightarrow>
          (case files f of
             None \<Rightarrow> (1, [], [])
           | Some None \<Rightarrow> (1, [], [])
           | Some (Some b) \<Rightarrow>
               (let l = Loaded (length b) (ninsn_of (length b)) (insn_at b (length b) 0) (use_int opts) (olane opts) in
                if \<not> mem_opens then (1, [l], [])
                else case mapped (base opts) of
                    None \<Rightarrow> (1, [l], [])
                  | Some w \<Rightarrow>
                      (let (ls, s) = ucode_lines opts b [0..<NM32A_CHIPS] (start_tool w opts)
                       in (0, l # ls, thist s)))))"

section \<open>The writes\<close>

text \<open>The writes of a history, oldest first.\<close>

fun twrites :: "tev list \<Rightarrow> (u32 \<times> u8) list" where
  "twrites [] = []"
| "twrites (TWr off v # h) = twrites h @ [(off, v)]"
| "twrites (TRd off v # h) = twrites h"

lemma wr_simps [simp]:
  "twrites (thist (wr r v s)) = twrites (thist s) @ [(cbase s + (r XOR lane s), v)]"
  "cbase (wr r v s) = cbase s" "lane (wr r v s) = lane s" "RA (wr r v s) = RA s" "RM (wr r v s) = RM s"
  "RH (wr r v s) = RH s" "RMT (wr r v s) = RMT s" "RBT (wr r v s) = RBT s" "twin (wr r v s) = twin s"
  by (simp_all add: wr_def rd_def Let_def)

lemma rd_simps [simp]:
  "twrites (thist (snd (rd r s))) = twrites (thist s)"
  "cbase (snd (rd r s)) = cbase s" "lane (snd (rd r s)) = lane s" "RA (snd (rd r s)) = RA s"
  "RM (snd (rd r s)) = RM s" "RH (snd (rd r s)) = RH s" "RMT (snd (rd r s)) = RMT s"
  "RBT (snd (rd r s)) = RBT s"
  by (simp_all add: rd_def Let_def)

definition at_base :: "u32 \<Rightarrow> (nat \<times> u8) list \<Rightarrow> (u32 \<times> u8) list" where
  "at_base b ws = map (\<lambda>(r, v). (b + word_of_nat r, v)) ws"

lemma at_base_append [simp]: "at_base b (xs @ ys) = at_base b xs @ at_base b ys"
  by (simp add: at_base_def)

text \<open>The default register map of the tool, no lane swap.\<close>

definition mot :: "tool \<Rightarrow> bool" where
  "mot s \<longleftrightarrow> lane s = 0 \<and> RA s = 0xF2 \<and> RM s = 0xF3 \<and> RH s = 0xF0 \<and> RMT s = 0xF1 \<and> RBT s = 0xF6"

text \<open>\<open>emits ws s t\<close>: from \<open>s\<close> to \<open>t\<close> the tool made the register writes \<open>ws\<close>.\<close>

definition emits :: "(nat \<times> u8) list \<Rightarrow> tool \<Rightarrow> tool \<Rightarrow> bool" where
  "emits ws s t \<longleftrightarrow> mot t \<and> cbase t = cbase s \<and>
     twrites (thist t) = twrites (thist s) @ at_base (cbase s) ws"

lemma emits_trans: "emits xs s t \<Longrightarrow> emits ys t u \<Longrightarrow> emits (xs @ ys) s u"
  by (simp add: emits_def)

lemma emits_Nil: "mot s \<Longrightarrow> emits [] s s"
  by (simp add: emits_def at_base_def)

lemma emits_mot: "emits ws s t \<Longrightarrow> mot t"
  by (simp add: emits_def)

lemma emits_put: "mot s \<Longrightarrow> emits (insn_regs w) s (put w s)"
  by (simp add: emits_def put_def mot_def insn_regs_def at_base_def Let_def)

text \<open>The datasheet variant of the setup, and the one the driver uses.\<close>

definition tool_setup :: "bool \<Rightarrow> (nat \<times> u8) list" where
  "tool_setup ds = (if ds then [(BTCR, 0x01), (AIRL, 0xff), (AIRM, 0x3f), (AIRH, 0x03), (MTCR, 0x01),
     (BTCR, 0x03), (BTCR, 0x03), (MTCR, 0x02)] else dl_setup_regs)"

lemma emits_setup: "mot s \<Longrightarrow> emits (tool_setup ds) s (dl_setup ds s)"
  by (simp add: emits_def dl_setup_def jump_3fff_def mot_def tool_setup_def dl_setup_regs_def at_base_def Let_def)

lemma emits_start: "mot s \<Longrightarrow> emits dl_start_regs s (dl_start s)"
  by (simp add: emits_def dl_start_def jump_3fff_def mot_def dl_start_regs_def at_base_def Let_def)

lemma emits_rd: "mot s \<Longrightarrow> emits [] s (snd (rd r s))"
  by (simp add: emits_def mot_def at_base_def)

lemma emits_wr: "mot s \<Longrightarrow> emits [(r, v)] s (wr (word_of_nat r) v s)"
  by (simp add: emits_def mot_def at_base_def)

lemma emits_poll: "mot s \<Longrightarrow> emits [] s (snd (poll_reg n r ok v s))"
proof (induction n arbitrary: v s)
  case (Suc n)
  obtain x t where r: "rd r s = (x, t)" by fastforce
  have e: "emits [] s t" using emits_rd [OF Suc.prems, of r] r by simp
  from Suc.IH [OF emits_mot [OF e], of x] e r emits_trans [of "[]" s t "[]"] show ?case
    by (simp add: Let_def)
qed (simp add: emits_Nil)

lemma emits_puts:
  "mot s \<Longrightarrow> emits (concat (map (\<lambda>i. insn_regs (f i)) ns)) s (foldl (\<lambda>s i. put (f i) s) s ns)"
proof (induction ns arbitrary: s)
  case (Cons n ns)
  have e: "emits (insn_regs (f n)) s (put (f n) s)" using Cons.prems by (rule emits_put)
  from emits_trans [OF e Cons.IH [OF emits_mot [OF e]]] show ?case by simp
qed (simp add: emits_Nil)

lemma insn_at_eq: "insn_at b (length b) i = ucode_insn b i"
  by (simp add: insn_at_def ucode_insn_def insn_window_def Let_def)

text \<open>Everything one chip is written.\<close>

definition chip_writes :: "bool \<Rightarrow> u8 list \<Rightarrow> (nat \<times> u8) list" where
  "chip_writes ds b =
     (let n = ninsn_of (length b);
          ws = map (\<lambda>i. ucode_insn b (word_of_nat i)) [0..<n] @ replicate (STORE_WORDS - n) 0x1E000
      in tool_setup ds @ concat (map insn_regs ws) @ dl_start_regs @ [(CCR, CCR_RSTALL)])"

lemma ninsn_le: "ninsn_of l \<le> STORE_WORDS"
  by (simp add: ninsn_of_def Let_def)

lemma ucode_chip_emits:
  assumes "mot s"
  shows "emits (chip_writes (datasheet opts) b) (s\<lparr>cbase := word_of_nat (chip_off ! c)\<rparr>)
    (snd (snd (ucode_chip opts b c s)))"
proof -
  let ?s0 = "s\<lparr>cbase := word_of_nat (chip_off ! c)\<rparr>"
  let ?n = "ninsn_of (length b)"
  define s1 where "s1 = snd (rd 0x81 ?s0)"
  define s2 where "s2 = dl_setup (datasheet opts) s1"
  define s3 where "s3 = foldl (\<lambda>s i. put (insn_at b (length b) (word_of_nat i)) s) s2 [0..<?n]"
  define s4 where "s4 = foldl (\<lambda>s i. put 0x1E000 s) s3 [?n..<STORE_WORDS]"
  define s5 where "s5 = dl_start s4"
  define s6 where "s6 = wr (word_of_nat 0x13) 0x10 s5"
  define s7 where "s7 = snd (poll_reg TRIES 0x13 (\<lambda>v. v = 0) 0xff s6)"
  define s8 where "s8 = snd (poll_reg TRIES 0x81 (\<lambda>v. v \<noteq> 0 \<and> v \<noteq> 0xff) (fst (rd 0x81 ?s0)) s7)"
  have e: "snd (snd (ucode_chip opts b c s)) = s8"
    by (simp add: ucode_chip_def Let_def case_prod_unfold s8_def s7_def s6_def s5_def s4_def s3_def s2_def s1_def)
  have m0: "mot ?s0" using assms by (simp add: mot_def)
  have m1: "emits [] ?s0 s1" unfolding s1_def using m0 by (rule emits_rd)
  have m2: "emits (tool_setup (datasheet opts)) s1 s2" unfolding s2_def using emits_mot [OF m1] by (rule emits_setup)
  have m3: "emits (concat (map (\<lambda>i. insn_regs (ucode_insn b (word_of_nat i))) [0..<?n])) s2 s3"
    unfolding s3_def insn_at_eq using emits_mot [OF m2] by (rule emits_puts)
  have m4: "emits (concat (map (\<lambda>i. insn_regs 0x1E000) [?n..<STORE_WORDS])) s3 s4"
    unfolding s4_def using emits_mot [OF m3] by (rule emits_puts)
  have m5: "emits dl_start_regs s4 s5" unfolding s5_def using emits_mot [OF m4] by (rule emits_start)
  have m6: "emits [(CCR, CCR_RSTALL)] s5 s6" unfolding s6_def using emits_mot [OF m5] by (rule emits_wr)
  have m7: "emits [] s6 s7" unfolding s7_def using emits_mot [OF m6] by (rule emits_poll)
  have m8: "emits [] s7 s8" unfolding s8_def using emits_mot [OF m7] by (rule emits_poll)
  have r: "map (\<lambda>i. insn_regs 0x1E000) [?n..<STORE_WORDS] = map insn_regs (replicate (STORE_WORDS - ?n) 0x1E000)"
    by (simp add: map_replicate_const)
  from emits_trans [OF m1 emits_trans [OF m2 emits_trans [OF m3 emits_trans [OF m4
        emits_trans [OF m5 emits_trans [OF m6 emits_trans [OF m7 m8]]]]]]]
  show ?thesis
    unfolding e r by (simp add: chip_writes_def Let_def comp_def)
qed

section \<open>The driver's writes\<close>

fun cwrites :: "nat \<Rightarrow> cev list \<Rightarrow> (nat \<times> u8) list" where
  "cwrites c [] = []"
| "cwrites c (WrB (Reg c' r) v # h) = (if c' = c then cwrites c h @ [(r, v)] else cwrites c h)"
| "cwrites c (_ # h) = cwrites c h"

lemma cwrites_cwrs: "cwrites c (evs (cwrs c ws s)) = cwrites c (evs s) @ ws"
  by (induction ws arbitrary: s) auto

lemma cwrites_grows: "grows (plain_read c') s s' \<Longrightarrow> cwrites c (evs s') = cwrites c (evs s)"
proof (elim growsE)
  fix pre assume "evs s' = pre @ evs s" "list_all (plain_read c') pre"
  moreover have "list_all (plain_read c') pre \<Longrightarrow> cwrites c (pre @ h) = cwrites c h" for h
    by (induction pre) (auto elim!: plain_read.elims)
  ultimately show ?thesis by simp
qed

lemma cwrites_insns:
  "cwrites c (evs (foldl (\<lambda>s i. cwrs c (f i) s) s ns)) = cwrites c (evs s) @ concat (map f ns)"
  by (induction ns arbitrary: s) (simp_all add: cwrites_cwrs)

lemma download_writes:
  assumes "nm32a_download b insns c s = Some (r, s')"
  shows "cwrites c (evs s') = cwrites c (evs s) @ dl_setup_regs @
    concat (map (\<lambda>i. insn_regs (ucode_insn b (word_of_nat i))) [0..<insns]) @ dl_start_regs @ [(CCR, CCR_RSTALL)]"
proof -
  obtain v0 s0 s1 s2 s3 n s4 v where
      r0: "crd c GFRCR s = Some (v0, s0)" and s1: "s1 = cwrs c dl_setup_regs s0"
    and s2: "s2 = foldl (\<lambda>s i. cwrs c (insn_regs (ucode_insn b (word_of_nat i))) s) s1 [0..<insns]"
    and s3: "s3 = cwrs c (dl_start_regs @ [(CCR, CCR_RSTALL)]) s2"
    and r4: "ccr_wait c s3 = Some (n, s4)" and r5: "gfrcr_poll GFRCR_TRIES c 0 s4 = Some (v, s')"
    using assms by (rule download_steps)
  have "cwrites c (evs s0) = cwrites c (evs s)" using r0 by (simp add: crd_Some)
  then show ?thesis
    using cwrites_grows [OF gfrcr_poll_Some(1) [OF r5]] cwrites_grows [OF ccr_wait_Some(1) [OF r4]]
    by (simp add: s3 s2 s1 cwrites_cwrs cwrites_insns)
qed

section \<open>Properties of the tool\<close>

text \<open>C18. Run with its defaults on a blob of at least 8192 instructions, the tool makes, on each chip,
  exactly the byte writes that the driver's own download of that blob makes, in the same order and at
  the same addresses.\<close>

theorem tool_matches_driver:
  assumes "mot s" and "datasheet opts = False" and "ninsn_of (length b) = STORE_WORDS"
    and "nm32a_download b STORE_WORDS c d = Some (r, d')"
  shows "\<exists>ws. cwrites c (evs d') = cwrites c (evs d) @ ws \<and>
    twrites (thist (snd (snd (ucode_chip opts b c s)))) =
      twrites (thist s) @ map (\<lambda>(reg, v). (word_of_nat (chip_off ! c + reg), v)) ws"
proof -
  have "twrites (thist (snd (snd (ucode_chip opts b c s)))) =
      twrites (thist s) @ at_base (word_of_nat (chip_off ! c)) (chip_writes False b)"
    using ucode_chip_emits [OF assms(1), of opts b c] assms(2) by (simp add: emits_def)
  moreover have "cwrites c (evs d') = cwrites c (evs d) @ chip_writes False b"
    using download_writes [OF assms(4)] assms(3)
    by (simp add: chip_writes_def tool_setup_def Let_def comp_def)
  ultimately show ?thesis by (auto simp: at_base_def)
qed

text \<open>The tool always fills the 8192-word store: the instructions of the blob (at most 8192), then
  0x1E000 up to the end, each as one AIR load and one single step, between the setup that was asked
  for and the start sequence and Reset All command.\<close>

lemma tool_fills_store:
  assumes "mot s"
  shows "\<exists>ws. length ws = 8192 \<and>
    (\<forall>i < 8192. ws ! i = (if i < ninsn_of (length b) then insn_at b (length b) (word_of_nat i) else 0x1E000)) \<and>
    twrites (thist (snd (snd (ucode_chip opts b c s)))) = twrites (thist s) @
      at_base (word_of_nat (chip_off ! c))
        (tool_setup (datasheet opts) @ concat (map insn_regs ws) @ dl_start_regs @ [(CCR, CCR_RSTALL)])"
proof -
  let ?n = "ninsn_of (length b)"
  let ?ws = "map (\<lambda>i. ucode_insn b (word_of_nat i)) [0..<?n] @ replicate (STORE_WORDS - ?n) 0x1E000"
  have "length ?ws = 8192" using ninsn_le [of "length b"] by (simp add: STORE_WORDS_def)
  moreover have "\<forall>i < 8192. ?ws ! i = (if i < ?n then insn_at b (length b) (word_of_nat i) else 0x1E000)"
    using ninsn_le [of "length b"] by (simp add: nth_append insn_at_eq STORE_WORDS_def)
  moreover have "twrites (thist (snd (snd (ucode_chip opts b c s)))) = twrites (thist s) @
      at_base (word_of_nat (chip_off ! c))
        (tool_setup (datasheet opts) @ concat (map insn_regs ?ws) @ dl_start_regs @ [(CCR, CCR_RSTALL)])"
    using ucode_chip_emits [OF assms, of opts b c] by (simp add: emits_def chip_writes_def Let_def)
  ultimately show ?thesis by blast
qed

lemma mot_start: "mot (start_tool w default_opts)"
  by (simp add: mot_def start_tool_def default_opts_def Let_def)

theorem tool_matches_driver_witness:
  "\<exists>d' ws. nm32a_download (replicate 18432 0) STORE_WORDS 2 (kzalloc_card idle_hw default_params) = Some (- EIO, d') \<and>
    cwrites 2 (evs d') = ws \<and>
    twrites (thist (snd (snd (ucode_chip default_opts (replicate 18432 0) 2 (start_tool (\<lambda>h off. 0) default_opts))))) =
      map (\<lambda>(reg, v). (word_of_nat (chip_off ! 2 + reg), v)) ws"
proof -
  define b :: "u8 list" where "b = replicate 18432 0"
  let ?d = "kzalloc_card idle_hw default_params"
  obtain d' where d: "nm32a_download b STORE_WORDS 2 ?d = Some (- EIO, d')"
    using idle_download [OF demo_fields(1)] by blast
  have n: "ninsn_of (length b) = STORE_WORDS" by (simp add: ninsn_of_def STORE_WORDS_def b_def)
  have ds: "datasheet default_opts = False" by (simp add: default_opts_def)
  have z: "cwrites 2 (evs ?d) = []" "twrites (thist (start_tool (\<lambda>h off. 0) default_opts)) = []"
    by (simp_all add: start_tool_def default_opts_def Let_def)
  obtain ws where "cwrites 2 (evs d') = cwrites 2 (evs ?d) @ ws"
      "twrites (thist (snd (snd (ucode_chip default_opts b 2 (start_tool (\<lambda>h off. 0) default_opts))))) =
        twrites (thist (start_tool (\<lambda>h off. 0) default_opts)) @
        map (\<lambda>(reg, v). (word_of_nat (chip_off ! 2 + reg), v)) ws"
    using tool_matches_driver [OF mot_start ds n d] by blast
  with d show ?thesis unfolding z append_Nil b_def by (intro exI conjI)
qed


section \<open>The program\<close>

lemma ucode_lines_run:
  "snd (ucode_lines opts b cs s) =
     foldl (\<lambda>s c. if only opts \<ge> 0 \<and> int c \<noteq> only opts then s else snd (snd (ucode_chip opts b c s))) s cs"
  by (induction cs arbitrary: s) (simp_all add: Let_def case_prod_unfold)

text \<open>The tool reaches the card only when it ends with status 0, and then it has made exactly the accesses of the
  download of the chips that were asked for, on the file's bytes.\<close>

lemma main_status:
  assumes "ucode_main files mem_opens mapped args = (r, ls, h)"
  defines "opts \<equiv> parse_args args default_opts"
  shows "(r = 0 \<and> (\<exists>f b w. path opts = Some f \<and> files f = Some (Some b) \<and> mem_opens \<and> mapped (base opts) = Some w \<and>
      h = thist (ucode_run opts b (start_tool w opts)))) \<or>
    ((r = 1 \<or> r = 2 \<and> path opts = None) \<and> h = [])"
  using assms(1)
  by (auto simp: ucode_main_def Let_def opts_def ucode_run_def case_prod_unfold ucode_lines_run
      split: option.splits if_splits)

text \<open>A poll that ends before its count ends on a read of the value it waits for: the line of a chip says that the
  processor runs only if CCR was read as zero after the reset command.\<close>

lemma poll_reg_saw:
  "poll_reg (Suc n) reg ok v s = (x, t) \<Longrightarrow> \<exists>off h. thist t = TRd off x # h \<and> off = cbase s + (reg XOR lane s)"
proof (induction n arbitrary: v s)
  case (Suc n)
  let ?r = "rd reg s"
  show ?case
  proof (cases "ok (fst ?r)")
    case True
    with Suc.prems show ?thesis by (auto simp: rd_def Let_def)
  next
    case False
    then have "poll_reg (Suc n) reg ok (fst ?r) (snd ?r) = (x, t)"
      using Suc.prems by (simp add: case_prod_unfold)
    from Suc.IH [OF this] show ?thesis by (simp add: rd_def Let_def)
  qed
qed (auto simp: rd_def Let_def split: if_splits)

text \<open>Nothing bounds the lane: with \<open>--xor 0x2000\<close> every access lies outside the two pages that are mapped.\<close>

lemma lane_leaves_map:
  assumes "olane opts = 0x2000" and "c < NM32A_CHIPS"
  shows "\<exists>off v. thist (snd (rd 0x81 ((start_tool w opts)\<lparr>cbase := word_of_nat (chip_off ! c)\<rparr>))) = [TRd off v] \<and>
    0x2000 \<le> off"
  using assms(1) less_8_cases [OF assms(2)]
  by (elim disjE) (simp_all add: start_tool_def rd_def Let_def chip_off_def)

end
