(* ===== verification/Mv64340_Irq.thy ===== *)
theory Mv64340_Irq
  imports Prelude Interfaces
begin

text \<open>
  Interrupts of the board: the MV64340 demultiplexer (\<open>mv64340_irq.c\<close>) and the CP0 dispatch with
  its runaway guard (\<open>irq.c\<close>).

  The cause registers, the CP0 cause register and which interrupts a driver has claimed are inputs:
  arguments of the handlers.  The mask registers, CP0 Status, the two report bitmaps, the pending
  delayed work and the calls into the kernel (\<open>do_IRQ\<close>, \<open>request_irq\<close>,
  \<open>spurious_interrupt\<close>, \<open>irq_set_chip_and_handler\<close>) are the state.
\<close>

abbreviation (input) MV_IRQ_BASE :: nat where "MV_IRQ_BASE \<equiv> 8"
abbreviation (input) MV_NR_IRQS :: nat where "MV_NR_IRQS \<equiv> 64"

datatype kcall = DoIRQ nat | Spurious | SetChip nat | RequestIRQ nat

record icu =
  mask0_low :: u32
  mask0_high :: u32
  mask1_low :: u32
  mask1_high :: u32
  unclaimed :: "64 word"
  unclaimed_work :: bool
  c0_status :: u32
  runaway :: u32
  runaway_work :: bool
  kcalls :: "kcall list"

section \<open>The MV64340 controller\<close>

text \<open>\<open>__ffs\<close>: the lowest set bit.\<close>

definition ffs :: "u32 \<Rightarrow> nat" where
  "ffs w = length (takeWhile (\<lambda>i. \<not> bit w i) [0..<32])"

definition mask_bit :: "nat \<Rightarrow> icu \<Rightarrow> icu" where
  "mask_bit b s =
     (if b < 32 then s\<lparr>mask0_low := mask0_low s AND NOT (push_bit (b mod 32) 1)\<rparr>
      else s\<lparr>mask0_high := mask0_high s AND NOT (push_bit (b mod 32) 1)\<rparr>)"

definition mv64340_irq_mask :: "nat \<Rightarrow> icu \<Rightarrow> icu" where
  "mv64340_irq_mask irq s = mask_bit (irq - MV_IRQ_BASE) s"

definition mv64340_irq_unmask :: "nat \<Rightarrow> icu \<Rightarrow> icu" where
  "mv64340_irq_unmask irq s =
     (let b = irq - MV_IRQ_BASE in
      if b < 32 then s\<lparr>mask0_low := mask0_low s OR push_bit (b mod 32) 1\<rparr>
      else s\<lparr>mask0_high := mask0_high s OR push_bit (b mod 32) 1\<rparr>)"

text \<open>The demultiplexer, for the cause words \<open>cl\<close>, \<open>ch\<close> and the claimed interrupts.\<close>

definition mv64340_irq_dispatch :: "u32 \<Rightarrow> u32 \<Rightarrow> (nat \<Rightarrow> bool) \<Rightarrow> icu \<Rightarrow> bool \<times> icu" where
  "mv64340_irq_dispatch cl ch has_action s =
     (let lo = cl AND mask0_low s; hi = ch AND mask0_high s;
          found = (if lo \<noteq> 0 then Some (ffs lo) else if hi \<noteq> 0 then Some (32 + ffs hi) else None)
      in case found of
           None \<Rightarrow> (False, s)
         | Some b \<Rightarrow>
             (let irq = MV_IRQ_BASE + b in
              if \<not> has_action irq
              then (True, (mask_bit b s)\<lparr>unclaimed := unclaimed s OR push_bit b 1, unclaimed_work := True\<rparr>)
              else (True, s\<lparr>kcalls := DoIRQ irq # kcalls s\<rparr>)))"

text \<open>The deferred report: the bits printed, in order, each cleared.\<close>

definition mv_unclaimed_report :: "icu \<Rightarrow> nat list \<times> icu" where
  "mv_unclaimed_report s =
     (let bits = filter (\<lambda>b. bit (unclaimed s) b) [0..<MV_NR_IRQS]
      in (bits, s\<lparr>unclaimed := foldl (\<lambda>u b. u AND NOT (push_bit b 1)) (unclaimed s) bits,
                 unclaimed_work := False\<rparr>))"

definition mv64340_irq_init :: "icu \<Rightarrow> icu" where
  "mv64340_irq_init s =
     (let s = s\<lparr>mask0_low := 0\<rparr>; s = s\<lparr>mask0_high := 0\<rparr>; s = s\<lparr>mask1_low := 0\<rparr>; s = s\<lparr>mask1_high := 0\<rparr>
      in s\<lparr>kcalls := rev (map (\<lambda>i. SetChip (MV_IRQ_BASE + i)) [0..<MV_NR_IRQS]) @ kcalls s\<rparr>)"

section \<open>CP0 dispatch\<close>

abbreviation (input) ST0_IM :: u32 where "ST0_IM \<equiv> 0xff00"
abbreviation (input) CAUSEF_IP7 :: u32 where "CAUSEF_IP7 \<equiv> 0x8000"
abbreviation (input) CASCADE_IPS :: u32 where "CASCADE_IPS \<equiv> 0x7c00"

text \<open>The loop over IP2 to IP6 of \<open>mv64340_cascade_runaway\<close>.\<close>

definition runaway_ip :: "u32 \<Rightarrow> icu \<Rightarrow> nat \<Rightarrow> icu" where
  "runaway_ip pending s ip =
     (if \<not> bit pending (8 + ip) then s
      else s\<lparr>c0_status := c0_status s AND NOT (push_bit (8 + ip) 1), runaway := runaway s OR push_bit ip 1\<rparr>)"

definition mv64340_cascade_runaway :: "u32 \<Rightarrow> icu \<Rightarrow> icu" where
  "mv64340_cascade_runaway pending s = foldl (runaway_ip pending) s [2, 3, 4, 5, 6]"

definition cascade_runaway_report :: "icu \<Rightarrow> nat list \<times> icu" where
  "cascade_runaway_report s =
     (let ips = filter (\<lambda>b. bit (runaway s) b) [0..<8]
      in (ips, s\<lparr>runaway := foldl (\<lambda>u b. u AND NOT (push_bit b 1)) (runaway s) ips, runaway_work := False\<rparr>))"

definition plat_irq_dispatch :: "u32 \<Rightarrow> u32 \<Rightarrow> u32 \<Rightarrow> (nat \<Rightarrow> bool) \<Rightarrow> icu \<Rightarrow> icu" where
  "plat_irq_dispatch c0_cause cl ch has_action s =
     (let pending = c0_status s AND c0_cause AND ST0_IM in
      if pending AND CAUSEF_IP7 \<noteq> 0 then s\<lparr>kcalls := DoIRQ 7 # kcalls s\<rparr>
      else if pending AND CASCADE_IPS \<noteq> 0 then
        (let (claimed, s) = mv64340_irq_dispatch cl ch has_action s in
         if claimed then s else mv64340_cascade_runaway pending s)
      else s\<lparr>kcalls := Spurious # kcalls s\<rparr>)"

text \<open>\<open>mips_cpu_irq_init\<close> is the kernel's; it is a parameter.\<close>

definition cascade_ip :: "nat list" where "cascade_ip = [2, 3, 4, 5, 6]"

definition arch_init_irq :: "(icu \<Rightarrow> icu) \<Rightarrow> icu \<Rightarrow> icu" where
  "arch_init_irq mips_cpu_irq_init s =
     (let s = mips_cpu_irq_init s;
          s = mv64340_irq_init s;
          s = s\<lparr>runaway_work := True\<rparr>
      in s\<lparr>kcalls := rev (map RequestIRQ cascade_ip) @ kcalls s\<rparr>)"

section \<open>Bits\<close>

lemma ffs_bit:
  assumes "w \<noteq> 0"
  shows "ffs w < 32 \<and> bit w (ffs w) \<and> (\<forall>j < ffs w. \<not> bit w j)"
proof -
  let ?t = "takeWhile (\<lambda>i. \<not> bit w i) [0..<32]"
  have "\<exists>n < 32. bit w n"
  proof (rule ccontr)
    assume "\<not> (\<exists>n < 32. bit w n)"
    then have "w = 0" by (intro bit_word_eqI) auto
    with assms show False by simp
  qed
  then obtain n where n: "n < 32" "bit w n" by blast
  have len: "ffs w < 32"
  proof (rule ccontr)
    assume "\<not> ffs w < 32"
    moreover have "length ?t \<le> length [0..<32]" by (rule length_takeWhile_le)
    ultimately have "length ?t = length [0..<32]" by (simp add: ffs_def del: upt_rec_numeral)
    then have "?t = [0..<32]" by (metis takeWhile_eq_take take_all_iff le_refl)
    then have "\<forall>i \<in> set [0..<32]. \<not> bit w i" by (metis takeWhile_eq_all_conv)
    with n show False by simp
  qed
  have "\<not> \<not> bit w ([0..<32] ! length ?t)"
    using nth_length_takeWhile [of "\<lambda>i. \<not> bit w i" "[0..<32]"] len by (simp add: ffs_def del: upt_rec_numeral)
  moreover have "[0..<32] ! length ?t = ffs w" using len by (simp add: ffs_def del: upt_rec_numeral)
  moreover have "\<not> bit w j" if "j < ffs w" for j
  proof -
    have "?t ! j = j" using that len takeWhile_nth [of j "\<lambda>i. \<not> bit w i" "[0..<32]"]
      by (simp add: ffs_def del: upt_rec_numeral)
    then show ?thesis using that by (metis ffs_def nth_mem set_takeWhileD)
  qed
  ultimately show ?thesis using len by simp
qed

section \<open>The sources as maskable banks\<close>

definition src_enabled :: "icu \<Rightarrow> nat \<Rightarrow> bool" where
  "src_enabled s j = (if j < 32 then bit (mask0_low s) j else bit (mask0_high s) (j - 32))"

definition src_pending :: "u32 \<Rightarrow> u32 \<Rightarrow> nat \<Rightarrow> bool" where
  "src_pending cl ch j = (if j < 32 then bit cl j else bit ch (j - 32))"

text \<open>The simplifier writes \<open>push_bit i 1\<close> as a power of two.\<close>

lemma bit_clear: "i < 32 \<Longrightarrow> bit (w AND NOT (2 ^ i) :: u32) j \<longleftrightarrow> bit w j \<and> j \<noteq> i"
  by (auto simp: bit_and_iff bit_not_iff bit_exp_iff dest: bit_imp_le_length)

lemma bit_set: "i < 32 \<Longrightarrow> bit (w OR 2 ^ i :: u32) j \<longleftrightarrow> bit w j \<or> j = i"
  by (auto simp: bit_or_iff bit_exp_iff dest: bit_imp_le_length)

lemma mod_32: "j < 64 \<Longrightarrow> \<not> j < 32 \<Longrightarrow> j mod 32 = j - (32::nat)"
  by (simp add: le_mod_geq)

interpretation mv: maskable src_enabled "\<lambda>s i. mask_bit i s" 64
proof unfold_locales
  fix i j :: nat and s
  assume "i < 64" and "j < 64"
  then show "src_enabled (mask_bit i s) j \<longleftrightarrow> src_enabled s j \<and> j \<noteq> i"
    by (auto simp: src_enabled_def mask_bit_def bit_clear mod_32)
qed

definition line_enabled :: "icu \<Rightarrow> nat \<Rightarrow> bool" where
  "line_enabled s i = bit (c0_status s) (10 + i)"

definition mask_line :: "icu \<Rightarrow> nat \<Rightarrow> icu" where
  "mask_line s i = s\<lparr>c0_status := c0_status s AND NOT (push_bit (10 + i) 1)\<rparr>"

interpretation cp0: maskable line_enabled mask_line 5
  by unfold_locales (auto simp: line_enabled_def mask_line_def bit_clear)

lemma unmask_enabled:
  "i < 64 \<Longrightarrow> j < 64 \<Longrightarrow> src_enabled (mv64340_irq_unmask (8 + i) s) j \<longleftrightarrow> src_enabled s j \<or> j = i"
  by (auto simp: src_enabled_def mv64340_irq_unmask_def Let_def bit_set mod_32)

section \<open>The demultiplexer\<close>

text \<open>The source the demultiplexer takes: the lowest that is pending and enabled.\<close>

definition first_source :: "u32 \<Rightarrow> u32 \<Rightarrow> icu \<Rightarrow> nat option" where
  "first_source cl ch s =
     (case filter (\<lambda>j. src_pending cl ch j \<and> src_enabled s j) [0..<64] of [] \<Rightarrow> None | j # _ \<Rightarrow> Some j)"

lemma filter_upt_first:
  "(\<And>j. j < k \<Longrightarrow> \<not> P j) \<Longrightarrow> k < n \<Longrightarrow> P k \<Longrightarrow> \<exists>js. filter P [0..<n] = k # js"
proof -
  assume a: "\<And>j. j < k \<Longrightarrow> \<not> P j" "k < n" "P k"
  then have "[0..<n] = [0..<k] @ k # [Suc k..<n]"
    by (metis le_add1 less_imp_le_nat upt_add_eq_append upt_conv_Cons le_add_diff_inverse add_0)
  moreover have "filter P [0..<k] = []" using a(1) by (simp add: filter_empty_conv)
  ultimately show ?thesis using a(3) by simp
qed

lemma first_source_spec:
  "first_source cl ch s =
    (let lo = cl AND mask0_low s; hi = ch AND mask0_high s in
     if lo \<noteq> 0 then Some (ffs lo) else if hi \<noteq> 0 then Some (32 + ffs hi) else None)"
proof -
  let ?lo = "cl AND mask0_low s" and ?hi = "ch AND mask0_high s"
  let ?P = "\<lambda>j. src_pending cl ch j \<and> src_enabled s j"
  have lo: "j < 32 \<Longrightarrow> ?P j \<longleftrightarrow> bit ?lo j" for j
    by (simp add: src_pending_def src_enabled_def bit_and_iff)
  have hi: "\<not> j < 32 \<Longrightarrow> ?P j \<longleftrightarrow> bit ?hi (j - 32)" for j
    by (simp add: src_pending_def src_enabled_def bit_and_iff)
  consider (low) "?lo \<noteq> 0" | (high) "?lo = 0" "?hi \<noteq> 0" | (none) "?lo = 0" "?hi = 0" by blast
  then show ?thesis
  proof cases
    case low
    note F = ffs_bit [OF low]
    have "\<exists>js. filter ?P [0..<64] = ffs ?lo # js"
      by (rule filter_upt_first) (use F lo in auto)
    with low show ?thesis by (auto simp: first_source_def Let_def)
  next
    case high
    note F = ffs_bit [OF high(2)]
    have "\<not> ?P j" if "j < 32 + ffs ?hi" for j
    proof (cases "j < 32")
      case True
      then show ?thesis using lo [of j] high(1) by simp
    next
      case False
      then have "j - 32 < ffs ?hi" using that by linarith
      with F hi [OF False] show ?thesis by simp
    qed
    moreover have "?P (32 + ffs ?hi)" using hi [of "32 + ffs ?hi"] F by simp
    ultimately have "\<exists>js. filter ?P [0..<64] = (32 + ffs ?hi) # js"
      using F by (intro filter_upt_first) auto
    with high show ?thesis by (auto simp: first_source_def Let_def)
  next
    case none
    then have "\<not> ?P j" for j using lo [of j] hi [of j] by (cases "j < 32") simp_all
    then have "filter ?P [0..<64] = []" by (simp add: filter_empty_conv del: upt_rec_numeral)
    with none show ?thesis by (simp add: first_source_def Let_def del: upt_rec_numeral)
  qed
qed

lemma first_sourceD:
  assumes "first_source cl ch s = Some j"
  shows "j < 64" and "src_pending cl ch j" and "src_enabled s j"
    and "\<And>k. k < j \<Longrightarrow> \<not> (src_pending cl ch k \<and> src_enabled s k)"
proof -
  let ?P = "\<lambda>j. src_pending cl ch j \<and> src_enabled s j"
  obtain js where f: "filter ?P [0..<64] = j # js"
    using assms by (auto simp: first_source_def split: list.splits)
  then have "j \<in> set (filter ?P [0..<64])" by simp
  then show "j < 64" "src_pending cl ch j" "src_enabled s j" by auto
  show "\<not> ?P k" if "k < j" for k
  proof
    assume "?P k"
    with that \<open>j < 64\<close> have "k \<in> set (j # js)" unfolding f [symmetric] by simp
    with that have "k \<in> set js" by simp
    moreover have "sorted (j # js)" unfolding f [symmetric] by (simp add: sorted_wrt_filter del: upt_rec_numeral)
    ultimately show False using that by fastforce
  qed
qed

lemma dispatch_alt:
  "mv64340_irq_dispatch cl ch has_action s = (case first_source cl ch s of
     None \<Rightarrow> (False, s)
   | Some b \<Rightarrow>
       (True, if has_action (8 + b) then s\<lparr>kcalls := DoIRQ (8 + b) # kcalls s\<rparr>
              else (mask_bit b s)\<lparr>unclaimed := unclaimed s OR push_bit b 1, unclaimed_work := True\<rparr>))"
  unfolding mv64340_irq_dispatch_def first_source_spec Let_def by (simp split: option.split)

section \<open>The runaway guard\<close>

text \<open>The guard masks every asserted cascade line and records it.\<close>

lemma runaway_ip_alt:
  "runaway_ip pending s (2 + i) =
     (if bit pending (10 + i) then (mask_line s i)\<lparr>runaway := runaway s OR push_bit (2 + i) 1\<rparr> else s)"
  by (simp add: runaway_ip_def mask_line_def)

lemma fold_runaway:
  "set is \<subseteq> {..<5} \<Longrightarrow>
   cp0.sources_on (foldl (\<lambda>s i. runaway_ip pending s (2 + i)) s is) =
     cp0.sources_on s - {i \<in> set is. bit pending (10 + i)} \<and>
   kcalls (foldl (\<lambda>s i. runaway_ip pending s (2 + i)) s is) = kcalls s \<and>
   mv.sources_on (foldl (\<lambda>s i. runaway_ip pending s (2 + i)) s is) = mv.sources_on s \<and>
   (\<forall>j < 32. bit (runaway (foldl (\<lambda>s i. runaway_ip pending s (2 + i)) s is)) j \<longleftrightarrow>
      bit (runaway s) j \<or> (\<exists>i \<in> set is. j = 2 + i \<and> bit pending (10 + i)))"
proof (induction "is" arbitrary: s)
  case (Cons i "is")
  let ?t = "runaway_ip pending s (2 + i)"
  have i: "i < 5" using Cons.prems by simp
  have off: "cp0.sources_on ?t = cp0.sources_on s - (if bit pending (10 + i) then {i} else {})"
    using cp0.sources_on_mask [OF i, of s] unfolding runaway_ip_alt
    by (simp add: cp0.sources_on_def line_enabled_def)
  have oth: "kcalls ?t = kcalls s" "mv.sources_on ?t = mv.sources_on s"
    unfolding runaway_ip_alt by (simp_all add: mask_line_def mv.sources_on_def src_enabled_def)
  have rw: "bit (runaway ?t) j \<longleftrightarrow> bit (runaway s) j \<or> (j = 2 + i \<and> bit pending (10 + i))" for j
    using bit_set [of "2 + i" "runaway s" j] i unfolding runaway_ip_alt by (auto simp: mask_line_def)
  have "set is \<subseteq> {..<5}" using Cons.prems by simp
  note IH = Cons.IH [OF this, of ?t]
  have "cp0.sources_on s - (if bit pending (10 + i) then {i} else {}) - {i \<in> set is. bit pending (10 + i)} =
      cp0.sources_on s - {k \<in> set (i # is). bit pending (10 + k)}" by auto
  with IH off oth rw show ?case by auto
qed simp

lemma runaway_spec:
  "cp0.sources_on (mv64340_cascade_runaway pending s) = cp0.sources_on s - {i. i < 5 \<and> bit pending (10 + i)}"
  "kcalls (mv64340_cascade_runaway pending s) = kcalls s"
  "mv.sources_on (mv64340_cascade_runaway pending s) = mv.sources_on s"
  "j < 32 \<Longrightarrow> bit (runaway (mv64340_cascade_runaway pending s)) j \<longleftrightarrow>
     bit (runaway s) j \<or> (\<exists>i < 5. j = 2 + i \<and> bit pending (10 + i))"
proof -
  have l: "[2, 3, 4, 5, 6] = map (\<lambda>i. 2 + i) [0, 1, 2, 3, 4 :: nat]" by simp
  have e: "mv64340_cascade_runaway pending s = foldl (\<lambda>s i. runaway_ip pending s (2 + i)) s [0, 1, 2, 3, 4]"
    unfolding mv64340_cascade_runaway_def l foldl_map ..
  have set: "set [0, 1, 2, 3, 4 :: nat] = {..<5}" by (auto simp: less_Suc_eq numeral_eq_Suc)
  have "{i \<in> set [0, 1, 2, 3, 4]. bit pending (10 + i)} = {i. i < 5 \<and> bit pending (10 + i)}"
    unfolding set by auto
  with fold_runaway [of "[0, 1, 2, 3, 4]" pending s] set
  show "cp0.sources_on (mv64340_cascade_runaway pending s) = cp0.sources_on s - {i. i < 5 \<and> bit pending (10 + i)}"
    "kcalls (mv64340_cascade_runaway pending s) = kcalls s"
    "mv.sources_on (mv64340_cascade_runaway pending s) = mv.sources_on s"
    "j < 32 \<Longrightarrow> bit (runaway (mv64340_cascade_runaway pending s)) j \<longleftrightarrow>
     bit (runaway s) j \<or> (\<exists>i < 5. j = 2 + i \<and> bit pending (10 + i))"
    unfolding e by (simp_all del: list.set) blast
qed

text \<open>A pending cascade line is one of IP2 to IP6, enabled in Status.\<close>

lemma cascade_pending:
  assumes "(c0_status s AND cause AND ST0_IM) AND CASCADE_IPS \<noteq> 0"
  shows "\<exists>i < 5. line_enabled s i \<and> bit (c0_status s AND cause AND ST0_IM) (10 + i)"
proof -
  let ?w = "(c0_status s AND cause AND ST0_IM) AND CASCADE_IPS"
  note F = ffs_bit [OF assms]
  have m: "CASCADE_IPS = push_bit 10 (mask 5) " by (simp add: mask_eq_exp_minus_1 push_bit_eq_mult)
  from F have "bit (push_bit 10 (mask 5) :: u32) (ffs ?w)" unfolding m [symmetric] by (simp only: bit_and_iff)
  then have r: "10 \<le> ffs ?w" "ffs ?w < 15"
    by (auto simp: bit_push_bit_iff bit_mask_iff)
  from F have "bit (c0_status s) (ffs ?w)" "bit (c0_status s AND cause AND ST0_IM) (ffs ?w)"
    by (simp_all only: bit_and_iff)
  with r show ?thesis
    by (intro exI [of _ "ffs ?w - 10"]) (auto simp: line_enabled_def)
qed

section \<open>An unproductive interrupt masks something\<close>

definition armed :: "icu \<Rightarrow> nat" where
  "armed s = card (mv.sources_on s) + card (cp0.sources_on s)"

lemma armed_le: "armed s \<le> 69"
  using mv.card_sources_on_le [of s] cp0.card_sources_on_le [of s] by (simp add: armed_def)

lemma armed_cong:
  "mask0_low s' = mask0_low s \<Longrightarrow> mask0_high s' = mask0_high s \<Longrightarrow> c0_status s' = c0_status s \<Longrightarrow> armed s' = armed s"
  by (simp add: armed_def mv.sources_on_def cp0.sources_on_def src_enabled_def line_enabled_def)

text \<open>One call of the dispatch: it calls into the kernel once, or it disarms something for good.\<close>

lemma dispatch_progress:
  "(\<exists>k. kcalls (plat_irq_dispatch cause cl ch ha s) = k # kcalls s) \<and>
     armed (plat_irq_dispatch cause cl ch ha s) = armed s \<or>
   kcalls (plat_irq_dispatch cause cl ch ha s) = kcalls s \<and>
     armed (plat_irq_dispatch cause cl ch ha s) < armed s"
proof -
  let ?p = "c0_status s AND cause AND ST0_IM"
  let ?t = "plat_irq_dispatch cause cl ch ha s"
  consider (timer) "?p AND CAUSEF_IP7 \<noteq> 0"
    | (cascade) "?p AND CAUSEF_IP7 = 0" "?p AND CASCADE_IPS \<noteq> 0"
    | (none) "?p AND CAUSEF_IP7 = 0" "?p AND CASCADE_IPS = 0" by blast
  then show ?thesis
  proof cases
    case timer
    then have t: "?t = s\<lparr>kcalls := DoIRQ 7 # kcalls s\<rparr>" by (simp add: plat_irq_dispatch_def Let_def)
    show ?thesis unfolding t using armed_cong [of "s\<lparr>kcalls := DoIRQ 7 # kcalls s\<rparr>" s] by simp
  next
    case none
    then have t: "?t = s\<lparr>kcalls := Spurious # kcalls s\<rparr>" by (simp add: plat_irq_dispatch_def Let_def)
    show ?thesis unfolding t using armed_cong [of "s\<lparr>kcalls := Spurious # kcalls s\<rparr>" s] by simp
  next
    case cascade
    show ?thesis
    proof (cases "first_source cl ch s")
      case None
      with cascade have t: "?t = mv64340_cascade_runaway ?p s"
        by (simp add: plat_irq_dispatch_def dispatch_alt Let_def)
      obtain i where "i < 5" "line_enabled s i" "bit ?p (10 + i)" using cascade_pending [OF cascade(2)] by blast
      then have "cp0.sources_on (mv64340_cascade_runaway ?p s) \<subset> cp0.sources_on s"
        unfolding runaway_spec by (auto simp: cp0.sources_on_def)
      then have "card (cp0.sources_on ?t) < card (cp0.sources_on s)"
        unfolding t by (intro psubset_card_mono) simp_all
      then show ?thesis by (simp add: t armed_def runaway_spec)
    next
      case (Some b)
      note F = first_sourceD [OF Some]
      show ?thesis
      proof (cases "ha (8 + b)")
        case True
        with cascade Some have t: "?t = s\<lparr>kcalls := DoIRQ (8 + b) # kcalls s\<rparr>"
          by (simp add: plat_irq_dispatch_def dispatch_alt Let_def)
        show ?thesis unfolding t using armed_cong [of "s\<lparr>kcalls := DoIRQ (8 + b) # kcalls s\<rparr>" s] by simp
      next
        case False
        let ?m = "(mask_bit b s)\<lparr>unclaimed := unclaimed s OR push_bit b 1, unclaimed_work := True\<rparr>"
        from False cascade Some have t: "?t = ?m"
          by (simp add: plat_irq_dispatch_def dispatch_alt Let_def)
        have "armed ?m = armed (mask_bit b s)" by (rule armed_cong) simp_all
        moreover have "cp0.sources_on (mask_bit b s) = cp0.sources_on s"
          by (simp add: cp0.sources_on_def line_enabled_def mask_bit_def)
        moreover have "kcalls ?m = kcalls s" by (simp add: mask_bit_def)
        ultimately show ?thesis
          using mv.card_mask_less [OF F(1,3)] by (simp add: t armed_def)
      qed
    qed
  qed
qed

text \<open>A sequence of interrupts, each with its own hardware state and set of claimed sources.\<close>

fun dispatches :: "(u32 \<times> u32 \<times> u32 \<times> (nat \<Rightarrow> bool)) list \<Rightarrow> icu \<Rightarrow> icu" where
  "dispatches [] s = s"
| "dispatches ((cause, cl, ch, ha) # ins) s = dispatches ins (plat_irq_dispatch cause cl ch ha s)"

lemma dispatches_progress:
  "length ins + length (kcalls s) + armed (dispatches ins s) \<le> length (kcalls (dispatches ins s)) + armed s"
proof (induction ins s rule: dispatches.induct)
  case (2 cause cl ch ha ins s)
  let ?t = "plat_irq_dispatch cause cl ch ha s"
  have "Suc (length (kcalls s)) + armed ?t \<le> length (kcalls ?t) + armed s"
    using dispatch_progress [of cause cl ch ha s] by auto
  with 2 show ?case by simp
qed simp

section \<open>Invariants of the dispatch\<close>

lemma plat_alt:
  "plat_irq_dispatch cause cl ch ha s =
     (let p = c0_status s AND cause AND ST0_IM in
      if p AND CAUSEF_IP7 \<noteq> 0 then s\<lparr>kcalls := DoIRQ 7 # kcalls s\<rparr>
      else if p AND CASCADE_IPS \<noteq> 0 then
        (case first_source cl ch s of
           None \<Rightarrow> mv64340_cascade_runaway p s
         | Some b \<Rightarrow>
             if ha (8 + b) then s\<lparr>kcalls := DoIRQ (8 + b) # kcalls s\<rparr>
             else (mask_bit b s)\<lparr>unclaimed := unclaimed s OR push_bit b 1, unclaimed_work := True\<rparr>)
      else s\<lparr>kcalls := Spurious # kcalls s\<rparr>)"
  unfolding plat_irq_dispatch_def dispatch_alt Let_def by (simp split: option.split)

lemma dispatch_call:
  "kcalls (plat_irq_dispatch cause cl ch ha s) = kcalls s \<or>
   (\<exists>k. kcalls (plat_irq_dispatch cause cl ch ha s) = k # kcalls s \<and>
     (k = Spurious \<or> k = DoIRQ 7 \<or> (\<exists>irq. k = DoIRQ irq \<and> ha irq)))"
  unfolding plat_alt Let_def by (simp add: runaway_spec mask_bit_def split: option.split)

lemma dispatch_calls:
  "\<exists>new. kcalls (plat_irq_dispatch cause cl ch ha s) = new @ kcalls s \<and>
     (\<forall>k \<in> set new. k = Spurious \<or> k = DoIRQ 7 \<or> (\<exists>irq. k = DoIRQ irq \<and> ha irq))"
  using dispatch_call [of cause cl ch ha s]
proof
  assume "kcalls (plat_irq_dispatch cause cl ch ha s) = kcalls s"
  then show ?thesis by (intro exI [of _ "[]"]) simp
next
  assume "\<exists>k. kcalls (plat_irq_dispatch cause cl ch ha s) = k # kcalls s \<and>
     (k = Spurious \<or> k = DoIRQ 7 \<or> (\<exists>irq. k = DoIRQ irq \<and> ha irq))"
  then obtain k where "kcalls (plat_irq_dispatch cause cl ch ha s) = k # kcalls s"
      "k = Spurious \<or> k = DoIRQ 7 \<or> (\<exists>irq. k = DoIRQ irq \<and> ha irq)" by blast
  then show ?thesis by (intro exI [of _ "[k]"]) simp
qed

lemma dispatches_calls:
  "\<exists>new. kcalls (dispatches ins s) = new @ kcalls s \<and>
     (\<forall>k \<in> set new. k = Spurious \<or> k = DoIRQ 7 \<or> (\<exists>irq. k = DoIRQ irq \<and> (\<exists>(cause, cl, ch, ha) \<in> set ins. ha irq)))"
proof (induction ins s rule: dispatches.induct)
  case (2 cause cl ch ha ins s)
  let ?t = "plat_irq_dispatch cause cl ch ha s"
  let ?ok = "\<lambda>ins k. k = Spurious \<or> k = DoIRQ 7 \<or> (\<exists>irq. k = DoIRQ irq \<and> (\<exists>(cause, cl, ch, ha) \<in> set ins. ha irq))"
  obtain a where a: "kcalls ?t = a @ kcalls s" "\<forall>k \<in> set a. k = Spurious \<or> k = DoIRQ 7 \<or> (\<exists>irq. k = DoIRQ irq \<and> ha irq)"
    using dispatch_calls by blast
  obtain b where b: "kcalls (dispatches ins ?t) = b @ kcalls ?t" "\<forall>k \<in> set b. ?ok ins k"
    using 2 by blast
  have "?ok ((cause, cl, ch, ha) # ins) k" if k: "k \<in> set (b @ a)" for k
  proof (cases "k \<in> set a")
    case True
    with a(2) show ?thesis by fastforce
  next
    case False
    with k b(2) have "?ok ins k" by simp
    then show ?thesis by fastforce
  qed
  with a(1) b(1) show ?case by (intro exI [of _ "b @ a"]) simp
qed simp

definition report_due :: "icu \<Rightarrow> bool" where
  "report_due s \<longleftrightarrow> (unclaimed s \<noteq> 0 \<longrightarrow> unclaimed_work s)"

lemma runaway_frame:
  "unclaimed (mv64340_cascade_runaway p s) = unclaimed s"
  "unclaimed_work (mv64340_cascade_runaway p s) = unclaimed_work s"
  "runaway_work (mv64340_cascade_runaway p s) = runaway_work s"
  by (simp_all add: mv64340_cascade_runaway_def runaway_ip_def)

lemma dispatch_due: "report_due s \<Longrightarrow> report_due (plat_irq_dispatch cause cl ch ha s)"
  unfolding plat_alt Let_def by (simp add: report_due_def runaway_frame mask_bit_def split: option.split)

lemma dispatches_due: "report_due s \<Longrightarrow> report_due (dispatches ins s)"
  by (induction ins s rule: dispatches.induct) (auto intro: dispatch_due)

lemma dispatch_runaway_work: "runaway_work (plat_irq_dispatch cause cl ch ha s) = runaway_work s"
  unfolding plat_alt Let_def by (simp add: runaway_frame mask_bit_def split: option.split)

section \<open>Properties of the interrupt code\<close>

text \<open>C19. The board cannot livelock in interrupts: in any sequence of interrupts, with any cause
  registers and claimed sources in each, all but at most 69 reach the kernel (the timer, a claimed
  source, or the spurious counter), because each of the others masks a source (of 64) or a CP0 line
  (of 5) that was enabled.  An unclaimed source is never passed to do_IRQ.\<close>

theorem interrupts_cannot_livelock:
  "\<exists>new. kcalls (dispatches ins s) = new @ kcalls s \<and> length ins \<le> length new + 69 \<and>
     (\<forall>k \<in> set new. k = Spurious \<or> k = DoIRQ 7 \<or> (\<exists>irq. k = DoIRQ irq \<and> (\<exists>(cause, cl, ch, ha) \<in> set ins. ha irq)))"
proof -
  obtain new where n: "kcalls (dispatches ins s) = new @ kcalls s"
      "\<forall>k \<in> set new. k = Spurious \<or> k = DoIRQ 7 \<or> (\<exists>irq. k = DoIRQ irq \<and> (\<exists>(cause, cl, ch, ha) \<in> set ins. ha irq))"
    using dispatches_calls by blast
  have "length ins \<le> length new + 69"
    using dispatches_progress [of ins s] armed_le [of s] n(1) by simp
  with n show ?thesis by blast
qed

definition demo_icu :: icu where
  "demo_icu = \<lparr>mask0_low = 0x10, mask0_high = 0x2, mask1_low = 0, mask1_high = 0, unclaimed = 0,
     unclaimed_work = False, c0_status = 0x2800, runaway = 0, runaway_work = False, kcalls = []\<rparr>"

theorem interrupts_cannot_livelock_witness:
  "\<exists>new. kcalls (dispatches (replicate 100 (0x0800, 0x10, 0, \<lambda>irq. irq = 12)) demo_icu) = new \<and> 31 \<le> length new"
proof -
  obtain new where "kcalls (dispatches (replicate 100 (0x0800, 0x10, 0, \<lambda>irq. irq = 12)) demo_icu) = new @ kcalls demo_icu"
      "length (replicate 100 (0x0800 :: u32, 0x10 :: u32, 0 :: u32, \<lambda>irq :: nat. irq = 12)) \<le> length new + 69"
    using interrupts_cannot_livelock [of "replicate 100 (0x0800, 0x10, 0, \<lambda>irq. irq = 12)" demo_icu] by blast
  then show ?thesis by (simp add: demo_icu_def)
qed

text \<open>The demultiplexer takes the lowest source that is both asserted and enabled in the cpu_int0
  masks, low word first.  If a driver has claimed it, it is handed to do_IRQ and nothing else
  changes; if none has, exactly that source is masked, it is recorded for the report, and the report
  is scheduled.  It reports false, changing nothing, exactly when no enabled source is asserted.\<close>

theorem demux_takes_lowest:
  assumes "mv64340_irq_dispatch cl ch ha s = (taken, s')"
  shows "if taken then
      \<exists>b < 64. src_pending cl ch b \<and> src_enabled s b \<and>
        (\<forall>k < b. \<not> (src_pending cl ch k \<and> src_enabled s k)) \<and>
        (if ha (8 + b) then s' = s\<lparr>kcalls := DoIRQ (8 + b) # kcalls s\<rparr>
         else (\<forall>k < 64. src_enabled s' k \<longleftrightarrow> src_enabled s k \<and> k \<noteq> b) \<and> bit (unclaimed s') b \<and>
              unclaimed_work s' \<and> kcalls s' = kcalls s \<and> c0_status s' = c0_status s)
    else s' = s \<and> (\<forall>k < 64. \<not> (src_pending cl ch k \<and> src_enabled s k))"
proof (cases "first_source cl ch s")
  case None
  then have "filter (\<lambda>j. src_pending cl ch j \<and> src_enabled s j) [0..<64] = []"
    by (simp add: first_source_def split: list.splits)
  then have "\<forall>k < 64. \<not> (src_pending cl ch k \<and> src_enabled s k)"
    by (simp add: filter_empty_conv del: upt_rec_numeral)
  with None assms show ?thesis by (simp add: dispatch_alt)
next
  case (Some b)
  note F = first_sourceD [OF Some]
  show ?thesis
  proof (cases "ha (8 + b)")
    case True
    with Some assms F show ?thesis by (auto simp: dispatch_alt)
  next
    case False
    let ?t = "(mask_bit b s)\<lparr>unclaimed := unclaimed s OR push_bit b 1, unclaimed_work := True\<rparr>"
    from False Some assms have t: "taken" "s' = ?t" by (simp_all add: dispatch_alt)
    have "src_enabled s' k \<longleftrightarrow> src_enabled s k \<and> k \<noteq> b" if "k < 64" for k
    proof -
      have "src_enabled ?t k = src_enabled (mask_bit b s) k" by (simp add: src_enabled_def)
      then show ?thesis using mv.mask_src_enabled [OF F(1) that, of s] by (simp only: t)
    qed
    moreover have "bit (unclaimed s') b"
      using F(1) by (simp add: t bit_or_iff bit_exp_iff)
    moreover have "unclaimed_work s'" "kcalls s' = kcalls s" "c0_status s' = c0_status s"
      by (simp_all add: t mask_bit_def)
    ultimately show ?thesis using t(1) F False by auto
  qed
qed

theorem demux_takes_lowest_witness:
  "mv64340_irq_dispatch 0x30 0x2 (\<lambda>irq. irq = 12) demo_icu = (True, demo_icu\<lparr>kcalls := [DoIRQ 12]\<rparr>) \<and>
   (\<exists>b < 64. src_pending 0x30 0x2 b \<and> src_enabled demo_icu b)"
proof -
  have f: "ffs 0x10 = 4" by (simp add: ffs_def upt_rec)
  have e: "mv64340_irq_dispatch 0x30 0x2 (\<lambda>irq. irq = 12) demo_icu = (True, demo_icu\<lparr>kcalls := [DoIRQ 12]\<rparr>)"
    by (simp add: mv64340_irq_dispatch_def demo_icu_def f Let_def)
  from demux_takes_lowest [OF e] e show ?thesis by auto
qed

text \<open>Every masked unclaimed source is reported: as long as something is recorded the report stays
  scheduled, through any sequence of interrupts; the report prints exactly the recorded sources in
  ascending order and clears them, changing no mask.\<close>

theorem unclaimed_sources_reported:
  assumes "report_due s"
  shows "report_due (dispatches ins s) \<and>
    fst (mv_unclaimed_report s) = filter (bit (unclaimed s)) [0..<64] \<and>
    unclaimed (snd (mv_unclaimed_report s)) = 0 \<and>
    mask0_low (snd (mv_unclaimed_report s)) = mask0_low s \<and>
    mask0_high (snd (mv_unclaimed_report s)) = mask0_high s"
proof -
  have c: "bit (foldl (\<lambda>u b. u AND NOT (push_bit b 1)) (u :: 64 word) bs) j \<longleftrightarrow> bit u j \<and> j \<notin> set bs"
    if "\<forall>b \<in> set bs. b < 64" for u bs j
    using that by (induction bs arbitrary: u)
      (auto simp: bit_and_iff bit_not_iff bit_exp_iff dest: bit_imp_le_length)
  let ?bs = "filter (bit (unclaimed s)) [0..<64]"
  have e: "unclaimed (snd (mv_unclaimed_report s)) = foldl (\<lambda>u b. u AND NOT (push_bit b 1)) (unclaimed s) ?bs"
    by (simp add: mv_unclaimed_report_def Let_def del: upt_rec_numeral)
  have "\<forall>b \<in> set ?bs. b < 64" by (simp del: upt_rec_numeral)
  note c = c [OF this]
  have "unclaimed (snd (mv_unclaimed_report s)) = 0"
    unfolding e by (rule bit_word_eqI) (auto simp: c simp del: upt_rec_numeral push_bit_of_1)
  then show ?thesis
    using dispatches_due [OF assms] by (simp add: mv_unclaimed_report_def Let_def del: upt_rec_numeral)
qed

theorem unclaimed_sources_reported_witness:
  "report_due (dispatches [(0x0800, 0x10, 0, \<lambda>irq. False)] demo_icu)"
proof -
  have "report_due demo_icu" by (simp add: report_due_def demo_icu_def)
  from unclaimed_sources_reported [OF this] show ?thesis by blast
qed

text \<open>Masking switches off exactly the one source it names, unmasking switches on exactly the one
  it names, for all 64 sources of both words.\<close>

lemma mask_unmask_one_source:
  assumes "i < 64" and "j < 64"
  shows "(src_enabled (mv64340_irq_mask (8 + i) s) j \<longleftrightarrow> src_enabled s j \<and> j \<noteq> i) \<and>
    (src_enabled (mv64340_irq_unmask (8 + i) s) j \<longleftrightarrow> src_enabled s j \<or> j = i)"
  using mv.mask_src_enabled [OF assms] unmask_enabled [OF assms] by (simp add: mv64340_irq_mask_def)

text \<open>Bring-up leaves every source of both controller outputs masked whatever the boot loader had
  enabled, installs the chip on interrupts 8 to 71, requests the five cascade lines, and so the
  demultiplexer finds nothing until a driver unmasks its source.\<close>

theorem irq_bring_up:
  "(let t = arch_init_irq cpu_init s in
     filter (src_enabled t) [0..<64] = [] \<and> mask1_low t = 0 \<and> mask1_high t = 0 \<and> runaway_work t \<and>
     kcalls t = rev (map SetChip [8..<72] @ map RequestIRQ [2, 3, 4, 5, 6]) @ kcalls (cpu_init s) \<and>
     mv64340_irq_dispatch cl ch ha t = (False, t))"
proof -
  have "map (\<lambda>i. SetChip (8 + i)) [0..<64] = map SetChip [8..<72]"
    by (intro nth_equalityI) (simp_all del: upt_rec_numeral)
  then show ?thesis
    by (simp add: arch_init_irq_def mv64340_irq_init_def cascade_ip_def Let_def src_enabled_def
        mv64340_irq_dispatch_def del: upt_rec_numeral)
qed

text \<open>No interrupt ever schedules the cascade report: the only one is the one scheduled at boot,
  so a line masked after it has run stays recorded and is never printed.\<close>

lemma late_runaway_unreported:
  "runaway_work (dispatches ins (snd (cascade_runaway_report s))) = False"
proof -
  have "runaway_work (dispatches ins t) = runaway_work t" for t
    by (induction ins t rule: dispatches.induct) (simp_all add: dispatch_runaway_work)
  then show ?thesis by (simp add: cascade_runaway_report_def Let_def)
qed

end
