(* ===== verification/C2811_Pata.thy ===== *)
theory C2811_Pata
  imports Prelude
begin

text \<open>
  CompactFlash, \<open>kernel/cisco2811/pata.c\<close>: loading the taskfile and issuing the command through
  halfword writes of register pairs, reset, the byte-swapping PIO transfer, and probe.

  What a read of the 16-bit data port returns is a parameter, a function of the accesses made so far
  (newest first); so are the results of the libata calls.  \<open>ata_wait_idle\<close>, \<open>ata_sff_pause\<close> and
  \<open>udelay\<close> are recorded as accesses.
\<close>

datatype cfev = W16 nat u16 | R16 nat u16 | WaitIdle | Pause | Delay nat

record cf =
  data_dev :: "cfev list \<Rightarrow> u16"
  cfevs :: "cfev list"
  ctl :: u8
  last_ctl :: u8

record taskfile =
  flags :: u32
  tctl :: u8
  hob_feature :: u8
  hob_nsect :: u8
  hob_lbal :: u8
  hob_lbam :: u8
  hob_lbah :: u8
  feature :: u8
  nsect :: u8
  lbal :: u8
  lbam :: u8
  lbah :: u8
  tdevice :: u8
  command :: u8

abbreviation (input) ATA_TFLAG_LBA48 :: u32 where "ATA_TFLAG_LBA48 \<equiv> 0x1"
abbreviation (input) ATA_TFLAG_ISADDR :: u32 where "ATA_TFLAG_ISADDR \<equiv> 0x2"
abbreviation (input) ATA_SRST :: u8 where "ATA_SRST \<equiv> 0x04"

text \<open>The register pairs, and the data port.\<close>

abbreviation (input) P_FEAT :: nat where "P_FEAT \<equiv> 0x02"
abbreviation (input) P_NSECT_LBAL :: nat where "P_NSECT_LBAL \<equiv> 0x06"
abbreviation (input) P_LBAM_LBAH :: nat where "P_LBAM_LBAH \<equiv> 0x0A"
abbreviation (input) P_DEV_CMD :: nat where "P_DEV_CMD \<equiv> 0x0E"
abbreviation (input) P_DEVCTL :: nat where "P_DEVCTL \<equiv> 0x1E"
abbreviation (input) CF_DATA16 :: nat where "CF_DATA16 \<equiv> 0x12"

section \<open>Port operations\<close>

definition cfev :: "cfev \<Rightarrow> cf \<Rightarrow> cf" where
  "cfev e s = s\<lparr>cfevs := e # cfevs s\<rparr>"

definition cf_w16 :: "nat \<Rightarrow> u16 \<Rightarrow> cf \<Rightarrow> cf" where
  "cf_w16 off v s = cfev (W16 off v) s"

definition hi :: "u8 \<Rightarrow> u16" where
  "hi b = push_bit 8 (ucast b)"

definition c2811_tf_load :: "taskfile \<Rightarrow> cf \<Rightarrow> cf" where
  "c2811_tf_load tf s =
     (let is_addr = (flags tf AND ATA_TFLAG_ISADDR \<noteq> 0);
          s = (if tctl tf \<noteq> last_ctl s
               then cfev WaitIdle ((cf_w16 P_DEVCTL (ucast (tctl tf)) s)\<lparr>last_ctl := tctl tf\<rparr>) else s);
          s = (if is_addr \<and> flags tf AND ATA_TFLAG_LBA48 \<noteq> 0
               then
                 let s = cf_w16 P_FEAT (hi (hob_feature tf)) s;
                     s = cf_w16 P_NSECT_LBAL (hi (hob_lbal tf) OR ucast (hob_nsect tf)) s
                 in cf_w16 P_LBAM_LBAH (hi (hob_lbah tf) OR ucast (hob_lbam tf)) s
               else s);
          s = (if is_addr
               then
                 let s = cf_w16 P_FEAT (hi (feature tf)) s;
                     s = cf_w16 P_NSECT_LBAL (hi (lbal tf) OR ucast (nsect tf)) s
                 in cf_w16 P_LBAM_LBAH (hi (lbah tf) OR ucast (lbam tf)) s
               else s)
      in cfev WaitIdle s)"

definition c2811_exec_command :: "taskfile \<Rightarrow> cf \<Rightarrow> cf" where
  "c2811_exec_command tf s =
     cfev Pause (cf_w16 P_DEV_CMD (hi (command tf) OR ucast (tdevice tf)) s)"

definition c2811_dev_select :: "nat \<Rightarrow> cf \<Rightarrow> cf" where
  "c2811_dev_select device s = s"

definition c2811_set_devctl :: "u8 \<Rightarrow> cf \<Rightarrow> cf" where
  "c2811_set_devctl c s = cf_w16 P_DEVCTL (ucast c) s"

text \<open>The wait after reset and the classification are libata's: \<open>wait\<close> gives its result code.\<close>

definition c2811_softreset :: "(cf \<Rightarrow> int) \<Rightarrow> (cf \<Rightarrow> nat) \<Rightarrow> nat list \<Rightarrow> cf \<Rightarrow> int \<times> nat list \<times> cf" where
  "c2811_softreset wait classify classes s =
     (let s = cf_w16 P_DEVCTL (ucast (ctl s OR ATA_SRST)) s;
          s = cfev (Delay 20) s;
          s = cf_w16 P_DEVCTL (ucast (ctl s)) s;
          s = s\<lparr>last_ctl := ctl s\<rparr>;
          rc = wait s
      in if rc \<noteq> 0 then (rc, classes, s) else (0, classes[0 := classify s], s))"

section \<open>Data transfer\<close>

definition raw_readw :: "cf \<Rightarrow> u16 \<times> cf" where
  "raw_readw s = (let w = data_dev s (cfevs s) in (w, cfev (R16 CF_DATA16 w) s))"

fun xfer_read :: "nat \<Rightarrow> nat \<Rightarrow> u8 list \<Rightarrow> cf \<Rightarrow> u8 list \<times> cf" where
  "xfer_read i 0 buf s = (buf, s)"
| "xfer_read i (Suc n) buf s =
     (let (w, s) = raw_readw s;
          buf = buf[i * 2 := ucast (w AND 0xff)];
          buf = buf[i * 2 + 1 := ucast (drop_bit 8 w)]
      in xfer_read (Suc i) n buf s)"

fun xfer_write :: "nat \<Rightarrow> nat \<Rightarrow> u8 list \<Rightarrow> cf \<Rightarrow> cf" where
  "xfer_write i 0 buf s = s"
| "xfer_write i (Suc n) buf s =
     xfer_write (Suc i) n buf (cf_w16 CF_DATA16 (ucast (buf ! (i * 2)) OR hi (buf ! (i * 2 + 1))) s)"

definition c2811_data_xfer :: "bool \<Rightarrow> u8 list \<Rightarrow> nat \<Rightarrow> cf \<Rightarrow> nat \<times> u8 list \<times> cf" where
  "c2811_data_xfer reading buf buflen s =
     (let words = buflen div 2;
          (buf, s) = (if reading then xfer_read 0 words buf s else (buf, xfer_write 0 words buf s));
          (buf, s) =
            (if odd buflen then
               (if reading then
                  let (w, s) = raw_readw s in (buf[buflen - 1 := ucast (w AND 0xff)], s)
                else (buf, cf_w16 CF_DATA16 (ucast (buf ! (buflen - 1))) s))
             else (buf, s))
      in (buflen, buf, s))"

section \<open>Probe\<close>

record ioaddrs =
  cmd_addr :: u32
  data_addr :: u32
  error_addr :: u32
  feature_addr :: u32
  nsect_addr :: u32
  lbal_addr :: u32
  lbam_addr :: u32
  lbah_addr :: u32
  device_addr :: u32
  status_addr :: u32
  command_addr :: u32
  altstatus_addr :: u32
  ctl_addr :: u32

definition set_ioaddr :: "u32 \<Rightarrow> ioaddrs" where
  "set_ioaddr b = \<lparr>cmd_addr = b, data_addr = b + 0x12, error_addr = b + 0x02, feature_addr = b + 0x02,
     nsect_addr = b + 0x07, lbal_addr = b + 0x06, lbam_addr = b + 0x0B, lbah_addr = b + 0x0A,
     device_addr = b + 0x0F, status_addr = b + 0x0E, command_addr = b + 0x0E,
     altstatus_addr = b + 0x1F, ctl_addr = b + 0x1F\<rparr>"

text \<open>
  \<open>cd\<close>: the card-detect byte, or \<open>None\<close> if it could not be mapped; \<open>host\<close>: the port flags of the
  allocated host, or \<open>None\<close>; \<open>base\<close>: the mapped window; \<open>activate\<close>: the result of
  \<open>ata_host_activate\<close> for a port with that PIO mask, those flags and addresses, and that interrupt.
\<close>

abbreviation (input) ATA_PIO0 :: u32 where "ATA_PIO0 \<equiv> 0x1"
abbreviation (input) ATA_FLAG_PIO_POLLING :: u32 where "ATA_FLAG_PIO_POLLING \<equiv> 0x200"

definition c2811_pata_probe ::
    "u8 option \<Rightarrow> u32 option \<Rightarrow> u32 option \<Rightarrow> (u32 \<Rightarrow> u32 \<Rightarrow> ioaddrs \<Rightarrow> nat \<Rightarrow> int) \<Rightarrow> int" where
  "c2811_pata_probe cd host base activate =
     (if (case cd of Some r \<Rightarrow> r AND 0x80 \<noteq> 0 | None \<Rightarrow> False) then - ENODEV
      else case host of
        None \<Rightarrow> - ENOMEM
      | Some fl \<Rightarrow>
          (case base of
             None \<Rightarrow> - ENOMEM
           | Some b \<Rightarrow> activate ATA_PIO0 (fl OR ATA_FLAG_PIO_POLLING) (set_ioaddr b) 0))"

definition c2811_pata_init :: "int \<Rightarrow> int \<Rightarrow> int" where
  "c2811_pata_init device_register driver_register =
     (if device_register \<noteq> 0 then device_register else driver_register)"

section \<open>What the card sees\<close>

text \<open>
  The byte registers of the window: a halfword write at offset \<open>k\<close> of this big-endian bus puts the
  high byte in register \<open>k\<close> and the low byte in register \<open>k + 1\<close>.  \<open>reg_writes r\<close> is what
  register \<open>r\<close> was written, newest first.
\<close>

fun reg_writes :: "nat \<Rightarrow> cfev list \<Rightarrow> u8 list" where
  "reg_writes r [] = []"
| "reg_writes r (W16 off v # h) =
     (if r = off then ucast (drop_bit 8 v) # reg_writes r h
      else if r = off + 1 then ucast (v AND 0xff) # reg_writes r h else reg_writes r h)"
| "reg_writes r (_ # h) = reg_writes r h"

lemma pair_bytes [simp]:
  "ucast (drop_bit 8 (hi a OR ucast b)) = a" "ucast ((hi a OR ucast b) AND 0xff) = b"
  "ucast (drop_bit 8 (ucast b OR hi a)) = a" "ucast ((ucast b OR hi a) AND 0xff) = b"
  "ucast (drop_bit 8 (hi a)) = a" "ucast (hi a AND 0xff) = 0"
  "ucast (drop_bit 8 (ucast b :: u16)) = (0 :: u8)" "ucast ((ucast b :: u16) AND 0xff) = b"
  for a b :: u8
proof -
  have m: "(0xff :: u16) = mask 8" by (simp add: mask_eq_exp_minus_1)
  have lt: "bit (x :: u8) j \<Longrightarrow> j < 8" for x j by (auto dest: bit_imp_le_length)
  note bits = bit_or_iff bit_and_iff bit_ucast_iff bit_drop_bit_eq bit_push_bit_iff bit_mask_iff
  show "ucast (drop_bit 8 (hi a OR ucast b)) = a" "ucast ((hi a OR ucast b) AND 0xff) = b"
    "ucast (drop_bit 8 (ucast b OR hi a)) = a" "ucast ((ucast b OR hi a) AND 0xff) = b"
    "ucast (drop_bit 8 (hi a)) = a" "ucast (hi a AND 0xff) = 0"
    "ucast (drop_bit 8 (ucast b :: u16)) = (0 :: u8)" "ucast ((ucast b :: u16) AND 0xff) = b"
    unfolding hi_def m by (rule bit_word_eqI; auto simp: bits dest: lt)+
qed

lemma hi_bytes [simp]: "drop_bit 8 (hi a) = ucast a" "drop_bit 8 (ucast b :: u16) = 0" for a b :: u8
proof -
  have lt: "bit (x :: u8) j \<Longrightarrow> j < 8" for x j by (auto dest: bit_imp_le_length)
  note bits = bit_ucast_iff bit_drop_bit_eq bit_push_bit_iff
  show "drop_bit 8 (hi a) = ucast a"
    unfolding hi_def by (rule bit_word_eqI) (auto simp: bits dest: lt)
  show "drop_bit 8 (ucast b :: u16) = 0"
    by (rule bit_word_eqI) (auto simp: bits dest: lt)
qed

lemma ucast_8_16 [simp]: "ucast (ucast b :: u16) = b" for b :: u8
  by (rule bit_word_eqI) (auto simp: bit_ucast_iff dest: bit_imp_le_length)

lemma cf_simps [simp]:
  "cfevs (cfev e s) = e # cfevs s" "ctl (cfev e s) = ctl s" "last_ctl (cfev e s) = last_ctl s"
  "data_dev (cfev e s) = data_dev s" "cfevs (cf_w16 off v s) = W16 off v # cfevs s"
  "ctl (cf_w16 off v s) = ctl s" "last_ctl (cf_w16 off v s) = last_ctl s"
  "data_dev (cf_w16 off v s) = data_dev s"
  by (simp_all add: cf_w16_def cfev_def)

section \<open>Properties of the taskfile and the command\<close>

text \<open>Loading a taskfile gives each of feature, sector count and the three address registers its
  value, and in 48-bit commands first the high-order byte and then the current one; without the
  address flag it writes none of them.  It never writes the command register, so it starts no command,
  nor the device register; it writes device control exactly when its value changes, and remembers it.\<close>

theorem tf_load_programs:
  "list_all (\<lambda>(r, cur, hob). reg_writes r (cfevs (c2811_tf_load tf s)) =
      (if flags tf AND ATA_TFLAG_ISADDR \<noteq> 0
       then cur # (if flags tf AND ATA_TFLAG_LBA48 \<noteq> 0 then [hob] else []) else []) @ reg_writes r (cfevs s))
    [(0x02, feature tf, hob_feature tf), (0x07, nsect tf, hob_nsect tf), (0x06, lbal tf, hob_lbal tf),
     (0x0B, lbam tf, hob_lbam tf), (0x0A, lbah tf, hob_lbah tf)] \<and>
   list_all (\<lambda>r. reg_writes r (cfevs (c2811_tf_load tf s)) = reg_writes r (cfevs s)) [0x0E, 0x0F] \<and>
   reg_writes 0x1F (cfevs (c2811_tf_load tf s)) =
     (if tctl tf \<noteq> last_ctl s then [tctl tf] else []) @ reg_writes 0x1F (cfevs s) \<and>
   last_ctl (c2811_tf_load tf s) = tctl tf"
proof -
  define s1 where "s1 = (if tctl tf \<noteq> last_ctl s
      then cfev WaitIdle ((cf_w16 P_DEVCTL (ucast (tctl tf)) s)\<lparr>last_ctl := tctl tf\<rparr>) else s)"
  have r1: "reg_writes r (cfevs s1) = (if r = 0x1F \<and> tctl tf \<noteq> last_ctl s then [tctl tf] else
      if r = 0x1E \<and> tctl tf \<noteq> last_ctl s then [0] else []) @ reg_writes r (cfevs s)" for r
    by (simp add: s1_def)
  have l1: "last_ctl s1 = tctl tf" by (simp add: s1_def)
  define s2 where "s2 = (if flags tf AND ATA_TFLAG_ISADDR \<noteq> 0 \<and> flags tf AND ATA_TFLAG_LBA48 \<noteq> 0
      then cf_w16 P_LBAM_LBAH (hi (hob_lbah tf) OR ucast (hob_lbam tf))
        (cf_w16 P_NSECT_LBAL (hi (hob_lbal tf) OR ucast (hob_nsect tf)) (cf_w16 P_FEAT (hi (hob_feature tf)) s1))
      else s1)"
  define s3 where "s3 = (if flags tf AND ATA_TFLAG_ISADDR \<noteq> 0
      then cf_w16 P_LBAM_LBAH (hi (lbah tf) OR ucast (lbam tf))
        (cf_w16 P_NSECT_LBAL (hi (lbal tf) OR ucast (nsect tf)) (cf_w16 P_FEAT (hi (feature tf)) s2))
      else s2)"
  have e: "c2811_tf_load tf s = cfev WaitIdle s3"
    by (simp add: c2811_tf_load_def Let_def s3_def s2_def s1_def)
  show ?thesis
    unfolding e
    by (cases "flags tf AND ATA_TFLAG_ISADDR \<noteq> 0"; cases "flags tf AND ATA_TFLAG_LBA48 \<noteq> 0")
      (simp_all add: s3_def s2_def r1 l1)
qed

text \<open>Issuing a command is one halfword write that gives the device register and the command
  register their bytes together; nothing else in the port operations ever writes the command register:
  not the taskfile load, device select, device control or the reset.\<close>

theorem command_written_once:
  "reg_writes 0x0E (cfevs (c2811_exec_command tf s)) = command tf # reg_writes 0x0E (cfevs s) \<and>
   reg_writes 0x0F (cfevs (c2811_exec_command tf s)) = tdevice tf # reg_writes 0x0F (cfevs s) \<and>
   reg_writes 0x0E (cfevs (c2811_tf_load tf s)) = reg_writes 0x0E (cfevs s) \<and>
   reg_writes 0x0E (cfevs (c2811_dev_select d s)) = reg_writes 0x0E (cfevs s) \<and>
   reg_writes 0x0E (cfevs (c2811_set_devctl c s)) = reg_writes 0x0E (cfevs s) \<and>
   reg_writes 0x0E (cfevs (snd (snd (c2811_softreset w cl classes s)))) = reg_writes 0x0E (cfevs s)"
proof -
  have "reg_writes 0x0E (cfevs (c2811_tf_load tf s)) = reg_writes 0x0E (cfevs s)"
    by (simp add: c2811_tf_load_def Let_def)
  then show ?thesis
    by (simp add: c2811_exec_command_def c2811_dev_select_def c2811_set_devctl_def c2811_softreset_def Let_def)
qed

text \<open>Reset pulses SRST: device control gets its value with SRST set, then without, with the delay
  between, and the port remembers the value without.  A failed wait is returned as it is and leaves
  the classification alone; otherwise the first device is classified.\<close>

lemma softreset_pulses:
  "(case c2811_softreset w cl classes s of (rc, classes', s') \<Rightarrow>
     cfevs s' = [W16 P_DEVCTL (ucast (ctl s)), Delay 20, W16 P_DEVCTL (ucast (ctl s OR ATA_SRST))] @ cfevs s \<and>
     last_ctl s' = ctl s \<and> rc = w s' \<and>
     classes' = (if w s' = 0 then classes[0 := cl s'] else classes))"
  by (simp add: c2811_softreset_def Let_def)

section \<open>Transfers\<close>

text \<open>Word \<open>k\<close> of a buffer: on the medium words are little-endian.\<close>

definition buf_word :: "u8 list \<Rightarrow> nat \<Rightarrow> u16" where
  "buf_word buf k = ucast (buf ! (k * 2)) OR hi (buf ! (k * 2 + 1))"

definition buf_words :: "u8 list \<Rightarrow> nat \<Rightarrow> u16 list" where
  "buf_words buf n = map (buf_word buf) [0..<n div 2] @ (if odd n then [ucast (buf ! (n - 1))] else [])"

fun port_writes :: "cfev list \<Rightarrow> u16 list" where
  "port_writes [] = []"
| "port_writes (W16 off v # h) = (if off = CF_DATA16 then port_writes h @ [v] else port_writes h)"
| "port_writes (_ # h) = port_writes h"

fun port_reads :: "cfev list \<Rightarrow> nat" where
  "port_reads [] = 0"
| "port_reads (R16 off v # h) = Suc (port_reads h)"
| "port_reads (_ # h) = port_reads h"

lemma xfer_write_words:
  "port_writes (cfevs (xfer_write i n buf s)) = port_writes (cfevs s) @ map (buf_word buf) [i..<i + n]"
proof (induction n arbitrary: i s)
  case (Suc n)
  have "[i..<i + Suc n] = i # [Suc i..<Suc i + n]" by (simp add: upt_conv_Cons del: upt_Suc)
  with Suc [of "Suc i"] show ?case by (simp add: buf_word_def del: upt_Suc)
qed simp

text \<open>A card that returns the words \<open>ws\<close> in order.\<close>

definition replay :: "u16 list \<Rightarrow> cfev list \<Rightarrow> u16" where
  "replay ws h = ws ! port_reads h"

definition word_byte :: "u16 list \<Rightarrow> nat \<Rightarrow> u8" where
  "word_byte ws j = (if even j then ucast (ws ! (j div 2) AND 0xff) else ucast (drop_bit 8 (ws ! (j div 2))))"

lemma raw_readw_replay:
  "data_dev s = replay ws \<Longrightarrow> raw_readw s = (ws ! port_reads (cfevs s), cfev (R16 CF_DATA16 (ws ! port_reads (cfevs s))) s)"
  by (simp add: raw_readw_def replay_def Let_def)

lemma xfer_read_bytes:
  assumes "data_dev s = replay ws" and "port_reads (cfevs s) = i" and "2 * (i + n) \<le> length buf"
    and "xfer_read i n buf s = (buf', s')"
  shows "length buf' = length buf \<and> data_dev s' = replay ws \<and> port_reads (cfevs s') = i + n \<and>
    (\<forall>j < length buf. buf' ! j = (if 2 * i \<le> j \<and> j < 2 * (i + n) then word_byte ws j else buf ! j))"
  using assms
proof (induction n arbitrary: i buf s)
  case 0
  then show ?case by auto
next
  case (Suc n)
  let ?w = "ws ! i"
  let ?buf = "buf[i * 2 := ucast (?w AND 0xff), i * 2 + 1 := ucast (drop_bit 8 ?w)]"
  let ?s = "cfev (R16 CF_DATA16 ?w) s"
  have r: "xfer_read (Suc i) n ?buf ?s = (buf', s')"
    using Suc.prems raw_readw_replay [OF Suc.prems(1)] by (simp add: Let_def)
  have IH: "length buf' = length ?buf \<and> data_dev s' = replay ws \<and> port_reads (cfevs s') = Suc i + n \<and>
    (\<forall>j < length ?buf. buf' ! j = (if 2 * Suc i \<le> j \<and> j < 2 * (Suc i + n) then word_byte ws j else ?buf ! j))"
    by (rule Suc.IH [OF _ _ _ r]) (use Suc.prems in simp_all)
  have b: "?buf ! j = (if j = 2 * i \<or> j = 2 * i + 1 then word_byte ws j else buf ! j)" if "j < length buf" for j
    using that by (auto simp: nth_list_update word_byte_def mult.commute)
  show ?case
  proof (intro conjI allI impI)
    show "length buf' = length buf" "data_dev s' = replay ws" "port_reads (cfevs s') = i + Suc n"
      using IH by simp_all
    fix j
    assume j: "j < length buf"
    have "j < 2 * i \<or> (j = 2 * i \<or> j = 2 * i + 1) \<or> 2 * Suc i \<le> j" by presburger
    then consider "j < 2 * i" | "j = 2 * i \<or> j = 2 * i + 1" | "2 * Suc i \<le> j" by blast
    then show "buf' ! j = (if 2 * i \<le> j \<and> j < 2 * (i + Suc n) then word_byte ws j else buf ! j)"
      by cases (use IH j b [OF j] in auto)
  qed
qed

lemma word_byte_words:
  assumes "j < n"
  shows "word_byte (buf_words buf n) j = buf ! j"
proof (cases "j div 2 < n div 2")
  case True
  then have w: "buf_words buf n ! (j div 2) = buf_word buf (j div 2)"
    by (simp add: buf_words_def nth_append)
  show ?thesis
  proof (cases "even j")
    case True
    then have "j div 2 * 2 = j" by simp
    with True w show ?thesis by (simp add: word_byte_def buf_word_def)
  next
    case False
    then have "j div 2 * 2 + 1 = j" by presburger
    with False w show ?thesis by (simp add: word_byte_def buf_word_def)
  qed
next
  case False
  with assms have n: "odd n" "j = n - 1" "even j" "j div 2 = n div 2" by presburger+
  then show ?thesis by (simp add: word_byte_def buf_words_def nth_append)
qed

lemma data_write_words:
  "port_writes (cfevs (snd (snd (c2811_data_xfer False buf n s)))) = port_writes (cfevs s) @ buf_words buf n"
  by (simp add: c2811_data_xfer_def buf_words_def Let_def xfer_write_words)

lemma data_read_bytes:
  assumes "data_dev s = replay ws" and "port_reads (cfevs s) = 0" and "length buf = n"
    and "c2811_data_xfer True buf n s = (len, buf', s')"
  shows "len = n \<and> length buf' = n \<and> (\<forall>j < n. buf' ! j = word_byte ws j)"
proof -
  obtain b t where x: "xfer_read 0 (n div 2) buf s = (b, t)" by fastforce
  have "2 * (0 + n div 2) \<le> length buf" using assms(3) by simp
  note X = xfer_read_bytes [OF assms(1,2) this x]
  show ?thesis
  proof (cases "odd n")
    case False
    then have "2 * (n div 2) = n" by simp
    with False X assms(3,4) x show ?thesis by (simp add: c2811_data_xfer_def Let_def)
  next
    case True
    then have n: "2 * (n div 2) = n - 1" "even (n - 1)" "(n - 1) div 2 = n div 2" by presburger+
    have "port_reads (cfevs t) = n div 2" "data_dev t = replay ws" using X by simp_all
    then have "buf' = b[n - 1 := ucast (ws ! (n div 2) AND 0xff)]" and "len = n"
      using True assms(4) x by (auto simp: c2811_data_xfer_def Let_def raw_readw_replay)
    moreover have "word_byte ws (n - 1) = ucast (ws ! (n div 2) AND 0xff)"
      using n by (simp add: word_byte_def)
    ultimately show ?thesis
      using X n assms(3) True by (auto simp: nth_list_update)
  qed
qed

lemma low_byte: "(ucast (w AND 0xff :: u16) :: u8) = ucast w"
proof (rule bit_word_eqI)
  fix n assume "n < LENGTH(8)"
  moreover have "(0xff :: u16) = mask 8" by (simp add: mask_eq_exp_minus_1)
  ultimately show "bit (ucast (w AND 0xff :: u16) :: u8) n = bit (ucast w :: u8) n"
    by (simp only: bit_ucast_iff bit_and_iff bit_mask_iff) auto
qed

lemma buf_words_order:
  "length (buf_words buf n) = (n + 1) div 2" "odd n \<Longrightarrow> drop_bit 8 (last (buf_words buf n)) = 0"
  by (auto simp: buf_words_def)

text \<open>C23. A transfer in either direction has the medium's little-endian byte order on the 16-bit port, for even and
  odd lengths and whatever the buffer held: byte 2k of the buffer is the low half of word k and byte 2k + 1 its high
  half, both in the words written from a buffer and in the buffer read from the words a card returns; a write puts out
  one word for every two bytes, the last padded with a zero byte if the length is odd, and leaves the buffer alone.  So a
  transfer from a card that returns the words it was given restores the buffer byte for byte.\<close>

theorem pio_roundtrip:
  assumes "port_writes (cfevs s) = []" and "port_reads (cfevs t) = 0" and "length buf = n" and "length into = n"
    and "c2811_data_xfer False buf n s = (wlen, wbuf, s')" and "out = port_writes (cfevs s')"
    and "data_dev t = replay ws" and "c2811_data_xfer True into n t = (len, buf', t')"
  shows "wlen = n \<and> wbuf = buf \<and> length out = (n + 1) div 2 \<and> (odd n \<longrightarrow> drop_bit 8 (last out) = 0) \<and>
    (\<forall>j < n. buf ! j = (if even j then ucast (out ! (j div 2)) else ucast (drop_bit 8 (out ! (j div 2))))) \<and>
    len = n \<and> length buf' = n \<and>
    (\<forall>j < n. buf' ! j = (if even j then ucast (ws ! (j div 2)) else ucast (drop_bit 8 (ws ! (j div 2))))) \<and>
    (ws = out \<longrightarrow> buf' = buf)"
proof -
  have w: "wlen = n" "wbuf = buf" using assms(5) by (auto simp: c2811_data_xfer_def Let_def split: if_splits)
  have o: "out = buf_words buf n" using assms(1,5,6) data_write_words [of buf n s] by simp
  have h: "word_byte vs j = (if even j then ucast (vs ! (j div 2)) else ucast (drop_bit 8 (vs ! (j div 2))))" for vs j
    by (simp add: word_byte_def low_byte)
  note R = data_read_bytes [OF assms(7,2,4,8)]
  have b: "buf ! j = word_byte out j" if "j < n" for j using word_byte_words [OF that] by (simp add: o)
  have "ws = out \<longrightarrow> buf' = buf" using R b assms(3) by (auto intro: nth_equalityI)
  then show ?thesis using R b buf_words_order(2) [of n buf] by (simp add: o w h [symmetric] buf_words_order(1))
qed

definition demo_cf :: "u16 list \<Rightarrow> cf" where
  "demo_cf ws = \<lparr>data_dev = replay ws, cfevs = [], ctl = 0x08, last_ctl = 0\<rparr>"

theorem pio_roundtrip_witness:
  "\<exists>s' len t'. c2811_data_xfer False [0x55, 0xaa, 0x31] 3 (demo_cf []) = (3, [0x55, 0xaa, 0x31], s') \<and>
     port_writes (cfevs s') = [0xaa55, 0x31] \<and>
     c2811_data_xfer True [0, 0, 0] 3 (demo_cf [0xaa55, 0x31]) = (len, [0x55, 0xaa, 0x31], t')"
proof -
  let ?b = "[0x55, 0xaa, 0x31 :: u8]"
  obtain wl wb s' where x: "c2811_data_xfer False ?b 3 (demo_cf []) = (wl, wb, s')" by (metis prod_cases3)
  have w: "port_writes (cfevs s') = [0xaa55, 0x31]"
    using data_write_words [of ?b 3 "demo_cf []"] unfolding x
    by (simp add: buf_words_def buf_word_def hi_def demo_cf_def numeral_3_eq_3)
  obtain len buf' t' where r: "c2811_data_xfer True [0, 0, 0] 3 (demo_cf [0xaa55, 0x31]) = (len, buf', t')"
    by (metis prod_cases3)
  have "wl = 3 \<and> wb = ?b \<and> buf' = ?b"
    using pio_roundtrip [OF _ _ _ _ x refl _ r, of "[0xaa55, 0x31]"] w by (simp add: demo_cf_def)
  with x w r show ?thesis by blast
qed

section \<open>Probe\<close>

text \<open>Probe never touches an empty slot: with the card-detect bit set it fails with -ENODEV; it
  reports memory failures as -ENOMEM; otherwise it activates the host with every register of a pair
  at the address where that pair's halfword writes put it.\<close>

lemma probe_outcome:
  "c2811_pata_probe cd host base activate =
     (if (\<exists>r. cd = Some r \<and> bit r 7) then - ENODEV
      else if host \<noteq> None \<and> base \<noteq> None
      then activate ATA_PIO0 (the host OR ATA_FLAG_PIO_POLLING) (set_ioaddr (the base)) 0 else - ENOMEM) \<and>
   command_addr (set_ioaddr b) = b + word_of_nat P_DEV_CMD \<and>
   device_addr (set_ioaddr b) = b + word_of_nat (P_DEV_CMD + 1) \<and>
   lbal_addr (set_ioaddr b) = b + word_of_nat P_NSECT_LBAL \<and>
   nsect_addr (set_ioaddr b) = b + word_of_nat (P_NSECT_LBAL + 1) \<and>
   lbah_addr (set_ioaddr b) = b + word_of_nat P_LBAM_LBAH \<and>
   lbam_addr (set_ioaddr b) = b + word_of_nat (P_LBAM_LBAH + 1) \<and>
   feature_addr (set_ioaddr b) = b + word_of_nat P_FEAT \<and>
   ctl_addr (set_ioaddr b) = b + word_of_nat (P_DEVCTL + 1)"
proof -
  have m: "(0x80 :: u8) = push_bit 7 1" by (simp add: push_bit_eq_mult)
  have "r AND 0x80 \<noteq> 0 \<longleftrightarrow> bit r 7" for r :: u8
    unfolding m by (rule bit_iff_and_push_bit_not_eq_0 [symmetric])
  then have cd: "(case cd of Some r \<Rightarrow> r AND 0x80 \<noteq> 0 | None \<Rightarrow> False) \<longleftrightarrow> (\<exists>r. cd = Some r \<and> bit r 7)"
    by (auto split: option.splits)
  show ?thesis
    unfolding c2811_pata_probe_def cd by (auto simp: set_ioaddr_def split: option.splits)
qed

end
