(* ===== verification/C2811_Eth.thy ===== *)
theory C2811_Eth
  imports Mv64340_Irq C2811_Board
begin

text \<open>
  The Ethernet ports and the interrupt controller together: the numbers that \<open>eth.c\<close> hands to the drivers as resources
  are the numbers under which \<open>mv64340_irq.c\<close> and \<open>irq.c\<close> deliver the two cause bits.  \<open>irqbit\<close> is
  \<open>CONFIG_CISCO2811_ETH_IRQ_BIT\<close>.
\<close>

text \<open>The interrupt that a device names, and the controller once the drivers of both ports have requested theirs.\<close>

definition dev_irq :: "platdev \<Rightarrow> nat" where
  "dev_irq d = rstart (hd (filter (\<lambda>r. rflags r = IORESOURCE_IRQ) (resources d)))"

definition eth_up :: "(icu \<Rightarrow> icu) \<Rightarrow> (nat \<Rightarrow> nat) \<Rightarrow> nat \<Rightarrow> icu \<Rightarrow> icu" where
  "eth_up cpu_init phy irqbit s = mv64340_irq_unmask (dev_irq (c2811_eth1_device phy irqbit))
     (mv64340_irq_unmask (dev_irq (c2811_eth0_device phy irqbit)) (arch_init_irq cpu_init s))"

lemma dev_irqs [simp]:
  "dev_irq (c2811_eth0_device phy irqbit) = 8 + irqbit" "dev_irq (c2811_eth1_device phy irqbit) = 8 + Suc irqbit"
  by (simp_all add: dev_irq_def c2811_eth0_device_def c2811_eth1_device_def irq_res_def C2811_MV_IRQ_BASE_def)

lemma init_disabled: "j < 64 \<Longrightarrow> \<not> src_enabled (arch_init_irq cpu_init s) j"
  by (simp add: arch_init_irq_def mv64340_irq_init_def Let_def src_enabled_def)

lemma eth_up_enabled:
  assumes "irqbit < 63" and "j < 64"
  shows "src_enabled (eth_up cpu_init phy irqbit s) j \<longleftrightarrow> j = irqbit \<or> j = Suc irqbit"
proof -
  have i: "irqbit < 64" "Suc irqbit < 64" using assms(1) by simp_all
  show ?thesis
    unfolding eth_up_def dev_irqs unmask_enabled [OF i(2) assms(2)] unmask_enabled [OF i(1) assms(2)]
    using init_disabled [OF assms(2)] by blast
qed

lemma eth_up_chips:
  "i < 64 \<Longrightarrow> SetChip (8 + i) \<in> set (kcalls (eth_up cpu_init phy irqbit s))"
  by (auto simp: eth_up_def mv64340_irq_unmask_def arch_init_irq_def mv64340_irq_init_def Let_def simp del: upt_rec_numeral)

text \<open>What reaches the kernel from one interrupt while only the two sources are enabled.\<close>

definition eth_call :: "u32 \<Rightarrow> nat \<Rightarrow> nat \<Rightarrow> nat \<Rightarrow> u32 \<times> u32 \<times> u32 \<times> (nat \<Rightarrow> bool) \<Rightarrow> kcall" where
  "eth_call status irqbit q0 q1 = (\<lambda>(cause, cl, ch, ha).
     if status AND cause AND ST0_IM AND CAUSEF_IP7 \<noteq> 0 then DoIRQ 7
     else if status AND cause AND ST0_IM AND CASCADE_IPS \<noteq> 0
     then (if src_pending cl ch irqbit then DoIRQ q0 else DoIRQ q1) else Spurious)"

definition only_eth :: "nat \<Rightarrow> icu \<Rightarrow> bool" where
  "only_eth irqbit s \<longleftrightarrow> (\<forall>j < 64. src_enabled s j \<longleftrightarrow> j = irqbit \<or> j = Suc irqbit)"

lemma eth_first:
  assumes "only_eth irqbit s" and "irqbit < 63" and "src_pending cl ch irqbit \<or> src_pending cl ch (Suc irqbit)"
  shows "first_source cl ch s = Some (if src_pending cl ch irqbit then irqbit else Suc irqbit)"
proof (cases "first_source cl ch s")
  case None
  then have "\<forall>k < 64. \<not> (src_pending cl ch k \<and> src_enabled s k)"
    by (simp add: first_source_def filter_empty_conv split: list.splits del: upt_rec_numeral)
  moreover have "irqbit < 64" "Suc irqbit < 64" "src_enabled s irqbit" "src_enabled s (Suc irqbit)"
    using assms(1,2) by (simp_all add: only_eth_def)
  ultimately show ?thesis using assms(3) by blast
next
  case (Some j)
  note F = first_sourceD [OF Some]
  have "j = irqbit \<or> j = Suc irqbit" using F(1,3) assms(1) by (simp add: only_eth_def)
  moreover have "src_enabled s irqbit" using assms(1,2) by (simp add: only_eth_def)
  ultimately show ?thesis using F(2) F(4) [of irqbit] Some by auto
qed

lemma eth_dispatch:
  assumes "only_eth irqbit s" and "irqbit < 63" and "src_pending cl ch irqbit \<or> src_pending cl ch (Suc irqbit)"
    and "ha (8 + irqbit)" and "ha (8 + Suc irqbit)"
  shows "plat_irq_dispatch cause cl ch ha s =
    s\<lparr>kcalls := eth_call (c0_status s) irqbit (8 + irqbit) (8 + Suc irqbit) (cause, cl, ch, ha) # kcalls s\<rparr>"
  unfolding plat_alt eth_first [OF assms(1-3)] Let_def using assms(4,5) by (simp add: eth_call_def and.assoc)

lemma eth_dispatches:
  assumes "only_eth irqbit s" and "irqbit < 63"
    and "\<forall>(cause, cl, ch, ha) \<in> set ins. ha (8 + irqbit) \<and> ha (8 + Suc irqbit) \<and>
      (src_pending cl ch irqbit \<or> src_pending cl ch (Suc irqbit))"
  shows "dispatches ins s =
    s\<lparr>kcalls := rev (map (eth_call (c0_status s) irqbit (8 + irqbit) (8 + Suc irqbit)) ins) @ kcalls s\<rparr>"
  using assms
proof (induction ins arbitrary: s)
  case (Cons i ins)
  obtain cause cl ch ha where i: "i = (cause, cl, ch, ha)" by (cases i)
  let ?t = "plat_irq_dispatch cause cl ch ha s"
  have t: "?t = s\<lparr>kcalls := eth_call (c0_status s) irqbit (8 + irqbit) (8 + Suc irqbit) i # kcalls s\<rparr>"
    unfolding i by (rule eth_dispatch) (use Cons.prems i in auto)
  have "src_enabled ?t = src_enabled s" by (simp add: t src_enabled_def fun_eq_iff)
  then have "only_eth irqbit ?t" using Cons.prems(1) by (simp add: only_eth_def)
  from Cons.IH [OF this Cons.prems(2)] Cons.prems(3) i show ?case by (simp add: t)
qed simp

text \<open>C34. From the Ethernet ports to their drivers.  With a configured cause bit below 63 the two devices name two different
  interrupts, both of the controller.  Once the interrupt code is up and both drivers have requested the number in
  their device, then over any sequence of interrupts, each with a port asserting and whatever other sources, masked or not
  known, assert beside it: an interrupt of a cascade line reaches the kernel as exactly one \<open>do_IRQ\<close>, with the
  number that port 0's device names if port 0 asserts and that of port 1's device otherwise; the timer goes first, a line
  that is masked in Status counts as spurious; and no mask, no CP0 line and no record of a stray source changes.\<close>

theorem eth_interrupts_routed:
  assumes "irqbit < 63" and "q0 = dev_irq (c2811_eth0_device phy irqbit)" and "q1 = dev_irq (c2811_eth1_device phy irqbit)"
    and "t = eth_up cpu_init phy irqbit s"
    and "\<forall>(cause, cl, ch, ha) \<in> set ins. ha q0 \<and> ha q1 \<and> (src_pending cl ch irqbit \<or> src_pending cl ch (Suc irqbit))"
  shows "q0 \<noteq> q1 \<and> SetChip q0 \<in> set (kcalls t) \<and> SetChip q1 \<in> set (kcalls t) \<and>
    dispatches ins t = t\<lparr>kcalls := rev (map (eth_call (c0_status t) irqbit q0 q1) ins) @ kcalls t\<rparr>"
proof -
  have o: "only_eth irqbit t" using eth_up_enabled [OF assms(1)] by (simp add: only_eth_def assms(4))
  have q: "q0 = 8 + irqbit" "q1 = 8 + Suc irqbit" using assms(2,3) by simp_all
  from eth_dispatches [OF o assms(1), of ins] assms(5)
  have "dispatches ins t = t\<lparr>kcalls := rev (map (eth_call (c0_status t) irqbit q0 q1) ins) @ kcalls t\<rparr>"
    unfolding q by blast
  moreover have "SetChip q0 \<in> set (kcalls t)" "SetChip q1 \<in> set (kcalls t)"
    unfolding q assms(4) by (rule eth_up_chips, use assms(1) in simp)+
  ultimately show ?thesis using q by simp
qed

text \<open>The board's cause bit is 32: port 1, both ports with a stray source, and the timer.\<close>

theorem eth_interrupts_routed_witness:
  "\<exists>old. kcalls (dispatches [(0x0400, 0, 2, \<lambda>_. True), (0x0400, 0x10, 3, \<lambda>_. True), (0x8000, 0, 1, \<lambda>_. True)]
     (eth_up (\<lambda>s. s\<lparr>c0_status := 0xfc00\<rparr>) id 32 demo_icu)) = [DoIRQ 7, DoIRQ 40, DoIRQ 41] @ old"
proof -
  let ?t = "eth_up (\<lambda>s. s\<lparr>c0_status := 0xfc00\<rparr>) id 32 demo_icu"
  have c: "c0_status ?t = 0xfc00"
    by (simp add: eth_up_def mv64340_irq_unmask_def arch_init_irq_def mv64340_irq_init_def Let_def)
  have b: "bit (2 :: u32) 1" "\<not> bit (2 :: u32) 0" "bit (3 :: u32) 0" "bit (1 :: u32) 0" by (simp_all add: bit_0)
  from eth_interrupts_routed [OF _ refl refl refl, of 32
      "[(0x0400, 0, 2, \<lambda>_. True), (0x0400, 0x10, 3, \<lambda>_. True), (0x8000, 0, 1, \<lambda>_. True)]" id
      "\<lambda>s. s\<lparr>c0_status := 0xfc00\<rparr>" demo_icu] b
  show ?thesis by (simp add: src_pending_def eth_call_def c)
qed

text \<open>
  With the cause bit 63, which the configuration allows, port 1 names an interrupt past the controller's 64: no chip
  is installed for it, and unmasking it switches on source 32.
\<close>

lemma eth1_past_controller:
  "dev_irq (c2811_eth1_device phy 63) = 72 \<and> 72 \<notin> (\<lambda>i. 8 + i) ` {..<64 :: nat} \<and>
   src_enabled (mv64340_irq_unmask 72 s) 32"
  using bit_set [of 0 "mask0_high s" 0] by (auto simp: src_enabled_def mv64340_irq_unmask_def)

end
