(* ===== verification/Nmconsole_Telnet.thy ===== *)
theory Nmconsole_Telnet
  imports Prelude Interfaces
begin

text \<open>
  The telnet side of \<open>tools/nm32a/nmconsole.c\<close>: stripping the client's control sequences in place and
  doubling 0xFF towards the client.  System calls are recorded, newest first; their results are not
  looked at where the code ignores them.
\<close>

text \<open>Terminal settings: the flag words as sets of their named bits, the character size apart.\<close>

datatype speed_t = B1200 | B2400 | B4800 | B9600 | B19200 | B38400 | B57600 | B115200

datatype tflag =
    IGNBRK | BRKINT | PARMRK | ISTRIP | INLCR | IGNCR | ICRNL | IXON
  | OPOST | ECHO | ECHONL | ICANON | ISIG | IEXTEN
  | PARENB | CSTOPB | CLOCAL | CREAD | CRTSCTS

record termios =
  c_iflag :: "tflag set"
  c_oflag :: "tflag set"
  c_cflag :: "tflag set"
  c_lflag :: "tflag set"
  csize :: nat
  ispeed :: speed_t
  ospeed :: speed_t

text \<open>The bytes of a negotiation reply, of a data write and of a message are all writes to a descriptor.\<close>

datatype nev =
    Wr int "u8 list"
  | SendBreak int
  | CloseFd int
  | AcceptFd int int
  | OpenTty nat int
  | SetTty int termios
  | ReadFd int
  | SocketFd int

abbreviation (input) IAC :: u8 where "IAC \<equiv> 255"
abbreviation (input) DONT :: u8 where "DONT \<equiv> 254"
abbreviation (input) DO :: u8 where "DO \<equiv> 253"
abbreviation (input) WONT :: u8 where "WONT \<equiv> 252"
abbreviation (input) WILL :: u8 where "WILL \<equiv> 251"
abbreviation (input) SB :: u8 where "SB \<equiv> 250"
abbreviation (input) BRK :: u8 where "BRK \<equiv> 243"
abbreviation (input) IP :: u8 where "IP \<equiv> 244"
abbreviation (input) SE :: u8 where "SE \<equiv> 240"
abbreviation (input) OPT_ECHO :: u8 where "OPT_ECHO \<equiv> 1"
abbreviation (input) OPT_SGA :: u8 where "OPT_SGA \<equiv> 3"

section \<open>The client's stream\<close>

text \<open>The inner loop of a subnegotiation: from \<open>i\<close> to the IAC of the first IAC SE, or to the last byte.\<close>

function sb_skip :: "u8 list \<Rightarrow> nat \<Rightarrow> nat \<Rightarrow> nat" where
  "sb_skip b n i = (if i + 1 < n \<and> \<not> (b ! i = IAC \<and> b ! (i + 1) = SE) then sb_skip b n (i + 1) else i)"
  by pat_completeness auto
termination by (relation "measure (\<lambda>(b, n, i). n - i)") auto

declare sb_skip.simps [simp del]

lemma sb_skip_ge: "i \<le> sb_skip b n i"
  by (induction b n i rule: sb_skip.induct) (subst sb_skip.simps, auto)

definition is_negotiation :: "u8 \<Rightarrow> bool" where
  "is_negotiation c \<longleftrightarrow> c = DO \<or> c = DONT \<or> c = WILL \<or> c = WONT"

definition refusal :: "u8 \<Rightarrow> u8" where
  "refusal c = (if c = DO \<or> c = DONT then WONT else DONT)"

function filter_loop :: "int \<Rightarrow> int \<Rightarrow> nat \<Rightarrow> nat \<Rightarrow> nat \<Rightarrow> u8 list \<Rightarrow> nev list \<Rightarrow> nat \<times> u8 list \<times> nev list" where
  "filter_loop fd tty n i out b h =
     (if \<not> i < n then (out, b, h)
      else if b ! i \<noteq> IAC then filter_loop fd tty n (i + 1) (out + 1) (b[out := b ! i]) h
      else if n \<le> i + 1 then (out, b, h)
      else if b ! (i + 1) = IAC then filter_loop fd tty n (i + 2) (out + 1) (b[out := IAC]) h
      else if is_negotiation (b ! (i + 1)) then
        (if n \<le> i + 2 then filter_loop fd tty n (n + 1) out b h
         else filter_loop fd tty n (i + 3) out b (Wr fd [IAC, refusal (b ! (i + 1)), b ! (i + 2)] # h))
      else if b ! (i + 1) = BRK \<or> b ! (i + 1) = IP then
        filter_loop fd tty n (i + 2) out b (if 0 \<le> tty then SendBreak tty # h else h)
      else if b ! (i + 1) = SB then filter_loop fd tty n (sb_skip b n i + 2) out b h
      else filter_loop fd tty n (i + 2) out b h)"
  by pat_completeness auto
termination
proof (relation "measure (\<lambda>(fd, tty, n, i, out, b, h). n - i)", goal_cases)
  case (7 fd tty n i out b h)
  then show ?case using sb_skip_ge [of i b n] by simp
qed auto

declare filter_loop.simps [simp del]

definition telnet_filter :: "int \<Rightarrow> int \<Rightarrow> u8 list \<Rightarrow> nat \<Rightarrow> nev list \<Rightarrow> nat \<times> u8 list \<times> nev list" where
  "telnet_filter fd tty b n h = filter_loop fd tty n 0 0 b h"

section \<open>The stream to the client\<close>

abbreviation (input) OUT_SIZE :: nat where "OUT_SIZE \<equiv> 1024"

fun write_loop :: "int \<Rightarrow> u8 list \<Rightarrow> u8 list \<Rightarrow> nev list \<Rightarrow> nev list" where
  "write_loop fd [] out h = (if out \<noteq> [] then Wr fd out # h else h)"
| "write_loop fd (c # bs) out h =
     (let out = out @ [c];
          out = (if c = IAC \<and> length out < OUT_SIZE then out @ [IAC] else out)
      in if OUT_SIZE - 1 \<le> length out then write_loop fd bs [] (Wr fd out # h) else write_loop fd bs out h)"

definition telnet_write :: "int \<Rightarrow> u8 list \<Rightarrow> nev list \<Rightarrow> nev list" where
  "telnet_write fd bs h = write_loop fd bs [] h"

section \<open>What a client says\<close>

text \<open>
  The specification: the client's bytes are a sequence of data bytes and commands, read as RFC 854
  frames them.
\<close>

datatype said = Data u8 | Asks u8 u8 | Break

fun after_se :: "u8 list \<Rightarrow> u8 list" where
  "after_se (x # y # r) = (if x = IAC \<and> y = SE then r else after_se (y # r))"
| "after_se _ = []"

lemma length_after_se: "length (after_se s) \<le> length s"
  by (induction s rule: after_se.induct) auto

function parse :: "u8 list \<Rightarrow> said list" where
  "parse [] = []"
| "parse [x] = (if x = IAC then [] else [Data x])"
| "parse (x # c # r) =
     (if x \<noteq> IAC then Data x # parse (c # r)
      else if c = IAC then Data IAC # parse r
      else if is_negotiation c then (case r of [] \<Rightarrow> [] | q # r \<Rightarrow> Asks c q # parse r)
      else if c = BRK \<or> c = IP then Break # parse r
      else if c = SB then parse (after_se (x # c # r))
      else parse r)"
  by pat_completeness auto
termination
proof (relation "measure length", goal_cases)
  case (6 x c r)
  then show ?case using length_after_se [of "c # r"] by simp
qed auto

definition data_of :: "said list \<Rightarrow> u8 list" where
  "data_of xs = concat (map (\<lambda>x. case x of Data c \<Rightarrow> [c] | _ \<Rightarrow> []) xs)"

text \<open>What the server does about it: refuse every option, pass a break on to an open tty.\<close>

definition answer :: "int \<Rightarrow> int \<Rightarrow> said \<Rightarrow> nev list" where
  "answer fd tty x =
     (case x of Data c \<Rightarrow> []
      | Asks c q \<Rightarrow> [Wr fd [IAC, refusal c, q]]
      | Break \<Rightarrow> if 0 \<le> tty then [SendBreak tty] else [])"

definition answers :: "int \<Rightarrow> int \<Rightarrow> said list \<Rightarrow> nev list" where
  "answers fd tty xs = concat (map (answer fd tty) xs)"

lemma said_simps [simp]:
  "data_of [] = []" "data_of (Data c # xs) = c # data_of xs" "data_of (Asks c q # xs) = data_of xs"
  "data_of (Break # xs) = data_of xs" "answers fd tty [] = []" "answers fd tty (Data c # xs) = answers fd tty xs"
  "answers fd tty (Asks c q # xs) = Wr fd [IAC, refusal c, q] # answers fd tty xs"
  "answers fd tty (Break # xs) = (if 0 \<le> tty then SendBreak tty # answers fd tty xs else answers fd tty xs)"
  by (simp_all add: data_of_def answers_def answer_def)

section \<open>The filter is the parser, in place\<close>

lemma drop_nth2: "i < length s \<Longrightarrow> drop i s = s ! i # drop (i + 1) s"
  by (simp add: Cons_nth_drop_Suc)

lemma sb_skip_after:
  "n \<le> length b \<Longrightarrow> i < n \<Longrightarrow> after_se (drop i (take n b)) = drop (sb_skip b n i + 2) (take n b)"
proof (induction b n i rule: sb_skip.induct)
  case (1 b n i)
  let ?s = "take n b"
  have l: "length ?s = n" using "1.prems" by simp
  have e: "drop i ?s = b ! i # drop (i + 1) ?s"
    using "1.prems" l by (subst drop_nth2) simp_all
  show ?case
  proof (cases "i + 1 < n")
    case False
    then have "drop (i + 1) ?s = []" using l by simp
    with False e l show ?thesis by (subst sb_skip.simps) simp
  next
    case True
    have e2: "drop (i + 1) ?s = b ! (i + 1) # drop (i + 2) ?s"
      using True l by (subst drop_nth2) simp_all
    show ?thesis
    proof (cases "b ! i = IAC \<and> b ! (i + 1) = SE")
      case True
      with e e2 show ?thesis by (subst sb_skip.simps) simp
    next
      case False
      with True "1.IH" "1.prems"(1) have "after_se (drop (i + 1) ?s) = drop (sb_skip b n (i + 1) + 2) ?s" by blast
      moreover have "sb_skip b n i = sb_skip b n (i + 1)"
        using True False by (subst sb_skip.simps) simp
      ultimately show ?thesis using False e e2 by auto
    qed
  qed
qed

text \<open>One byte stored at or before the read position leaves the rest of the input alone.\<close>

lemma stored_byte:
  assumes "out \<le> i" and "i < n" and "n \<le> length b"
  shows "drop (i + Suc k) (take n (b[out := v])) = drop (i + Suc k) (take n b)"
    and "take (out + 1) (b[out := v]) = take out b @ [v]"
proof -
  show "drop (i + Suc k) (take n (b[out := v])) = drop (i + Suc k) (take n b)"
    using assms by (simp add: take_update_swap)
  have "take (Suc out) (b[out := v]) = take out (b[out := v]) @ [b[out := v] ! out]"
    using assms by (intro take_Suc_conv_app_nth) simp
  then show "take (out + 1) (b[out := v]) = take out b @ [v]"
    using assms by simp
qed

text \<open>How one turn of the loop, at a byte \<open>b ! i\<close>, corresponds to one step of the parser.\<close>

lemma parse_at:
  assumes "i < n" and "n \<le> length b"
  shows "b ! i \<noteq> IAC \<Longrightarrow> parse (drop i (take n b)) = Data (b ! i) # parse (drop (i + 1) (take n b))"
    and "b ! i = IAC \<Longrightarrow> n \<le> i + 1 \<Longrightarrow> parse (drop i (take n b)) = []"
    and "b ! i = IAC \<Longrightarrow> i + 1 < n \<Longrightarrow> parse (drop i (take n b)) = parse (IAC # b ! (i + 1) # drop (i + 2) (take n b))"
proof -
  have l: "length (take n b) = n" using assms by simp
  have e: "drop i (take n b) = b ! i # drop (i + 1) (take n b)"
    using assms l by (subst drop_nth2) simp_all
  show "b ! i \<noteq> IAC \<Longrightarrow> parse (drop i (take n b)) = Data (b ! i) # parse (drop (i + 1) (take n b))"
    unfolding e by (cases "drop (i + 1) (take n b)") simp_all
  show "b ! i = IAC \<Longrightarrow> n \<le> i + 1 \<Longrightarrow> parse (drop i (take n b)) = []"
    unfolding e using l by simp
  assume "b ! i = IAC" and "i + 1 < n"
  moreover have "drop (i + 1) (take n b) = b ! (i + 1) # drop (i + 1 + 1) (take n b)"
    using \<open>i + 1 < n\<close> l by (subst drop_nth2) simp_all
  ultimately show "parse (drop i (take n b)) = parse (IAC # b ! (i + 1) # drop (i + 2) (take n b))"
    using e by simp
qed

lemma parse_ask:
  assumes "i + 2 < n" and "n \<le> length b" and "c \<noteq> IAC" and "is_negotiation c"
  shows "parse (IAC # c # drop (i + 2) (take n b)) = Asks c (b ! (i + 2)) # parse (drop (i + 3) (take n b))"
proof -
  have "drop (i + 2) (take n b) = b ! (i + 2) # drop (i + 2 + 1) (take n b)"
    using assms by (subst drop_nth2) simp_all
  then show ?thesis using assms by (simp add: numeral_3_eq_3)
qed

lemma parse_sub:
  assumes "i + 1 < n" and "n \<le> length b" and "b ! i = IAC" and "b ! (i + 1) = SB"
  shows "parse (IAC # SB # drop (i + 2) (take n b)) = parse (drop (sb_skip b n i + 2) (take n b))"
proof -
  have "drop i (take n b) = IAC # drop (i + 1) (take n b)"
    using assms by (subst drop_nth2) simp_all
  moreover have "drop (i + 1) (take n b) = SB # drop (i + 1 + 1) (take n b)"
    using assms by (subst drop_nth2) simp_all
  ultimately show ?thesis
    using sb_skip_after [of n b i] assms by (simp add: is_negotiation_def)
qed

lemma filter_loop_parse:
  assumes "out \<le> i" and "out \<le> n" and "n \<le> length b" and "filter_loop fd tty n i out b h = (out', b', h')"
  shows "take out' b' = take out b @ data_of (parse (drop i (take n b))) \<and>
    h' = rev (answers fd tty (parse (drop i (take n b)))) @ h \<and> out' \<le> n \<and> length b' = length b"
  using assms
proof (induction fd tty n i out b h rule: filter_loop.induct)
  case (1 fd tty n i out b h)
  note P = "1.prems" filter_loop.simps [of fd tty n i out b h]
  let ?c = "b ! (i + 1)"
  consider (fin) "\<not> i < n" | (plain) "i < n" "b ! i \<noteq> IAC" | (trail) "i < n" "\<not> b ! i \<noteq> IAC" "n \<le> i + 1"
    | (pair) "i < n" "\<not> b ! i \<noteq> IAC" "\<not> n \<le> i + 1" "?c = IAC"
    | (cut) "i < n" "\<not> b ! i \<noteq> IAC" "\<not> n \<le> i + 1" "?c \<noteq> IAC" "is_negotiation ?c" "n \<le> i + 2"
    | (ask) "i < n" "\<not> b ! i \<noteq> IAC" "\<not> n \<le> i + 1" "?c \<noteq> IAC" "is_negotiation ?c" "\<not> n \<le> i + 2"
    | (brk) "i < n" "\<not> b ! i \<noteq> IAC" "\<not> n \<le> i + 1" "?c \<noteq> IAC" "\<not> is_negotiation ?c" "?c = BRK \<or> ?c = IP"
    | (sub) "i < n" "\<not> b ! i \<noteq> IAC" "\<not> n \<le> i + 1" "?c \<noteq> IAC" "\<not> is_negotiation ?c" "\<not> (?c = BRK \<or> ?c = IP)" "?c = SB"
    | (other) "i < n" "\<not> b ! i \<noteq> IAC" "\<not> n \<le> i + 1" "?c \<noteq> IAC" "\<not> is_negotiation ?c" "\<not> (?c = BRK \<or> ?c = IP)" "?c \<noteq> SB"
    by blast
  then show ?case
  proof cases
    case fin
    with P show ?thesis by simp
  next
    case plain
    from "1.IH"(1) plain P stored_byte(1) [OF P(1) plain(1) P(3), of 0 "b ! i"]
      stored_byte(2) [OF P(1) plain(1) P(3), of "b ! i"]
      parse_at(1) [OF plain(1) P(3) plain(2)] show ?thesis by simp
  next
    case trail
    with P parse_at(2) [OF trail(1) P(3)] show ?thesis by simp
  next
    case pair
    from "1.IH"(2) pair P stored_byte(1) [OF P(1) pair(1) P(3), of 1 IAC]
      stored_byte(2) [OF P(1) pair(1) P(3), of IAC] parse_at(3) [OF pair(1) P(3)] show ?thesis by simp
  next
    case cut
    have "drop (i + 2) (take n b) = []" using cut P(3) by simp
    moreover have "filter_loop fd tty n (n + 1) out b h = (out, b, h)" by (subst filter_loop.simps) simp
    ultimately show ?thesis using cut P parse_at(3) [OF cut(1) P(3)] by simp
  next
    case ask
    from "1.IH"(4) ask P parse_at(3) [OF ask(1) P(3)] parse_ask [of i n b ?c] show ?thesis by simp
  next
    case brk
    from "1.IH"(5) brk P parse_at(3) [OF brk(1) P(3)] show ?thesis by simp
  next
    case sub
    from "1.IH"(6) sub P parse_at(3) [OF sub(1) P(3)] parse_sub [of i n b] sb_skip_ge [of i b n] show ?thesis by simp
  next
    case other
    from "1.IH"(7) other P parse_at(3) [OF other(1) P(3)] show ?thesis by simp
  qed
qed

section \<open>Doubling\<close>

lemma parse_plain: "x \<noteq> IAC \<Longrightarrow> parse (x # r) = Data x # parse r"
  by (cases r) simp_all

lemma parse_stuff_append: "parse (stuff IAC bs @ r) = map Data bs @ parse r"
  by (induction bs) (simp_all add: parse_plain)

lemma said_map_Data [simp]: "data_of (map Data bs) = bs" "answers fd tty (map Data bs) = []"
  by (induction bs) simp_all

interpretation tel: stuffing IAC "\<lambda>bs. data_of (parse bs)"
  by unfold_locales (simp_all add: parse_plain)

lemma write_loop_chunks:
  assumes "length (stuff IAC p) < OUT_SIZE - 1"
  shows "\<exists>parts. write_loop fd bs (stuff IAC p) h = rev (map (\<lambda>q. Wr fd (stuff IAC q)) parts) @ h \<and>
    concat parts = p @ bs \<and> list_all (\<lambda>q. q \<noteq> [] \<and> length (stuff IAC q) \<le> OUT_SIZE) parts"
  using assms
proof (induction bs arbitrary: p h)
  case Nil
  show ?case
  proof (cases "p = []")
    case True
    then show ?thesis by (intro exI [of _ "[]"]) simp
  next
    case False
    then have "stuff IAC p \<noteq> []" by (cases p) auto
    with False Nil show ?thesis by (intro exI [of _ "[p]"]) simp
  qed
next
  case (Cons c bs)
  let ?p = "p @ [c]"
  have l: "length (stuff IAC ?p) \<le> OUT_SIZE" using Cons.prems by simp
  have e: "write_loop fd (c # bs) (stuff IAC p) h =
      (if OUT_SIZE - 1 \<le> length (stuff IAC ?p) then write_loop fd bs [] (Wr fd (stuff IAC ?p) # h)
       else write_loop fd bs (stuff IAC ?p) h)"
    using Cons.prems by simp
  show ?case
  proof (cases "OUT_SIZE - 1 \<le> length (stuff IAC ?p)")
    case True
    obtain parts where "write_loop fd bs (stuff IAC []) (Wr fd (stuff IAC ?p) # h) =
        rev (map (\<lambda>q. Wr fd (stuff IAC q)) parts) @ Wr fd (stuff IAC ?p) # h"
      "concat parts = [] @ bs" "list_all (\<lambda>q. q \<noteq> [] \<and> length (stuff IAC q) \<le> OUT_SIZE) parts"
      using Cons.IH [of "[]" "Wr fd (stuff IAC ?p) # h"] by auto
    with True e l show ?thesis by (intro exI [of _ "?p # parts"]) simp
  next
    case False
    with Cons.IH [of ?p h] e show ?thesis by simp
  qed
qed

lemma telnet_write_chunks:
  "\<exists>parts. telnet_write fd bs h = rev (map (\<lambda>q. Wr fd (stuff IAC q)) parts) @ h \<and> concat parts = bs \<and>
    list_all (\<lambda>q. q \<noteq> [] \<and> length (stuff IAC q) \<le> OUT_SIZE) parts"
  using write_loop_chunks [of "[]" fd bs h] by (simp add: telnet_write_def)

lemma telnet_filter_parse:
  assumes "n \<le> length b" and "telnet_filter fd tty b n h = (k, b', h')"
  shows "k \<le> n \<and> take k b' = data_of (parse (take n b)) \<and> h' = rev (answers fd tty (parse (take n b))) @ h"
  using filter_loop_parse [of 0 0 n b fd tty h k b' h'] assms by (simp add: telnet_filter_def)

text \<open>What was written to a descriptor, in order.\<close>

fun written :: "int \<Rightarrow> nev list \<Rightarrow> u8 list" where
  "written fd [] = []"
| "written fd (Wr f bs # h) = written fd h @ (if f = fd then bs else [])"
| "written fd (_ # h) = written fd h"

lemma written_append [simp]: "written fd (h @ k) = written fd k @ written fd h"
  by (induction fd h rule: written.induct) simp_all

lemma written_chunks [simp]:
  "written fd (rev (map (\<lambda>q. Wr fd (stuff IAC q)) parts)) = stuff IAC (concat parts)"
  by (induction parts) simp_all

section \<open>Properties\<close>

text \<open>C24. The in-place filter keeps exactly the data bytes of what the client sent, as the telnet framing
  reads it, at the front of the buffer and never more than it was given.  It answers each option request
  of a client, in order, with the refusal of that option, turns each Break or Interrupt Process into one
  break on the tty if it is open, and does nothing else: cut-off sequences at the end are dropped.\<close>

theorem filter_is_parse:
  assumes "n \<le> length b"
  shows "case telnet_filter fd tty b n h of (k, b', h') \<Rightarrow>
    k \<le> n \<and> take k b' = data_of (parse (take n b)) \<and> h' = rev (answers fd tty (parse (take n b))) @ h"
proof (cases "telnet_filter fd tty b n h")
  case (fields k b' h')
  from telnet_filter_parse [OF assms this] fields show ?thesis by simp
qed

theorem filter_is_parse_witness:
  "case telnet_filter 5 6 [0x61, IAC, DO, 24, IAC, IAC, IAC, BRK, 0x62, 0] 9 [] of (k, b', h') \<Rightarrow>
    k \<le> 9 \<and> take k b' = [0x61, IAC, 0x62] \<and> h' = [SendBreak 6, Wr 5 [IAC, WONT, 24]]"
proof -
  have "parse (take 9 [0x61, IAC, DO, 24, IAC, IAC, IAC, BRK, 0x62, 0]) =
      [Data 0x61, Asks DO 24, Data IAC, Break, Data 0x62]"
    by (simp add: is_negotiation_def)
  with filter_is_parse [of 9 "[0x61, IAC, DO, 24, IAC, IAC, IAC, BRK, 0x62, 0]" 5 6 "[]"]
  show ?thesis by (simp add: refusal_def)
qed

text \<open>C25. Data for the client goes out in writes that fit the buffer, none of them empty; each is the
  doubled form of a piece of the data, so no write ends between the two bytes of a doubled 0xFF, and the
  pieces make up the data.  A client that frames what it receives as telnet reads exactly the data and
  no command.\<close>

theorem telnet_write_exact:
  "(\<exists>parts. telnet_write fd bs h = rev (map (\<lambda>q. Wr fd (stuff IAC q)) parts) @ h \<and> concat parts = bs \<and>
      list_all (\<lambda>q. q \<noteq> [] \<and> length (stuff IAC q) \<le> OUT_SIZE) parts) \<and>
   parse (written fd (telnet_write fd bs [])) = map Data bs"
proof -
  note c = telnet_write_chunks [of fd bs]
  from c [of "[]"] have "written fd (telnet_write fd bs []) = stuff IAC bs" by force
  with c [of h] parse_stuff_append [of bs "[]"] show ?thesis by simp
qed

text \<open>The two directions are inverse: filtering data that was doubled on the way restores it, sends
  no reply and raises no break.\<close>

lemma filter_undoes_doubling:
  "case telnet_filter fd tty (stuff IAC bs) (length (stuff IAC bs)) h of (k, b', h') \<Rightarrow>
    take k b' = bs \<and> h' = h"
proof (cases "telnet_filter fd tty (stuff IAC bs) (length (stuff IAC bs)) h")
  case (fields k b' h')
  then have r: "filter_loop fd tty (length (stuff IAC bs)) 0 0 (stuff IAC bs) h = (k, b', h')"
    by (simp add: telnet_filter_def)
  have "parse (stuff IAC bs) = map Data bs" using parse_stuff_append [of bs "[]"] by simp
  with filter_loop_parse [OF _ _ _ r] fields tel.unstuff_stuff [of bs] show ?thesis by simp
qed

end
