(* ===== verification/Nmconsole.thy ===== *)
theory Nmconsole
  imports Cstdlib Nmconsole_Telnet "HOL-Library.Multiset"
begin

text \<open>
  The reverse-telnet server, \<open>tools/nm32a/nmconsole.c\<close>: the speed table, the ports and the select loop.
  The results of the system calls are inputs: for each turn of the loop what \<open>select\<close> reports and, for
  each port, what \<open>accept\<close>, \<open>open\<close>, \<open>tcgetattr\<close> and the two reads would return (\<open>None\<close> for an error,
  \<open>[]\<close> for end of file, at most the 512 bytes of the buffer).  Messages on standard output are left out.
\<close>

abbreviation (input) MAXP :: nat where "MAXP \<equiv> 32"

record port =
  listen_fd :: int
  client_fd :: int
  tty_fd :: int
  tcp_port :: int

record nmc =
  nm_ports :: "port list"
  port_speed :: "int list"
  nports :: int
  base_port :: int
  speed :: int
  raw_mode :: bool
  nevs :: "nev list"

definition nm_start :: nmc where
  "nm_start = \<lparr>nm_ports = replicate MAXP \<lparr>listen_fd = 0, client_fd = 0, tty_fd = 0, tcp_port = 0\<rparr>,
     port_speed = replicate MAXP 0, nports = int MAXP, base_port = 2000, speed = 9600, raw_mode = False, nevs = []\<rparr>"

section \<open>Speeds\<close>

definition set_port_speed :: "int \<Rightarrow> int \<Rightarrow> nmc \<Rightarrow> nmc" where
  "set_port_speed n baud s =
     (if 0 \<le> n \<and> n < int MAXP then s\<lparr>port_speed := (port_speed s)[nat n := baud]\<rparr> else s)"

definition speed_line :: "string \<Rightarrow> (int \<times> int) option" where
  "speed_line line =
     (case scan_int (takeWhile (\<lambda>c. c \<noteq> CHR ''#'') (takeWhile (\<lambda>c. c \<noteq> CHR 0x00) line)) of
        None \<Rightarrow> None
      | Some (n, r) \<Rightarrow> (case scan_int r of None \<Rightarrow> None | Some (baud, _) \<Rightarrow> Some (n, baud)))"

function conf_loop :: "string \<Rightarrow> nat \<Rightarrow> nmc \<Rightarrow> nat \<times> nmc" where
  "conf_loop f cnt s =
     (if f = [] then (cnt, s)
      else
        let (line, f) = fgets 127 f
        in case speed_line line of
             None \<Rightarrow> conf_loop f cnt s
           | Some (n, baud) \<Rightarrow> conf_loop f (cnt + 1) (set_port_speed n baud s))"
  by pat_completeness auto
termination
proof (relation "measure (\<lambda>(f, cnt, s). length f)", goal_cases)
  case (2 f cnt s x line r)
  then have "snd (fgets 127 f) = r" by (metis snd_conv)
  with 2 fgets_shorter [of 127 f] show ?case by simp
next
  case (3 f cnt s x line r)
  then have "snd (fgets 127 f) = r" by (metis snd_conv)
  with 3 fgets_shorter [of 127 f] show ?case by simp
qed simp

declare conf_loop.simps [simp del]

definition load_speed_conf :: "string option \<Rightarrow> nmc \<Rightarrow> nat \<times> nmc" where
  "load_speed_conf f s = (case f of None \<Rightarrow> (0, s) | Some f \<Rightarrow> conf_loop f 0 s)"

definition to_speed :: "int \<Rightarrow> speed_t" where
  "to_speed b =
     (if b = 1200 then B1200 else if b = 2400 then B2400 else if b = 4800 then B4800
      else if b = 9600 then B9600 else if b = 19200 then B19200 else if b = 38400 then B38400
      else if b = 57600 then B57600 else if b = 115200 then B115200 else B9600)"

section \<open>Descriptors\<close>

definition nmev :: "nev \<Rightarrow> nmc \<Rightarrow> nmc" where
  "nmev e s = s\<lparr>nevs := e # nevs s\<rparr>"

definition cfmakeraw :: "termios \<Rightarrow> termios" where
  "cfmakeraw t = t\<lparr>
     c_iflag := c_iflag t - {IGNBRK, BRKINT, PARMRK, ISTRIP, INLCR, IGNCR, ICRNL, IXON},
     c_oflag := c_oflag t - {OPOST},
     c_lflag := c_lflag t - {ECHO, ECHONL, ICANON, ISIG, IEXTEN},
     c_cflag := c_cflag t - {PARENB}, csize := 8\<rparr>"

definition open_tty :: "nat \<Rightarrow> int \<Rightarrow> termios option \<Rightarrow> nmc \<Rightarrow> int \<times> nmc" where
  "open_tty n open_r tc s =
     (let fd = open_r; s = nmev (OpenTty n fd) s
      in if fd < 0 then (-1, s)
         else case tc of None \<Rightarrow> (fd, s)
         | Some t \<Rightarrow>
             let b = (if 0 < port_speed s ! n then port_speed s ! n else speed s);
                 t = cfmakeraw t;
                 t = t\<lparr>ispeed := to_speed b\<rparr>;
                 t = t\<lparr>ospeed := to_speed b\<rparr>;
                 t = t\<lparr>c_cflag := c_cflag t \<union> {CLOCAL, CREAD}\<rparr>;
                 t = t\<lparr>c_cflag := c_cflag t - {CRTSCTS}\<rparr>
             in (fd, nmev (SetTty fd t) s))"

text \<open>\<open>bound\<close>: whether \<open>bind\<close> and \<open>listen\<close> both succeed on the socket.\<close>

definition listen_on :: "int \<Rightarrow> bool \<Rightarrow> nmc \<Rightarrow> int \<times> nmc" where
  "listen_on sock bound s =
     (let fd = sock; s = nmev (SocketFd fd) s
      in if fd < 0 then (-1, s) else if \<not> bound then (-1, nmev (CloseFd fd) s) else (fd, s))"

definition set_nm_port :: "nat \<Rightarrow> (port \<Rightarrow> port) \<Rightarrow> nmc \<Rightarrow> nmc" where
  "set_nm_port i f s = s\<lparr>nm_ports := (nm_ports s)[i := f (nm_ports s ! i)]\<rparr>"

section \<open>Start\<close>

text \<open>\<open>sscanf (v, "%d:%d", &n, &b)\<close>.\<close>

definition port_speed_arg :: "string \<Rightarrow> (int \<times> int) option" where
  "port_speed_arg v =
     (case scan_int v of
        None \<Rightarrow> None
      | Some (n, r) \<Rightarrow>
          if r \<noteq> [] \<and> hd r = CHR '':'' then (case scan_int (tl r) of Some (b, _) \<Rightarrow> Some (n, b) | None \<Rightarrow> None)
          else None)"

fun nm_args :: "(string \<Rightarrow> string option) \<Rightarrow> string list \<Rightarrow> nmc \<Rightarrow> nmc" where
  "nm_args files [] s = s"
| "nm_args files [a] s = (if a = ''--raw'' then s\<lparr>raw_mode := True\<rparr> else s)"
| "nm_args files (a # v # as) s =
     (if a = ''--base'' then nm_args files as (s\<lparr>base_port := atoi v\<rparr>)
      else if a = ''--ports'' then nm_args files as (s\<lparr>nports := atoi v\<rparr>)
      else if a = ''--speed'' then nm_args files as (s\<lparr>speed := atoi v\<rparr>)
      else if a = ''--port-speed'' then
        nm_args files as (case port_speed_arg v of Some (n, b) \<Rightarrow> set_port_speed n b s | None \<Rightarrow> s)
      else if a = ''--speeds'' then nm_args files as (snd (load_speed_conf (files v) s))
      else if a = ''--raw'' then nm_args files (v # as) (s\<lparr>raw_mode := True\<rparr>)
      else nm_args files (v # as) s)"

definition listen_port :: "int \<times> bool \<Rightarrow> nat \<Rightarrow> nmc \<Rightarrow> bool \<times> nmc" where
  "listen_port r i s =
     (let s = set_nm_port i (\<lambda>pt. pt\<lparr>client_fd := -1, tty_fd := -1, tcp_port := base_port s + int i\<rparr>) s;
          (fd, s) = listen_on (fst r) (snd r) s;
          s = set_nm_port i (\<lambda>pt. pt\<lparr>listen_fd := fd\<rparr>) s
      in (\<not> fd < 0, s))"

fun listen_all :: "(int \<times> bool) list \<Rightarrow> nat \<Rightarrow> nat \<Rightarrow> nat \<Rightarrow> nmc \<Rightarrow> nat \<times> nmc" where
  "listen_all os 0 i up s = (up, s)"
| "listen_all os (Suc k) i up s =
     (let (ok, s) = listen_port (os ! i) i s in listen_all os k (i + 1) (if ok then up + 1 else up) s)"

definition nm_init :: "(string \<Rightarrow> string option) \<Rightarrow> string list \<Rightarrow> (int \<times> bool) list \<Rightarrow> nat \<times> nmc" where
  "nm_init files args os =
     (let s = nm_args files args nm_start;
          s = (if int MAXP < nports s then s\<lparr>nports := int MAXP\<rparr> else s)
      in listen_all os (nat (nports s)) 0 0 s)"

section \<open>The loop\<close>

record port_in =
  accept_r :: int
  open_r :: int
  tc_r :: "termios option"
  net_r :: "u8 list option"
  tty_r :: "u8 list option"

definition hello :: "u8 list" where
  "hello = [IAC, WILL, OPT_ECHO, IAC, WILL, OPT_SGA, IAC, DO, OPT_SGA]"

definition refused_msg :: "nat \<Rightarrow> u8 list" where
  "refused_msg i = map of_char (''cannot open /dev/ttyNM'' @ show_nat i @ [CHR 0x0D, CHR 0x0A])"

definition new_client :: "port_in \<Rightarrow> nat \<Rightarrow> nmc \<Rightarrow> nmc" where
  "new_client p i s =
     (let fd = accept_r p;
          s = set_nm_port i (\<lambda>pt. pt\<lparr>client_fd := fd\<rparr>) (nmev (AcceptFd (listen_fd (nm_ports s ! i)) fd) s)
      in if fd < 0 then s
         else
           let (tfd, s) = open_tty i (open_r p) (tc_r p) s;
               s = set_nm_port i (\<lambda>pt. pt\<lparr>tty_fd := tfd\<rparr>) s
           in if tfd < 0 then
                set_nm_port i (\<lambda>pt. pt\<lparr>client_fd := -1\<rparr>) (nmev (CloseFd fd) (nmev (Wr fd (refused_msg i)) s))
              else if \<not> raw_mode s then nmev (Wr fd hello) s else s)"

definition from_network :: "port_in \<Rightarrow> nat \<Rightarrow> nmc \<Rightarrow> nmc" where
  "from_network p i s =
     (let pt = nm_ports s ! i; s = nmev (ReadFd (client_fd pt)) s
      in case net_r p of
           Some (c # cs) \<Rightarrow>
             if 0 \<le> tty_fd pt then
               (let buf = c # cs; n = length buf;
                    (n, buf, h) = (if \<not> raw_mode s then telnet_filter (client_fd pt) (tty_fd pt) buf n (nevs s)
                                   else (n, buf, nevs s));
                    s = s\<lparr>nevs := h\<rparr>
                in if 0 < n then nmev (Wr (tty_fd pt) (take n buf)) s else s)
             else s
         | _ \<Rightarrow>
             let s = set_nm_port i (\<lambda>pt. pt\<lparr>client_fd := -1\<rparr>) (nmev (CloseFd (client_fd pt)) s)
             in if 0 \<le> tty_fd pt
                then set_nm_port i (\<lambda>pt. pt\<lparr>tty_fd := -1\<rparr>) (nmev (CloseFd (tty_fd pt)) s) else s)"

definition from_tty :: "port_in \<Rightarrow> nat \<Rightarrow> nmc \<Rightarrow> nmc" where
  "from_tty p i s =
     (let pt = nm_ports s ! i; s = nmev (ReadFd (tty_fd pt)) s
      in case tty_r p of
           Some (c # cs) \<Rightarrow>
             if 0 \<le> client_fd pt then
               (if raw_mode s then nmev (Wr (client_fd pt) (c # cs)) s
                else s\<lparr>nevs := telnet_write (client_fd pt) (c # cs) (nevs s)\<rparr>)
             else s
         | _ \<Rightarrow> s)"

definition serve_port :: "(int \<Rightarrow> bool) \<Rightarrow> port_in \<Rightarrow> nat \<Rightarrow> nmc \<Rightarrow> nmc" where
  "serve_port ready p i s =
     (let pt = nm_ports s ! i;
          s = (if 0 \<le> listen_fd pt \<and> client_fd pt < 0 \<and> ready (listen_fd pt) then new_client p i s else s);
          pt = nm_ports s ! i;
          s = (if 0 \<le> client_fd pt \<and> ready (client_fd pt) then from_network p i s else s);
          pt = nm_ports s ! i
      in if 0 \<le> tty_fd pt \<and> ready (tty_fd pt) then from_tty p i s else s)"

definition watched_port :: "port \<Rightarrow> int list" where
  "watched_port pt =
     (if 0 \<le> listen_fd pt \<and> client_fd pt < 0 then [listen_fd pt] else []) @
     (if 0 \<le> client_fd pt then [client_fd pt] else []) @
     (if 0 \<le> tty_fd pt then [tty_fd pt] else [])"

definition watched :: "nmc \<Rightarrow> int list" where
  "watched s = concat (map (\<lambda>i. watched_port (nm_ports s ! i)) [0..<nat (nports s)])"

datatype select_r = Ready "int \<Rightarrow> bool" | Interrupted | SelectFailed

text \<open>One turn of the loop; the flag says whether the loop goes on.  With nothing to watch it only sleeps.\<close>

definition nm_turn :: "select_r \<times> port_in list \<Rightarrow> nmc \<Rightarrow> bool \<times> nmc" where
  "nm_turn t s =
     (if watched s = [] then (True, s)
      else case fst t of
             Interrupted \<Rightarrow> (True, s)
           | SelectFailed \<Rightarrow> (False, s)
           | Ready ready \<Rightarrow> (True, foldl (\<lambda>s i. serve_port ready (snd t ! i) i s) s [0..<nat (nports s)]))"

fun nm_loop :: "(select_r \<times> port_in list) list \<Rightarrow> nmc \<Rightarrow> bool \<times> nmc" where
  "nm_loop [] s = (True, s)"
| "nm_loop (t # ts) s = (let (go, s) = nm_turn t s in if go then nm_loop ts s else (False, s))"

section \<open>Frames\<close>

lemma nmev_simps [simp]:
  "nevs (nmev e s) = e # nevs s" "nm_ports (nmev e s) = nm_ports s" "nports (nmev e s) = nports s"
  "port_speed (nmev e s) = port_speed s" "speed (nmev e s) = speed s" "raw_mode (nmev e s) = raw_mode s"
  by (simp_all add: nmev_def)

lemma set_nm_port_simps [simp]:
  "nevs (set_nm_port i f s) = nevs s" "nports (set_nm_port i f s) = nports s"
  "port_speed (set_nm_port i f s) = port_speed s" "raw_mode (set_nm_port i f s) = raw_mode s"
  "length (nm_ports (set_nm_port i f s)) = length (nm_ports s)"
  "i < length (nm_ports s) \<Longrightarrow> nm_ports (set_nm_port i f s) ! j = (if j = i then f (nm_ports s ! i) else nm_ports s ! j)"
  by (simp_all add: set_nm_port_def nth_list_update)

lemma open_tty_frame:
  assumes "open_tty n r tc s = (fd, s')"
  shows "nm_ports s' = nm_ports s" "nports s' = nports s" "raw_mode s' = raw_mode s"
    "fd = (if r < 0 then -1 else r)"
    "\<exists>h. nevs s' = h @ OpenTty n r # nevs s \<and> (\<forall>e \<in> set h. \<exists>t. e = SetTty r t)"
  using assms by (auto simp: open_tty_def Let_def split: if_splits option.splits)

lemma listen_on_frame:
  assumes "listen_on sock bound s = (fd, s')"
  shows "nm_ports s' = nm_ports s" "nports s' = nports s" "base_port s' = base_port s"
    "fd = (if sock < 0 \<or> \<not> bound then -1 else sock)"
    "nevs s' = (if 0 \<le> sock \<and> \<not> bound then [CloseFd sock] else []) @ SocketFd sock # nevs s"
  using assms by (auto simp: listen_on_def Let_def nmev_def split: if_splits)

text \<open>Serving one port leaves the others alone.\<close>

definition only_port :: "nat \<Rightarrow> nmc \<Rightarrow> nmc \<Rightarrow> bool" where
  "only_port i s s' \<longleftrightarrow> length (nm_ports s') = length (nm_ports s) \<and> nports s' = nports s \<and>
     raw_mode s' = raw_mode s \<and> listen_fd (nm_ports s' ! i) = listen_fd (nm_ports s ! i) \<and>
     (\<forall>j. j \<noteq> i \<longrightarrow> nm_ports s' ! j = nm_ports s ! j)"

definition paired_port :: "port \<Rightarrow> bool" where
  "paired_port pt \<longleftrightarrow> (0 \<le> client_fd pt \<longleftrightarrow> 0 \<le> tty_fd pt)"

text \<open>The three parts of serving a port, each with what it does to the port and to the log.\<close>

lemma new_client_cases:
  fixes s :: nmc and p :: port_in and i :: nat
  assumes "i < length (nm_ports s)" and "client_fd (nm_ports s ! i) < 0" and "paired_port (nm_ports s ! i)"
  defines "s' \<equiv> new_client p i s" and "l \<equiv> listen_fd (nm_ports s ! i)"
  shows "only_port i s s' \<and>
    (accept_r p < 0 \<and> nevs s' = AcceptFd l (accept_r p) # nevs s \<and>
       client_fd (nm_ports s' ! i) < 0 \<and> tty_fd (nm_ports s' ! i) < 0 \<or>
     0 \<le> accept_r p \<and> open_r p < 0 \<and>
       nevs s' = [CloseFd (accept_r p), Wr (accept_r p) (refused_msg i), OpenTty i (open_r p), AcceptFd l (accept_r p)] @ nevs s \<and>
       client_fd (nm_ports s' ! i) < 0 \<and> tty_fd (nm_ports s' ! i) < 0 \<or>
     0 \<le> accept_r p \<and> 0 \<le> open_r p \<and>
       (\<exists>h. nevs s' = h @ [OpenTty i (open_r p), AcceptFd l (accept_r p)] @ nevs s \<and>
         (\<forall>e \<in> set h. e = Wr (accept_r p) hello \<or> (\<exists>t. e = SetTty (open_r p) t))) \<and>
       client_fd (nm_ports s' ! i) = accept_r p \<and> tty_fd (nm_ports s' ! i) = open_r p)"
proof -
  let ?s0 = "set_nm_port i (\<lambda>pt. pt\<lparr>client_fd := accept_r p\<rparr>) (nmev (AcceptFd l (accept_r p)) s)"
  obtain tfd t where o: "open_tty i (open_r p) (tc_r p) ?s0 = (tfd, t)" by fastforce
  note F = open_tty_frame [OF o]
  have t: "tty_fd (nm_ports s ! i) < 0" using assms(2,3) by (simp add: paired_port_def)
  show ?thesis
  proof (cases "accept_r p < 0")
    case True
    with assms(1) t show ?thesis
      by (simp add: s'_def l_def new_client_def Let_def only_port_def)
  next
    case False
    show ?thesis
    proof (cases "open_r p < 0")
      case True
      then have "nevs t = OpenTty i (open_r p) # AcceptFd l (accept_r p) # nevs s"
        using o by (simp add: open_tty_def Let_def) (metis nmev_simps(1) set_nm_port_simps(1))
      with True False assms(1) F(1-4) o show ?thesis
        by (simp add: s'_def l_def new_client_def Let_def only_port_def)
    next
      case ok: False
      from F(5) obtain h where h: "nevs t = h @ [OpenTty i (open_r p), AcceptFd l (accept_r p)] @ nevs s"
        "\<forall>e \<in> set h. \<exists>tt. e = SetTty (open_r p) tt"
        by auto
      have "\<exists>h. nevs s' = h @ [OpenTty i (open_r p), AcceptFd l (accept_r p)] @ nevs s \<and>
          (\<forall>e \<in> set h. e = Wr (accept_r p) hello \<or> (\<exists>t. e = SetTty (open_r p) t))"
        by (rule exI [of _ "(if raw_mode s then [] else [Wr (accept_r p) hello]) @ h"])
          (use ok False F(1-4) o h in \<open>simp add: s'_def l_def new_client_def Let_def\<close>)
      with ok False assms(1) F(1-4) o show ?thesis
        by (simp add: s'_def l_def new_client_def Let_def only_port_def)
    qed
  qed
qed

lemma answers_events:
  "e \<in> set (answers fd tty xs) \<Longrightarrow> (\<exists>bs. e = Wr fd bs) \<or> e = SendBreak tty"
proof (induction xs)
  case (Cons x xs)
  then show ?case by (cases x) (auto split: if_splits)
qed simp

lemma from_network_cases:
  fixes s :: nmc and p :: port_in and i :: nat
  assumes "i < length (nm_ports s)" and "0 \<le> client_fd (nm_ports s ! i)" and "paired_port (nm_ports s ! i)"
  defines "s' \<equiv> from_network p i s" and "c \<equiv> client_fd (nm_ports s ! i)" and "t \<equiv> tty_fd (nm_ports s ! i)"
  shows "only_port i s s' \<and>
    (nm_ports s' = nm_ports s \<and>
       (\<exists>h. nevs s' = h @ ReadFd c # nevs s \<and> (\<forall>e \<in> set h. (\<exists>bs. e = Wr c bs \<or> e = Wr t bs) \<or> e = SendBreak t)) \<or>
     nevs s' = [CloseFd t, CloseFd c, ReadFd c] @ nevs s \<and>
       client_fd (nm_ports s' ! i) < 0 \<and> tty_fd (nm_ports s' ! i) < 0)"
proof -
  have t: "0 \<le> t" using assms(2,3) by (simp add: paired_port_def t_def)
  show ?thesis
  proof (cases "\<exists>d ds. net_r p = Some (d # ds)")
    case False
    then have "(case net_r p of Some (c # cs) \<Rightarrow> x c cs | _ \<Rightarrow> y) = y" for x :: "u8 \<Rightarrow> u8 list \<Rightarrow> nmc" and y
      by (auto split: option.splits list.splits)
    with assms(1) t show ?thesis
      unfolding s'_def c_def t_def by (simp add: from_network_def Let_def only_port_def)
  next
    case True
    then obtain d ds where n: "net_r p = Some (d # ds)" by blast
    obtain k b h where f: "telnet_filter c t (d # ds) (length (d # ds)) (ReadFd c # nevs s) = (k, b, h)"
      by (metis prod_cases3)
    from telnet_filter_parse [OF _ f]
    have h: "h = rev (answers c t (parse (d # ds))) @ ReadFd c # nevs s" by simp
    let ?w = "if raw_mode s then [Wr t (d # ds)]
      else (if 0 < k then [Wr t (take k b)] else []) @ rev (answers c t (parse (d # ds)))"
    have "nevs s' = ?w @ ReadFd c # nevs s"
      using n f h t unfolding s'_def c_def t_def by (simp add: from_network_def Let_def nmev_def)
    moreover have "\<forall>e \<in> set ?w. (\<exists>bs. e = Wr c bs \<or> e = Wr t bs) \<or> e = SendBreak t"
      using answers_events by (fastforce split: if_splits)
    moreover have "nm_ports s' = nm_ports s" "nports s' = nports s" "raw_mode s' = raw_mode s"
      using n unfolding s'_def by (auto simp: from_network_def Let_def split: prod.splits)
    ultimately show ?thesis unfolding only_port_def by auto
  qed
qed

lemma telnet_write_events: "\<exists>h. telnet_write fd bs k = h @ k \<and> (\<forall>e \<in> set h. \<exists>cs. e = Wr fd cs)"
proof -
  from telnet_write_chunks [of fd bs k] obtain parts
    where "telnet_write fd bs k = rev (map (\<lambda>q. Wr fd (stuff IAC q)) parts) @ k" by blast
  then show ?thesis by (intro exI [of _ "rev (map (\<lambda>q. Wr fd (stuff IAC q)) parts)"]) auto
qed

lemma from_tty_cases:
  fixes s :: nmc and p :: port_in and i :: nat
  defines "s' \<equiv> from_tty p i s" and "c \<equiv> client_fd (nm_ports s ! i)" and "t \<equiv> tty_fd (nm_ports s ! i)"
  shows "nm_ports s' = nm_ports s \<and> nports s' = nports s \<and> raw_mode s' = raw_mode s \<and>
    (\<exists>h. nevs s' = h @ ReadFd t # nevs s \<and> (\<forall>e \<in> set h. \<exists>bs. e = Wr c bs))"
proof (cases "0 \<le> c \<and> (\<exists>d ds. tty_r p = Some (d # ds))")
  case False
  then have "from_tty p i s = nmev (ReadFd t) s"
    unfolding c_def t_def by (auto simp: from_tty_def Let_def split: option.splits list.splits)
  then show ?thesis unfolding s'_def by simp
next
  case True
  then obtain d ds where r: "tty_r p = Some (d # ds)" by blast
  obtain h where "telnet_write c (d # ds) (ReadFd t # nevs s) = h @ ReadFd t # nevs s" "\<forall>e \<in> set h. \<exists>cs. e = Wr c cs"
    using telnet_write_events by blast
  with r True show ?thesis
    unfolding s'_def c_def t_def by (auto simp: from_tty_def Let_def intro: exI [of _ "[Wr x y]" for x y])
qed

section \<open>Descriptors in use\<close>

text \<open>The descriptors that the log shows open.\<close>

fun held :: "nev list \<Rightarrow> int list" where
  "held [] = []"
| "held (AcceptFd l fd # h) = (if 0 \<le> fd then fd # held h else held h)"
| "held (OpenTty n fd # h) = (if 0 \<le> fd then fd # held h else held h)"
| "held (SocketFd fd # h) = (if 0 \<le> fd then fd # held h else held h)"
| "held (CloseFd fd # h) = remove1 fd (held h)"
| "held (_ # h) = held h"

fun quiet :: "nev \<Rightarrow> bool" where
  "quiet (Wr fd bs) = True"
| "quiet (SendBreak fd) = True"
| "quiet (SetTty fd t) = True"
| "quiet (ReadFd fd) = True"
| "quiet _ = False"

lemma held_quiet [simp]: "\<forall>e \<in> set h. quiet e \<Longrightarrow> held (h @ k) = held k"
proof (induction h)
  case (Cons e h)
  then show ?case by (cases e) simp_all
qed simp

definition port_fds :: "port \<Rightarrow> int list" where
  "port_fds pt = filter (\<lambda>fd. 0 \<le> fd) [listen_fd pt, client_fd pt, tty_fd pt]"

definition fds_upto :: "nat \<Rightarrow> nmc \<Rightarrow> int list" where
  "fds_upto k s = concat (map (\<lambda>i. port_fds (nm_ports s ! i)) [0..<k])"

definition all_fds :: "nmc \<Rightarrow> int list" where
  "all_fds s = fds_upto (nat (nports s)) s"

lemma fds_upto_Suc [simp]: "fds_upto (Suc k) s = fds_upto k s @ port_fds (nm_ports s ! k)"
  by (simp add: fds_upto_def)

lemma fds_upto_other: "only_port i s s' \<Longrightarrow> k \<le> i \<Longrightarrow> fds_upto k s' = fds_upto k s"
  by (induction k) (simp_all add: fds_upto_def only_port_def)

lemma fds_upto_update:
  assumes "only_port i s s'"
  shows "i < k \<Longrightarrow> mset (fds_upto k s') + mset (port_fds (nm_ports s ! i)) =
    mset (fds_upto k s) + mset (port_fds (nm_ports s' ! i))"
proof (induction k)
  case (Suc k)
  show ?case
  proof (cases "i = k")
    case True
    with fds_upto_other [OF assms] show ?thesis by simp
  next
    case False
    with Suc have "mset (fds_upto k s') + mset (port_fds (nm_ports s ! i)) =
      mset (fds_upto k s) + mset (port_fds (nm_ports s' ! i))" by simp
    moreover have "nm_ports s' ! k = nm_ports s ! k" using False assms by (simp add: only_port_def)
    ultimately show ?thesis by (simp add: ac_simps)
  qed
qed simp

text \<open>
  What the system promises of new descriptors: those it returns are not in use.
\<close>

definition fresh :: "port_in \<Rightarrow> nmc \<Rightarrow> bool" where
  "fresh p s \<longleftrightarrow> distinct (filter (\<lambda>fd. 0 \<le> fd) [accept_r p, open_r p] @ held (nevs s))"

definition accounted :: "nmc \<Rightarrow> bool" where
  "accounted s \<longleftrightarrow> distinct (held (nevs s)) \<and> mset (held (nevs s)) = mset (all_fds s)"

definition paired :: "nmc \<Rightarrow> bool" where
  "paired s \<longleftrightarrow> length (nm_ports s) = MAXP \<and> nports s \<le> int MAXP \<and>
     (\<forall>i < nat (nports s). paired_port (nm_ports s ! i))"

text \<open>One part of the service of a port keeps the pairing, and the account if new descriptors are fresh.\<close>

definition keeps_port :: "nat \<Rightarrow> bool \<Rightarrow> nmc \<Rightarrow> nmc \<Rightarrow> bool" where
  "keeps_port i fr s s' \<longleftrightarrow> only_port i s s' \<and> paired_port (nm_ports s' ! i) \<and>
     (fr \<and> distinct (held (nevs s)) \<and> set (port_fds (nm_ports s ! i)) \<subseteq> set (held (nevs s)) \<and>
      distinct (port_fds (nm_ports s ! i)) \<longrightarrow>
        distinct (held (nevs s')) \<and>
        mset (held (nevs s')) + mset (port_fds (nm_ports s ! i)) =
          mset (held (nevs s)) + mset (port_fds (nm_ports s' ! i)))"

lemma keeps_new_client:
  assumes "i < length (nm_ports s)" and "client_fd (nm_ports s ! i) < 0" and "paired_port (nm_ports s ! i)"
  shows "keeps_port i (fresh p s) s (new_client p i s)"
proof -
  have t: "tty_fd (nm_ports s ! i) < 0" using assms by (simp add: paired_port_def)
  let ?s' = "new_client p i s"
  note C = new_client_cases [OF assms, of p]
  then have "only_port i s ?s'" by blast
  then have l: "listen_fd (nm_ports ?s' ! i) = listen_fd (nm_ports s ! i)" by (simp add: only_port_def)
  from C consider
      (none) "accept_r p < 0" "nevs ?s' = AcceptFd (listen_fd (nm_ports s ! i)) (accept_r p) # nevs s"
        "client_fd (nm_ports ?s' ! i) < 0" "tty_fd (nm_ports ?s' ! i) < 0"
    | (refused) "0 \<le> accept_r p" "open_r p < 0"
        "nevs ?s' = [CloseFd (accept_r p), Wr (accept_r p) (refused_msg i), OpenTty i (open_r p),
           AcceptFd (listen_fd (nm_ports s ! i)) (accept_r p)] @ nevs s"
        "client_fd (nm_ports ?s' ! i) < 0" "tty_fd (nm_ports ?s' ! i) < 0"
    | (conn) h where "0 \<le> accept_r p" "0 \<le> open_r p"
        "nevs ?s' = h @ [OpenTty i (open_r p), AcceptFd (listen_fd (nm_ports s ! i)) (accept_r p)] @ nevs s"
        "\<forall>e \<in> set h. e = Wr (accept_r p) hello \<or> (\<exists>t. e = SetTty (open_r p) t)"
        "client_fd (nm_ports ?s' ! i) = accept_r p" "tty_fd (nm_ports ?s' ! i) = open_r p"
    by blast
  then show ?thesis
  proof cases
    case none
    with \<open>only_port i s ?s'\<close> l t assms(2) show ?thesis
      by (simp add: keeps_port_def paired_port_def port_fds_def)
  next
    case refused
    with \<open>only_port i s ?s'\<close> l t assms(2) show ?thesis
      by (simp add: keeps_port_def paired_port_def port_fds_def)
  next
    case conn
    have "\<forall>e \<in> set h. quiet e" using conn(4) by fastforce
    with conn \<open>only_port i s ?s'\<close> l t assms(2) show ?thesis
      by (auto simp: keeps_port_def paired_port_def port_fds_def fresh_def)
  qed
qed

lemma mset_take_two:
  assumes "a \<in> set xs" and "b \<in> set xs" and "a \<noteq> b"
  shows "add_mset a (add_mset b (mset xs - {#b, a#})) = mset xs"
proof (rule multiset_eqI)
  fix x
  have "count (mset xs) a \<noteq> 0" "count (mset xs) b \<noteq> 0"
    using assms(1,2) by (simp_all add: count_mset_0_iff)
  then show "count (add_mset a (add_mset b (mset xs - {#b, a#}))) x = count (mset xs) x"
    using assms(3) by auto
qed

lemma keeps_from_network:
  assumes "i < length (nm_ports s)" and "0 \<le> client_fd (nm_ports s ! i)" and "paired_port (nm_ports s ! i)"
  shows "keeps_port i fr s (from_network p i s)"
proof -
  let ?s' = "from_network p i s"
  let ?pt = "nm_ports s ! i"
  note C = from_network_cases [OF assms, of p]
  then have o: "only_port i s ?s'" by blast
  have t: "0 \<le> tty_fd ?pt" using assms by (simp add: paired_port_def)
  from C consider
      (open_) h where "nm_ports ?s' = nm_ports s" "nevs ?s' = h @ ReadFd (client_fd ?pt) # nevs s"
        "\<forall>e \<in> set h. (\<exists>bs. e = Wr (client_fd ?pt) bs \<or> e = Wr (tty_fd ?pt) bs) \<or> e = SendBreak (tty_fd ?pt)"
    | (closed) "nevs ?s' = [CloseFd (tty_fd ?pt), CloseFd (client_fd ?pt), ReadFd (client_fd ?pt)] @ nevs s"
        "client_fd (nm_ports ?s' ! i) < 0" "tty_fd (nm_ports ?s' ! i) < 0"
    by blast
  then show ?thesis
  proof cases
    case open_
    have "\<forall>e \<in> set h. quiet e" using open_(3) by fastforce
    with open_ o assms(3) show ?thesis by (simp add: keeps_port_def)
  next
    case closed
    have l: "listen_fd (nm_ports ?s' ! i) = listen_fd ?pt" using o by (simp add: only_port_def)
    show ?thesis
      using closed o l t assms(2) by (auto simp: keeps_port_def paired_port_def port_fds_def in_set_remove1 mset_take_two)
  qed
qed

lemma keeps_from_tty:
  assumes "paired_port (nm_ports s ! i)"
  shows "keeps_port i fr s (from_tty p i s)"
proof -
  obtain h where "nevs (from_tty p i s) = h @ ReadFd (tty_fd (nm_ports s ! i)) # nevs s"
    "\<forall>e \<in> set h. \<exists>bs. e = Wr (client_fd (nm_ports s ! i)) bs"
    using from_tty_cases [of p i s] by blast
  moreover from this(2) have "\<forall>e \<in> set h. quiet e" by fastforce
  ultimately show ?thesis
    using from_tty_cases [of p i s] assms by (simp add: keeps_port_def only_port_def)
qed

text \<open>The account of one port, with the rest of the table fixed.\<close>

lemma keeps_port_rest:
  assumes "keeps_port i fr s s'" and "fr" and "distinct (held (nevs s))"
    and "mset (held (nevs s)) = mset (port_fds (nm_ports s ! i)) + R"
  shows "distinct (held (nevs s')) \<and> mset (held (nevs s')) = mset (port_fds (nm_ports s' ! i)) + R"
proof -
  have "set (port_fds (nm_ports s ! i)) \<subseteq> set (held (nevs s))"
    using assms(4) by (metis mset_subset_eq_add_left set_mset_mono set_mset_mset)
  moreover have "distinct (port_fds (nm_ports s ! i))"
  proof -
    have "distinct (port_fds (nm_ports s ! i) @ sorted_list_of_multiset R)"
      using assms(3) by (subst mset_eq_imp_distinct_iff [of _ "held (nevs s)"]) (simp_all add: assms(4))
    then show ?thesis by simp
  qed
  ultimately have "distinct (held (nevs s'))"
    "mset (held (nevs s')) + mset (port_fds (nm_ports s ! i)) = mset (held (nevs s)) + mset (port_fds (nm_ports s' ! i))"
    using assms(1-3) by (simp_all add: keeps_port_def)
  then show ?thesis using assms(4) by (simp add: union_assoc union_commute)
qed

lemma keeps_port_trans:
  assumes "keeps_port i fr s t" and "keeps_port i fr t u"
  shows "keeps_port i fr s u"
proof -
  have "only_port i s u" using assms by (simp add: keeps_port_def only_port_def)
  moreover have "distinct (held (nevs u)) \<and>
      mset (held (nevs u)) + mset (port_fds (nm_ports s ! i)) = mset (held (nevs s)) + mset (port_fds (nm_ports u ! i))"
    if h: "fr" "distinct (held (nevs s))" "set (port_fds (nm_ports s ! i)) \<subseteq> set (held (nevs s))"
      "distinct (port_fds (nm_ports s ! i))"
  proof -
    have "mset (port_fds (nm_ports s ! i)) \<subseteq># mset (held (nevs s))"
      using h by (metis List.finite_set mset_set_set subset_imp_msubset_mset_set)
    then obtain R where R: "mset (held (nevs s)) = mset (port_fds (nm_ports s ! i)) + R"
      by (metis subset_mset.le_iff_add)
    from keeps_port_rest [OF assms(1) h(1,2) R]
    have t: "distinct (held (nevs t))" "mset (held (nevs t)) = mset (port_fds (nm_ports t ! i)) + R" by simp_all
    from keeps_port_rest [OF assms(2) h(1) t] R show ?thesis by (simp add: ac_simps)
  qed
  ultimately show ?thesis using assms(2) by (simp add: keeps_port_def)
qed

lemma keeps_port_refl: "paired_port (nm_ports s ! i) \<Longrightarrow> keeps_port i fr s s"
  by (simp add: keeps_port_def only_port_def)

lemma port_in_upto: "i < k \<Longrightarrow> mset (port_fds (nm_ports s ! i)) \<subseteq># mset (fds_upto k s)"
  by (induction k) (auto simp: less_Suc_eq intro: subset_mset.order_trans)

lemma keeps_serve_port:
  assumes "i < length (nm_ports s)" and "paired_port (nm_ports s ! i)"
  shows "keeps_port i (fresh p s) s (serve_port ready p i s)"
proof -
  let ?pt = "nm_ports s ! i"
  define s1 where "s1 = (if 0 \<le> listen_fd ?pt \<and> client_fd ?pt < 0 \<and> ready (listen_fd ?pt) then new_client p i s else s)"
  define s2 where "s2 = (if 0 \<le> client_fd (nm_ports s1 ! i) \<and> ready (client_fd (nm_ports s1 ! i)) then from_network p i s1 else s1)"
  have e: "serve_port ready p i s = (if 0 \<le> tty_fd (nm_ports s2 ! i) \<and> ready (tty_fd (nm_ports s2 ! i)) then from_tty p i s2 else s2)"
    by (simp only: serve_port_def s1_def s2_def Let_def)
  have k1: "keeps_port i (fresh p s) s s1"
    using keeps_new_client [OF assms(1) _ assms(2)] keeps_port_refl [of s i] assms by (auto simp: s1_def)
  then have l1: "i < length (nm_ports s1)" "paired_port (nm_ports s1 ! i)"
    using assms(1) by (simp_all add: keeps_port_def only_port_def)
  have k2: "keeps_port i (fresh p s) s1 s2"
    using keeps_from_network [OF l1(1) _ l1(2)] keeps_port_refl [of s1 i] l1 by (auto simp: s2_def)
  then have l2: "paired_port (nm_ports s2 ! i)" by (simp add: keeps_port_def)
  have "keeps_port i (fresh p s) s2 (serve_port ready p i s)"
    unfolding e using keeps_from_tty [of s2 i] keeps_port_refl [of s2 i] l2 by auto
  with k1 k2 show ?thesis by (blast intro: keeps_port_trans)
qed

lemma serve_port_paired:
  assumes "paired s" and "i < nat (nports s)"
  shows "paired (serve_port ready p i s)" and "nports (serve_port ready p i s) = nports s"
    and "fresh p s \<Longrightarrow> accounted s \<Longrightarrow> accounted (serve_port ready p i s)"
proof -
  let ?s' = "serve_port ready p i s"
  have i: "i < length (nm_ports s)" "paired_port (nm_ports s ! i)" using assms by (auto simp: paired_def)
  note k = keeps_serve_port [OF i, of p ready]
  then have o: "only_port i s ?s'" "paired_port (nm_ports ?s' ! i)" by (simp_all add: keeps_port_def)
  then show n: "nports ?s' = nports s" by (simp add: only_port_def)
  show "paired ?s'"
    using o assms(1) by (auto simp: paired_def only_port_def)
  assume f: "fresh p s" and a: "accounted s"
  note u = fds_upto_update [OF o(1) assms(2)]
  have sub: "mset (port_fds (nm_ports s ! i)) \<subseteq># mset (fds_upto (nat (nports s)) s)"
    by (rule port_in_upto [OF assms(2)])
  then obtain R where R: "mset (all_fds s) = mset (port_fds (nm_ports s ! i)) + R"
    by (metis all_fds_def subset_mset.le_iff_add)
  with a have "distinct (held (nevs s))" "mset (held (nevs s)) = mset (port_fds (nm_ports s ! i)) + R"
    by (simp_all add: accounted_def)
  from keeps_port_rest [OF k f this] u R show "accounted ?s'"
    by (simp add: accounted_def all_fds_def n ac_simps)
qed

section \<open>Runs\<close>

definition fresh_socket :: "int \<times> bool \<Rightarrow> nmc \<Rightarrow> bool" where
  "fresh_socket r s \<longleftrightarrow> (0 \<le> fst r \<longrightarrow> fst r \<notin> set (held (nevs s)))"

fun fresh_listen :: "(int \<times> bool) list \<Rightarrow> nat \<Rightarrow> nat \<Rightarrow> nmc \<Rightarrow> bool" where
  "fresh_listen os 0 i s = True"
| "fresh_listen os (Suc k) i s =
     (fresh_socket (os ! i) s \<and> fresh_listen os k (i + 1) (snd (listen_port (os ! i) i s)))"

fun fresh_ports :: "(int \<Rightarrow> bool) \<Rightarrow> port_in list \<Rightarrow> nat list \<Rightarrow> nmc \<Rightarrow> bool" where
  "fresh_ports ready ps [] s = True"
| "fresh_ports ready ps (i # is) s =
     (fresh (ps ! i) s \<and> fresh_ports ready ps is (serve_port ready (ps ! i) i s))"

definition fresh_turn :: "select_r \<times> port_in list \<Rightarrow> nmc \<Rightarrow> bool" where
  "fresh_turn t s =
     (watched s = [] \<or>
      (case fst t of Ready ready \<Rightarrow> fresh_ports ready (snd t) [0..<nat (nports s)] s | _ \<Rightarrow> True))"

fun fresh_turns :: "(select_r \<times> port_in list) list \<Rightarrow> nmc \<Rightarrow> bool" where
  "fresh_turns [] s = True"
| "fresh_turns (t # ts) s = (fresh_turn t s \<and> fresh_turns ts (snd (nm_turn t s)))"

lemma serve_ports_paired:
  "paired s \<Longrightarrow> set ks \<subseteq> {..<nat (nports s)} \<Longrightarrow>
   paired (foldl (\<lambda>s i. serve_port ready (ps ! i) i s) s ks) \<and>
   nports (foldl (\<lambda>s i. serve_port ready (ps ! i) i s) s ks) = nports s \<and>
   (fresh_ports ready ps ks s \<and> accounted s \<longrightarrow> accounted (foldl (\<lambda>s i. serve_port ready (ps ! i) i s) s ks))"
proof (induction ks arbitrary: s)
  case (Cons i ks)
  from Cons.prems have i: "i < nat (nports s)" by simp
  note S = serve_port_paired [OF Cons.prems(1) i, where ready = ready and p = "ps ! i"]
  from Cons.IH [OF S(1)] S(2,3) Cons.prems show ?case by simp
qed simp

lemma nm_turn_paired:
  assumes "paired s" and "nm_turn t s = (go, s')"
  shows "paired s' \<and> (fresh_turn t s \<and> accounted s \<longrightarrow> accounted s')"
proof -
  have "set [0..<nat (nports s)] \<subseteq> {..<nat (nports s)}" by auto
  note S = serve_ports_paired [OF assms(1) this]
  from assms S show ?thesis
    by (cases "fst t") (auto simp: nm_turn_def fresh_turn_def split: if_splits)
qed

lemma nm_loop_paired:
  assumes "paired s"
  shows "paired (snd (nm_loop ts s)) \<and>
    (fresh_turns ts s \<and> accounted s \<longrightarrow> accounted (snd (nm_loop ts s)))"
  using assms
proof (induction ts arbitrary: s)
  case (Cons t ts)
  obtain go s1 where t: "nm_turn t s = (go, s1)" by fastforce
  note T = nm_turn_paired [OF Cons.prems t]
  show ?case
  proof (cases go)
    case True
    with T t Cons.IH [of s1] show ?thesis by auto
  next
    case False
    with T t show ?thesis by auto
  qed
qed simp

text \<open>The start: the ports set up so far.\<close>

definition started :: "nat \<Rightarrow> nmc \<Rightarrow> bool" where
  "started i s \<longleftrightarrow> length (nm_ports s) = MAXP \<and>
     (\<forall>j < i. client_fd (nm_ports s ! j) = -1 \<and> tty_fd (nm_ports s ! j) = -1)"

definition accounted_upto :: "nat \<Rightarrow> nmc \<Rightarrow> bool" where
  "accounted_upto i s \<longleftrightarrow> distinct (held (nevs s)) \<and> mset (held (nevs s)) = mset (fds_upto i s)"

lemma listen_port_started:
  assumes "started i s" and "i < MAXP" and "listen_port r i s = (ok, s')"
  shows "started (i + 1) s' \<and> nports s' = nports s \<and>
    (fresh_socket r s \<and> accounted_upto i s \<longrightarrow> accounted_upto (i + 1) s')"
proof -
  let ?s = "set_nm_port i (\<lambda>pt. pt\<lparr>client_fd := -1, tty_fd := -1, tcp_port := base_port s + int i\<rparr>) s"
  obtain fd t where l: "listen_on (fst r) (snd r) ?s = (fd, t)" by fastforce
  note L = listen_on_frame [OF l]
  have i: "i < length (nm_ports s)" using assms by (simp add: started_def)
  have s': "s' = set_nm_port i (\<lambda>pt. pt\<lparr>listen_fd := fd\<rparr>) t"
    using assms(3) l by (simp add: listen_port_def Let_def)
  have p: "nm_ports s' ! j = (if j = i then (nm_ports s ! i)\<lparr>client_fd := -1, tty_fd := -1,
      tcp_port := base_port s + int i, listen_fd := fd\<rparr> else nm_ports s ! j)" for j
    using i L(1) by (simp add: s')
  have "map (\<lambda>j. port_fds (nm_ports s' ! j)) [0..<i] = map (\<lambda>j. port_fds (nm_ports s ! j)) [0..<i]"
    by (rule map_cong) (simp_all add: p)
  then have "fds_upto i s' = fds_upto i s" by (simp only: fds_upto_def)
  moreover have "held (nevs s') = (if 0 \<le> fst r \<and> snd r then fst r # held (nevs s) else held (nevs s))"
    using L(5) by (simp add: s')
  ultimately have "fresh_socket r s \<and> accounted_upto i s \<longrightarrow> accounted_upto (i + 1) s'"
    using L(4) by (auto simp: accounted_upto_def p port_fds_def fresh_socket_def)
  moreover have "length (nm_ports s') = length (nm_ports s)"
    using L(1) by (simp add: s')
  then have "started (i + 1) s'"
    using assms(1) by (auto simp: started_def p less_Suc_eq)
  ultimately show ?thesis using L(2) by (auto simp: s')
qed

lemma listen_all_started:
  assumes "started i s" and "i + k \<le> MAXP"
  shows "started (i + k) (snd (listen_all os k i up s)) \<and> nports (snd (listen_all os k i up s)) = nports s \<and>
    (fresh_listen os k i s \<and> accounted_upto i s \<longrightarrow> accounted_upto (i + k) (snd (listen_all os k i up s)))"
  using assms
proof (induction k arbitrary: i up s)
  case (Suc k)
  obtain ok s1 where l: "listen_port (os ! i) i s = (ok, s1)" by fastforce
  have "i < MAXP" using Suc.prems by simp
  note L = listen_port_started [OF Suc.prems(1) this l]
  from L Suc.IH [of "i + 1" s1] Suc.prems l show ?case by auto
qed simp

lemma conf_loop_frame:
  "nm_ports (snd (conf_loop f cnt s)) = nm_ports s \<and> nevs (snd (conf_loop f cnt s)) = nevs s"
proof (induction f cnt s rule: conf_loop.induct)
  case (1 f cnt s)
  show ?case
  proof (cases "f = []")
    case True
    then show ?thesis by (simp add: conf_loop.simps)
  next
    case False
    obtain l r where l: "fgets 127 f = (l, r)" by fastforce
    have e: "conf_loop f cnt s = (case speed_line l of None \<Rightarrow> conf_loop r cnt s
        | Some (n, baud) \<Rightarrow> conf_loop r (cnt + 1) (set_port_speed n baud s))"
      using False l by (subst conf_loop.simps) simp
    note IH = "1.IH" [OF False l [symmetric] refl]
    show ?thesis
    proof (cases "speed_line l")
      case None
      with IH e show ?thesis by simp
    next
      case (Some nb)
      obtain n baud where "nb = (n, baud)" by fastforce
      with IH(2) [OF Some] e Some show ?thesis by (simp add: set_port_speed_def)
    qed
  qed
qed

lemma nm_args_frame:
  "nm_ports (nm_args files as s) = nm_ports s \<and> nevs (nm_args files as s) = nevs s"
  by (induction files as s rule: nm_args.induct)
    (simp_all add: set_port_speed_def load_speed_conf_def conf_loop_frame split: option.splits)

definition fresh_start :: "(string \<Rightarrow> string option) \<Rightarrow> string list \<Rightarrow> (int \<times> bool) list \<Rightarrow> bool" where
  "fresh_start files args os =
     (let s = nm_args files args nm_start;
          s = (if int MAXP < nports s then s\<lparr>nports := int MAXP\<rparr> else s)
      in fresh_listen os (nat (nports s)) 0 s)"

lemma nm_init_paired:
  fixes files :: "string \<Rightarrow> string option" and args :: "string list" and os :: "(int \<times> bool) list"
  defines "s \<equiv> snd (nm_init files args os)"
  shows "paired s \<and> (fresh_start files args os \<longrightarrow> accounted s)"
proof -
  define s0 where "s0 = (let s = nm_args files args nm_start
    in if int MAXP < nports s then s\<lparr>nports := int MAXP\<rparr> else s)"
  have e: "s = snd (listen_all os (nat (nports s0)) 0 0 s0)" "fresh_start files args os = fresh_listen os (nat (nports s0)) 0 s0"
    by (simp_all add: s_def nm_init_def s0_def fresh_start_def Let_def)
  have "length (nm_ports s0) = MAXP" "nevs s0 = []" "nports s0 \<le> int MAXP"
    using nm_args_frame [of files args nm_start] by (auto simp: s0_def Let_def nm_start_def)
  moreover from this have "started 0 s0" "accounted_upto 0 s0"
    by (simp_all add: started_def accounted_upto_def fds_upto_def)
  ultimately show ?thesis
    using listen_all_started [of 0 s0 "nat (nports s0)" os 0]
    unfolding e by (auto simp: paired_def paired_port_def started_def accounted_def accounted_upto_def all_fds_def)
qed

section \<open>Properties\<close>

text \<open>C26. However the server was started and whatever its system calls return, it has at most 32 ports,
  and on every one of them the tty is open exactly while a client is connected.\<close>

theorem tty_open_iff_client:
  "let s = snd (nm_loop ts (snd (nm_init files args os)))
   in nports s \<le> 32 \<and>
     list_all (\<lambda>i. (0 \<le> client_fd (nm_ports s ! i)) = (0 \<le> tty_fd (nm_ports s ! i))) [0..<nat (nports s)]"
proof -
  have "paired (snd (nm_loop ts (snd (nm_init files args os))))"
    using nm_init_paired nm_loop_paired by blast
  then show ?thesis by (auto simp: Let_def paired_def paired_port_def list_all_iff)
qed

text \<open>C27. If every descriptor the system hands out is one not in use, then the descriptors open at any
  time are exactly the listeners, clients and ttys of the port table, each there once: none is leaked,
  none is closed while in the table, and no two ports share one.\<close>

theorem descriptors_accounted:
  assumes "fresh_start files args os" and "fresh_turns ts (snd (nm_init files args os))"
  shows "let s = snd (nm_loop ts (snd (nm_init files args os)))
    in distinct (all_fds s) \<and> set (held (nevs s)) = set (all_fds s)"
proof -
  have "accounted (snd (nm_loop ts (snd (nm_init files args os))))"
    using assms nm_init_paired [of files args os] nm_loop_paired [of "snd (nm_init files args os)" ts] by blast
  then have a: "distinct (held (nevs (snd (nm_loop ts (snd (nm_init files args os))))))"
    "mset (held (nevs (snd (nm_loop ts (snd (nm_init files args os)))))) = mset (all_fds (snd (nm_loop ts (snd (nm_init files args os)))))"
    by (simp_all add: accounted_def)
  from mset_eq_setD [OF a(2)] mset_eq_imp_distinct_iff [OF a(2)] a(1) show ?thesis
    unfolding Let_def by blast
qed

definition demo_in :: "u8 list option \<Rightarrow> port_in" where
  "demo_in net = \<lparr>accept_r = 4, open_r = 5, tc_r = None, net_r = net, tty_r = None\<rparr>"

lemma demo_atoi: "atoi ''1'' = 1"
  by (simp add: atoi_def scan_int_def isspace_def digit_val_def Let_def)

lemma demo_init:
  "nm_init Map.empty [''--ports'', ''1''] [(3, True)] =
    (1, nm_start\<lparr>nports := 1, nevs := [SocketFd 3],
      nm_ports := (nm_ports nm_start)[0 := \<lparr>listen_fd = 3, client_fd = -1, tty_fd = -1, tcp_port = 2000\<rparr>]\<rparr>)"
  by (simp add: nm_init_def demo_atoi nm_start_def listen_port_def listen_on_def set_nm_port_def nmev_def Let_def)

lemmas demo_turn_defs = nm_turn_def watched_def watched_port_def serve_port_def new_client_def from_network_def
  open_tty_def set_nm_port_def nmev_def demo_in_def nm_start_def fresh_turn_def fresh_def

theorem descriptors_accounted_witness:
  "set (held (nevs (snd (nm_loop
     [(Ready (\<lambda>fd. fd = 3), [demo_in None]), (Ready (\<lambda>fd. fd = 4), [(demo_in None)\<lparr>accept_r := -1, open_r := -1\<rparr>])]
     (snd (nm_init Map.empty [''--ports'', ''1''] [(3, True)])))))) = {3}"
proof -
  let ?s = "snd (nm_init Map.empty [''--ports'', ''1''] [(3, True)])"
  let ?ts = "[(Ready (\<lambda>fd. fd = 3), [demo_in None]), (Ready (\<lambda>fd. fd = 4), [(demo_in None)\<lparr>accept_r := -1, open_r := -1\<rparr>])]"
  have "fresh_start Map.empty [''--ports'', ''1''] [(3, True)]"
    by (simp add: fresh_start_def demo_atoi nm_start_def fresh_socket_def Let_def)
  moreover have "fresh_turns ?ts ?s"
    unfolding demo_init by (simp add: demo_turn_defs Let_def)
  ultimately have "set (held (nevs (snd (nm_loop ?ts ?s)))) = set (all_fds (snd (nm_loop ?ts ?s)))"
    using descriptors_accounted [of Map.empty "[''--ports'', ''1'']" "[(3, True)]" ?ts] by (simp add: Let_def)
  also have "all_fds (snd (nm_loop ?ts ?s)) = [3]"
    unfolding demo_init by (simp add: demo_turn_defs all_fds_def fds_upto_def port_fds_def Let_def)
  finally show ?thesis by simp
qed

text \<open>The negotiation replies to what a client said.\<close>

definition replies :: "said list \<Rightarrow> u8 list" where
  "replies xs = concat (map (\<lambda>x. case x of Asks c q \<Rightarrow> [IAC, refusal c, q] | _ \<Rightarrow> []) xs)"

lemma written_answers:
  "written f (rev (answers fd tty xs)) = (if f = fd then replies xs else [])"
proof (induction xs)
  case (Cons x xs)
  then show ?case by (cases x) (auto simp: replies_def)
qed (simp add: replies_def)

lemma written_telnet_write: "written f (telnet_write fd bs k) = written f k @ (if f = fd then stuff IAC bs else [])"
proof -
  obtain parts where p: "telnet_write fd bs k = rev (map (\<lambda>q. Wr fd (stuff IAC q)) parts) @ k" "concat parts = bs"
    using telnet_write_chunks by blast
  show ?thesis
  proof (cases "f = fd")
    case True
    then show ?thesis using p by simp
  next
    case False
    then have "written f (rev (map (\<lambda>q. Wr fd (stuff IAC q)) parts)) = []"
      by (induction parts) simp_all
    then show ?thesis using p False by simp
  qed
qed

text \<open>When both sides of a connected port are ready, serving it writes to the tty exactly the data
  bytes the client sent and to the client exactly the refusals of its requests followed by the doubled
  form of what the tty sent, in one pass and with nothing to any other descriptor; the port stays
  connected.\<close>

theorem relay_exact:
  assumes "0 \<le> client_fd (nm_ports s ! i)" and "0 \<le> tty_fd (nm_ports s ! i)"
    and "client_fd (nm_ports s ! i) \<noteq> tty_fd (nm_ports s ! i)" and "\<not> raw_mode s"
    and "ready (client_fd (nm_ports s ! i))" and "ready (tty_fd (nm_ports s ! i))"
    and "net_r p = Some net" and "net \<noteq> []" and "tty_r p = Some ser" and "ser \<noteq> []"
  shows "nm_ports (serve_port ready p i s) = nm_ports s \<and>
    written f (nevs (serve_port ready p i s)) = written f (nevs s) @
      (if f = tty_fd (nm_ports s ! i) then data_of (parse net)
       else if f = client_fd (nm_ports s ! i) then replies (parse net) @ stuff IAC ser else [])"
proof -
  let ?c = "client_fd (nm_ports s ! i)" and ?t = "tty_fd (nm_ports s ! i)"
  obtain d ds e es where n: "net = d # ds" "ser = e # es" using assms(8,10) by (meson list.exhaust)
  obtain k b h where f: "telnet_filter ?c ?t net (length net) (ReadFd ?c # nevs s) = (k, b, h)"
    by (metis prod_cases3)
  from telnet_filter_parse [OF _ f] have F: "take k b = data_of (parse net)" "k \<le> length net"
      "h = rev (answers ?c ?t (parse net)) @ ReadFd ?c # nevs s" by simp_all
  let ?s = "s\<lparr>nevs := (if 0 < k then [Wr ?t (take k b)] else []) @ h\<rparr>"
  have net: "from_network p i s = ?s"
    using assms f n by (simp add: from_network_def Let_def nmev_def)
  have "serve_port ready p i s = from_tty p i ?s"
    using assms net by (simp add: serve_port_def Let_def)
  also have "\<dots> = ?s\<lparr>nevs := telnet_write ?c ser (ReadFd ?t # nevs ?s)\<rparr>"
    using assms n by (simp add: from_tty_def Let_def nmev_def)
  finally have s: "serve_port ready p i s = ?s\<lparr>nevs := telnet_write ?c ser (ReadFd ?t # nevs ?s)\<rparr>" .
  have "written ?t (if 0 < k then [Wr ?t (take k b)] else []) = data_of (parse net)"
    using F(1) by auto
  then show ?thesis
    unfolding s using F assms(3) by (auto simp: written_telnet_write written_answers)
qed

theorem relay_exact_witness:
  "written 5 (nevs (serve_port (\<lambda>fd. True) ((demo_in (Some [0x61, IAC, DO, 1]))\<lparr>tty_r := Some [IAC]\<rparr>) 0
     (nm_start\<lparr>nm_ports := [\<lparr>listen_fd = 3, client_fd = 4, tty_fd = 5, tcp_port = 2000\<rparr>]\<rparr>))) = [0x61]"
proof -
  let ?s = "nm_start\<lparr>nm_ports := [\<lparr>listen_fd = 3, client_fd = 4, tty_fd = 5, tcp_port = 2000\<rparr>]\<rparr>"
  have "parse [0x61, IAC, DO, 1] = [Data 0x61, Asks DO 1]" by (simp add: is_negotiation_def)
  then show ?thesis
    using relay_exact [of ?s 0 "\<lambda>fd. True" "(demo_in (Some [0x61, IAC, DO, 1]))\<lparr>tty_r := Some [IAC]\<rparr>"
        "[0x61, IAC, DO, 1]" "[IAC]" 5]
    by (simp add: demo_in_def nm_start_def)
qed

text \<open>The listeners on which a connection was accepted.\<close>

fun accepted_on :: "nev list \<Rightarrow> int list" where
  "accepted_on [] = []"
| "accepted_on (AcceptFd l fd # h) = l # accepted_on h"
| "accepted_on (_ # h) = accepted_on h"

lemma accepted_on_quiet: "\<forall>e \<in> set h. quiet e \<Longrightarrow> accepted_on (h @ k) = accepted_on k"
proof (induction h)
  case (Cons e h)
  then show ?case by (cases e) simp_all
qed simp

text \<open>While a client is connected the port's listener is neither watched by select nor accepted on when the
  port is served: a second client waits for the first to leave, it does not take over.\<close>

theorem first_client_stays:
  assumes "i < length (nm_ports s)" and "0 \<le> client_fd (nm_ports s ! i)" and "0 \<le> tty_fd (nm_ports s ! i)"
  shows "watched_port (nm_ports s ! i) = [client_fd (nm_ports s ! i), tty_fd (nm_ports s ! i)] \<and>
    accepted_on (nevs (serve_port ready p i s)) = accepted_on (nevs s)"
proof -
  let ?c = "client_fd (nm_ports s ! i)"
  define s2 where "s2 = (if ready ?c then from_network p i s else s)"
  have e: "serve_port ready p i s =
      (if 0 \<le> tty_fd (nm_ports s2 ! i) \<and> ready (tty_fd (nm_ports s2 ! i)) then from_tty p i s2 else s2)"
    using assms by (simp add: serve_port_def s2_def Let_def)
  have "paired_port (nm_ports s ! i)" using assms by (simp add: paired_port_def)
  from from_network_cases [OF assms(1,2) this, of p]
  have "accepted_on (nevs (from_network p i s)) = accepted_on (nevs s)"
  proof (elim conjE disjE exE)
    fix h
    assume "nevs (from_network p i s) = h @ ReadFd ?c # nevs s"
      and "\<forall>e \<in> set h. (\<exists>bs. e = Wr ?c bs \<or> e = Wr (tty_fd (nm_ports s ! i)) bs) \<or> e = SendBreak (tty_fd (nm_ports s ! i))"
    moreover from this(2) have "\<forall>e \<in> set h. quiet e" by fastforce
    ultimately show ?thesis by (simp add: accepted_on_quiet)
  qed simp
  then have a: "accepted_on (nevs s2) = accepted_on (nevs s)" by (simp add: s2_def)
  obtain h where "nevs (from_tty p i s2) = h @ ReadFd (tty_fd (nm_ports s2 ! i)) # nevs s2"
    "\<forall>e \<in> set h. \<exists>bs. e = Wr (client_fd (nm_ports s2 ! i)) bs"
    using from_tty_cases [of p i s2] by blast
  moreover from this(2) have "\<forall>e \<in> set h. quiet e" by fastforce
  ultimately have "accepted_on (nevs (from_tty p i s2)) = accepted_on (nevs s2)" by (simp add: accepted_on_quiet)
  with a e assms show ?thesis by (simp add: watched_port_def)
qed

theorem first_client_stays_witness:
  "accepted_on (nevs (serve_port (\<lambda>fd. True) (demo_in (Some [0x61])) 0
     (nm_start\<lparr>nm_ports := [\<lparr>listen_fd = 3, client_fd = 4, tty_fd = 5, tcp_port = 2000\<rparr>]\<rparr>))) = []"
  using first_client_stays [of 0 "nm_start\<lparr>nm_ports := [\<lparr>listen_fd = 3, client_fd = 4, tty_fd = 5, tcp_port = 2000\<rparr>]\<rparr>"
      "\<lambda>fd. True" "demo_in (Some [0x61])"]
  by (simp add: nm_start_def)

text \<open>A ready set outlives the descriptors it was made for.  Here the client of port 0 has left, and in the
  same turn port 1 accepts a new client and gets the number just freed: the server reads from the new
  client although select reported nothing about it, and a client socket is a blocking one.\<close>

lemma stale_ready_read:
  "let p = \<lparr>accept_r = 4, open_r = 6, tc_r = None, net_r = None, tty_r = None\<rparr>;
       s = nm_start\<lparr>nports := 2, nm_ports := [\<lparr>listen_fd = 3, client_fd = 4, tty_fd = 5, tcp_port = 2000\<rparr>,
         \<lparr>listen_fd = 7, client_fd = -1, tty_fd = -1, tcp_port = 2001\<rparr>]\<rparr>
   in watched s = [4, 5, 7] \<and>
     nevs (snd (nm_turn (Ready (\<lambda>fd. fd = 4 \<or> fd = 7), [p, p]) s)) =
       [CloseFd 6, CloseFd 4, ReadFd 4, Wr 4 hello, OpenTty 1 6, AcceptFd 7 4, CloseFd 5, CloseFd 4, ReadFd 4]"
proof -
  have "[0..<2] = [0, 1 :: nat]" by (simp add: upt_rec)
  then show ?thesis by (simp add: demo_turn_defs Let_def del: concat_eq_Nil_conv)
qed

section \<open>The speed table\<close>

definition speed_entry :: "int \<times> int \<times> string \<Rightarrow> string" where
  "speed_entry e = (case e of (n, baud, cm) \<Rightarrow> show_int n @ '' '' @ show_int baud @ '' #'' @ cm)"

lemma scan_int_digit_stop: "scan_int (show_int v @ CHR '' '' # r) = Some (v, CHR '' '' # r)"
  using scan_int_show [of "[]" "CHR '' '' # r" v] by (simp add: digit_val_def Let_def)

lemma scan_int_space: "scan_int (CHR '' '' # s) = scan_int s"
  by (simp add: scan_int_def isspace_def)

lemma show_int_chars: "c \<in> set (show_int v) \<Longrightarrow> c \<noteq> CHR ''#'' \<and> c \<noteq> CHR 0x00 \<and> c \<noteq> CHR 0x0A"
  using show_nat_digit_val [of c] digit_not_space [of c] by (auto simp: show_int_def isspace_def split: if_splits)

lemma takeWhile_all: "\<forall>c \<in> set xs. P c \<Longrightarrow> takeWhile P (xs @ ys) = xs @ takeWhile P ys"
  by (induction xs) auto

lemma speed_line_entry: "speed_line (speed_entry (n, baud, cm) @ r) = Some (n, baud)"
proof -
  let ?A = "show_int n @ '' '' @ show_int baud @ '' ''"
  have e: "speed_entry (n, baud, cm) @ r = ?A @ CHR ''#'' # cm @ r" by (simp add: speed_entry_def)
  have A: "\<forall>c \<in> set ?A. c \<noteq> CHR ''#'' \<and> c \<noteq> CHR 0x00" using show_int_chars by auto
  then have "takeWhile (\<lambda>c. c \<noteq> CHR 0x00) (?A @ CHR ''#'' # cm @ r) =
      ?A @ CHR ''#'' # takeWhile (\<lambda>c. c \<noteq> CHR 0x00) (cm @ r)"
    by (subst takeWhile_all) simp_all
  moreover have "takeWhile (\<lambda>c. c \<noteq> CHR ''#'') (?A @ CHR ''#'' # x) = ?A" for x
    using A by (subst takeWhile_all) simp_all
  ultimately have "takeWhile (\<lambda>c. c \<noteq> CHR ''#'') (takeWhile (\<lambda>c. c \<noteq> CHR 0x00) (speed_entry (n, baud, cm) @ r)) = ?A"
    by (simp only: e)
  then show ?thesis
    using scan_int_digit_stop [of n "show_int baud @ '' ''"] scan_int_digit_stop [of baud "[]"]
    by (simp add: speed_line_def scan_int_space)
qed

lemma conf_loop_entries:
  "\<forall>e \<in> set es. CHR 0x0A \<notin> set (speed_entry e) \<and> length (speed_entry e) < 127 \<Longrightarrow>
   conf_loop (concat (map (\<lambda>e. speed_entry e @ [CHR 0x0A]) es)) cnt s =
     (cnt + length es, foldl (\<lambda>s (n, baud, cm). set_port_speed n baud s) s es)"
proof (induction es arbitrary: cnt s)
  case Nil
  then show ?case by (simp add: conf_loop.simps)
next
  case (Cons e es)
  obtain n baud cm where e: "e = (n, baud, cm)" by (metis prod_cases3)
  let ?r = "concat (map (\<lambda>e. speed_entry e @ [CHR 0x0A]) es)"
  have "fgets 127 (speed_entry e @ CHR 0x0A # ?r) = (speed_entry e @ [CHR 0x0A], ?r)"
    by (rule fgets_line) (use Cons.prems in simp_all)
  then have "conf_loop (speed_entry e @ CHR 0x0A # ?r) cnt s = conf_loop ?r (cnt + 1) (set_port_speed n baud s)"
    by (subst conf_loop.simps) (simp add: e speed_line_entry)
  with Cons.IH [of "cnt + 1" "set_port_speed n baud s"] Cons.prems e show ?case by simp
qed

text \<open>C29. Reading back a speed table written one entry to a line, with a comment after each, sets exactly
  those speeds in order, later entries for a port winning, ignores ports the server does not have, and
  counts the lines; provided each line fits the read buffer.\<close>

theorem speed_table_read:
  assumes "list_all (\<lambda>e. CHR 0x0A \<notin> set (speed_entry e) \<and> length (speed_entry e) < 127) es"
  shows "load_speed_conf (Some (concat (map (\<lambda>e. speed_entry e @ [CHR 0x0A]) es))) s =
    (length es, foldl (\<lambda>s (n, baud, cm). set_port_speed n baud s) s es)"
  using conf_loop_entries [of es 0 s] assms by (simp add: load_speed_conf_def list_all_iff)

theorem speed_table_read_witness:
  "load_speed_conf (Some (''3 19200 # lab'' @ [CHR 0x0A] @ ''40 1200 # no such port'' @ [CHR 0x0A])) nm_start =
    (2, set_port_speed 3 19200 nm_start)"
proof -
  have "speed_entry (3, 19200, '' lab'') = ''3 19200 # lab''"
    "speed_entry (40, 1200, '' no such port'') = ''40 1200 # no such port''"
    by (simp_all add: speed_entry_def show_int_def show_nat.simps char_of_def bit_Suc_0_iff)
  moreover have "set_port_speed 40 1200 s = s" for s by (simp add: set_port_speed_def)
  ultimately show ?thesis
    using speed_table_read [of "[(3, 19200, '' lab''), (40, 1200, '' no such port'')]" nm_start] by simp
qed

lemma fgets_cut: "CHR 0x0A \<notin> set l \<Longrightarrow> fgets (length l) (l @ r) = (l, r)"
proof (induction l)
  case Nil
  then show ?case by (cases r) simp_all
qed (auto simp: Let_def)

text \<open>A line that does not fit is read in pieces, and only the first piece has its comment mark: here the
  end of a long comment on port 3 is taken for an entry and sets the speed of port 4.\<close>

lemma long_comment_sets_speed:
  "load_speed_conf (Some (''3 9600 #'' @ replicate 119 (CHR ''x'') @ ''4 1200'' @ [CHR 0x0A])) nm_start =
    (2, set_port_speed 4 1200 (set_port_speed 3 9600 nm_start))"
proof -
  let ?l = "''3 9600 #'' @ replicate 119 (CHR ''x'')" and ?r = "''4 1200'' @ [CHR 0x0A]"
  have "fgets 127 (?l @ ?r) = (?l, ?r)"
    using fgets_cut [of ?l ?r] by simp
  moreover have "speed_line ?l = Some (3, 9600)"
    using speed_line_entry [of 3 9600 "replicate 119 (CHR ''x'')" "[]"]
    by (simp add: speed_entry_def show_int_def show_nat.simps char_of_def bit_Suc_0_iff)
  ultimately have "conf_loop (?l @ ?r) 0 nm_start = conf_loop ?r 1 (set_port_speed 3 9600 nm_start)"
    by (subst conf_loop.simps) simp
  moreover have "fgets 127 ?r = (?r, [])" using fgets_line [of "''4 1200''" 127 "[]"] by simp
  moreover have "speed_line ?r = Some (4, 1200)"
    by (simp add: speed_line_def scan_int_def isspace_def digit_val_def Let_def)
  ultimately show ?thesis
    by (simp add: load_speed_conf_def conf_loop.simps)
qed

end
