(* ===== verification/Nmconsole_Session.thy ===== *)
theory Nmconsole_Session
  imports Nmconsole
begin

text \<open>
  A whole session of the console server: what a client and the line exchange from the turn after it
  connected for as long as it stays, over any number of turns of the select loop, with 31 other ports
  served in between.  And how the reads that cut the client's stream matter: the filter keeps no state
  from one read to the next.
\<close>

section \<open>What a descriptor is sent\<close>

fun on_fd :: "int \<Rightarrow> nev \<Rightarrow> bool" where
  "on_fd fd (Wr f bs) = (f = fd)"
| "on_fd fd (SendBreak f) = (f = fd)"
| "on_fd fd _ = False"

abbreviation (input) sent_to :: "int \<Rightarrow> nev list \<Rightarrow> nev list" where
  "sent_to fd h \<equiv> filter (on_fd fd) h"

lemma written_sent_to [simp]: "written fd (sent_to fd h) = written fd h"
proof (induction h)
  case (Cons e h)
  then show ?case by (cases e) simp_all
qed simp

lemma sent_to_none: "\<forall>e \<in> set h. \<not> on_fd f e \<Longrightarrow> sent_to f (h @ k) = sent_to f k"
  by (simp add: filter_empty_conv)

section \<open>The service of another port\<close>

lemma new_client_others:
  assumes "i < length (nm_ports s)" and "client_fd (nm_ports s ! i) < 0" and "paired_port (nm_ports s ! i)"
    and "f \<noteq> accept_r p" and "f \<noteq> open_r p"
  shows "sent_to f (nevs (new_client p i s)) = sent_to f (nevs s)"
  using new_client_cases [OF assms(1-3), of p] assms(4,5)
  by (elim conjE disjE exE) (auto simp: filter_empty_conv)

lemma from_network_others:
  assumes "i < length (nm_ports s)" and "0 \<le> client_fd (nm_ports s ! i)" and "paired_port (nm_ports s ! i)"
    and "f \<noteq> client_fd (nm_ports s ! i)" and "f \<noteq> tty_fd (nm_ports s ! i)"
  shows "sent_to f (nevs (from_network p i s)) = sent_to f (nevs s)"
  using from_network_cases [OF assms(1-3), of p] assms(4,5)
  by (elim conjE disjE exE) (fastforce simp: filter_empty_conv)+

lemma from_tty_others:
  assumes "f \<noteq> client_fd (nm_ports s ! i)"
  shows "sent_to f (nevs (from_tty p i s)) = sent_to f (nevs s)"
  using from_tty_cases [of p i s] assms by (fastforce simp: filter_empty_conv)

lemma serve_port_others:
  assumes "j < length (nm_ports s)" and "paired_port (nm_ports s ! j)" and "0 \<le> f"
    and "f \<notin> set (port_fds (nm_ports s ! j))" and "f \<noteq> accept_r p" and "f \<noteq> open_r p"
  shows "sent_to f (nevs (serve_port ready p j s)) = sent_to f (nevs s)"
proof -
  let ?pt = "nm_ports s ! j"
  define s1 where "s1 = (if 0 \<le> listen_fd ?pt \<and> client_fd ?pt < 0 \<and> ready (listen_fd ?pt) then new_client p j s else s)"
  define s2 where "s2 = (if 0 \<le> client_fd (nm_ports s1 ! j) \<and> ready (client_fd (nm_ports s1 ! j)) then from_network p j s1 else s1)"
  have e: "serve_port ready p j s = (if 0 \<le> tty_fd (nm_ports s2 ! j) \<and> ready (tty_fd (nm_ports s2 ! j)) then from_tty p j s2 else s2)"
    by (simp only: serve_port_def s1_def s2_def Let_def)
  have n: "f \<noteq> client_fd ?pt" "f \<noteq> tty_fd ?pt" using assms(3,4) by (auto simp: port_fds_def split: if_splits)
  have a1: "sent_to f (nevs s1) = sent_to f (nevs s)"
    using new_client_others [OF assms(1) _ assms(2,5,6)] by (simp add: s1_def)
  have p1: "j < length (nm_ports s1)" "paired_port (nm_ports s1 ! j)"
      "f \<noteq> client_fd (nm_ports s1 ! j)" "f \<noteq> tty_fd (nm_ports s1 ! j)"
    using assms n new_client_cases [OF assms(1) _ assms(2), of p]
    by (auto simp: s1_def only_port_def paired_port_def)
  have a2: "sent_to f (nevs s2) = sent_to f (nevs s1)"
    using from_network_others [OF p1(1) _ p1(2-4)] by (simp add: s2_def)
  have p2: "f \<noteq> client_fd (nm_ports s2 ! j)"
    using p1 assms(3) from_network_cases [OF p1(1) _ p1(2), of p] by (auto simp: s2_def)
  show ?thesis unfolding e using a1 a2 from_tty_others [OF p2] by simp
qed

section \<open>The service of a connected port\<close>

text \<open>What the server reads from the client and from the tty of port \<open>i\<close>, if they are ready; a read that
  returns nothing gives nothing.\<close>

definition read_bytes :: "u8 list option \<Rightarrow> u8 list" where
  "read_bytes r = (case r of Some bs \<Rightarrow> bs | None \<Rightarrow> [])"

definition stays_turn :: "int \<Rightarrow> (int \<Rightarrow> bool) \<Rightarrow> port_in \<Rightarrow> bool" where
  "stays_turn c ready p \<longleftrightarrow> (ready c \<longrightarrow> read_bytes (net_r p) \<noteq> [])"

definition in_net :: "int \<Rightarrow> (int \<Rightarrow> bool) \<Rightarrow> port_in \<Rightarrow> u8 list" where
  "in_net c ready p = (if ready c then read_bytes (net_r p) else [])"

definition in_tty :: "int \<Rightarrow> (int \<Rightarrow> bool) \<Rightarrow> port_in \<Rightarrow> u8 list" where
  "in_tty t ready p = (if ready t then read_bytes (tty_r p) else [])"

text \<open>What one read of the client makes the server do, oldest first.\<close>

definition net_events :: "int \<Rightarrow> int \<Rightarrow> u8 list \<Rightarrow> nev list" where
  "net_events c t bs = answers c t (parse bs) @ (if data_of (parse bs) \<noteq> [] then [Wr t (data_of (parse bs))] else [])"

lemma from_network_stays:
  assumes "read_bytes (net_r p) \<noteq> []" and "\<not> raw_mode s" and "0 \<le> tty_fd (nm_ports s ! i)"
  shows "nm_ports (from_network p i s) = nm_ports s \<and> nports (from_network p i s) = nports s \<and>
    raw_mode (from_network p i s) = raw_mode s \<and>
    nevs (from_network p i s) = rev (net_events (client_fd (nm_ports s ! i)) (tty_fd (nm_ports s ! i)) (read_bytes (net_r p))) @
      ReadFd (client_fd (nm_ports s ! i)) # nevs s"
proof -
  let ?c = "client_fd (nm_ports s ! i)" and ?t = "tty_fd (nm_ports s ! i)"
  obtain d ds where n: "net_r p = Some (d # ds)" "read_bytes (net_r p) = d # ds"
    using assms(1) by (cases "net_r p"; cases "read_bytes (net_r p)") (auto simp: read_bytes_def)
  obtain k b h where f: "telnet_filter ?c ?t (d # ds) (length (d # ds)) (ReadFd ?c # nevs s) = (k, b, h)"
    by (metis prod_cases3)
  from telnet_filter_parse [OF _ f] have F: "take k b = data_of (parse (d # ds))" "k \<le> length (d # ds)"
      "h = rev (answers ?c ?t (parse (d # ds))) @ ReadFd ?c # nevs s" by simp_all
  have "length b = length (d # ds)"
    using filter_loop_parse [OF _ _ _ f [unfolded telnet_filter_def]] by simp
  with F(1,2) have "0 < k \<longleftrightarrow> data_of (parse (d # ds)) \<noteq> []" by (metis length_0_conv length_take min.absorb2 not_gr_zero)
  with n assms(2,3) f F show ?thesis by (simp add: from_network_def Let_def nmev_def net_events_def)
qed

lemma from_tty_connected:
  assumes "0 \<le> client_fd (nm_ports s ! i)" and "\<not> raw_mode s"
  shows "nm_ports (from_tty p i s) = nm_ports s \<and> nports (from_tty p i s) = nports s \<and>
    raw_mode (from_tty p i s) = raw_mode s \<and>
    nevs (from_tty p i s) = (if read_bytes (tty_r p) = [] then ReadFd (tty_fd (nm_ports s ! i)) # nevs s
      else telnet_write (client_fd (nm_ports s ! i)) (read_bytes (tty_r p)) (ReadFd (tty_fd (nm_ports s ! i)) # nevs s))"
  using assms by (auto simp: from_tty_def Let_def nmev_def read_bytes_def split: option.splits list.splits)

lemma telnet_write_other: "f \<noteq> fd \<Longrightarrow> sent_to f (telnet_write fd bs k) = sent_to f k"
  using telnet_write_events [of fd bs k] by (fastforce simp: filter_empty_conv)

text \<open>One turn, seen from the two descriptors of the port.\<close>

lemma serve_connected:
  fixes s :: nmc and i :: nat
  defines "c \<equiv> client_fd (nm_ports s ! i)" and "t \<equiv> tty_fd (nm_ports s ! i)"
  assumes "0 \<le> c" and "0 \<le> t" and "c \<noteq> t" and "\<not> raw_mode s" and "stays_turn c ready p"
  shows "nm_ports (serve_port ready p i s) = nm_ports s \<and> raw_mode (serve_port ready p i s) = raw_mode s \<and>
    nports (serve_port ready p i s) = nports s \<and>
    sent_to t (nevs (serve_port ready p i s)) = sent_to t (rev (net_events c t (in_net c ready p))) @ sent_to t (nevs s) \<and>
    written c (nevs (serve_port ready p i s)) =
      written c (nevs s) @ replies (parse (in_net c ready p)) @ stuff IAC (in_tty t ready p)"
proof -
  define s2 where "s2 = (if ready c then from_network p i s else s)"
  have N: "nm_ports s2 = nm_ports s" "nports s2 = nports s" "raw_mode s2 = raw_mode s"
      "sent_to t (nevs s2) = sent_to t (rev (net_events c t (in_net c ready p))) @ sent_to t (nevs s)"
      "written c (nevs s2) = written c (nevs s) @ replies (parse (in_net c ready p))"
    using from_network_stays [of p s i] assms
    by (auto simp: s2_def in_net_def stays_turn_def net_events_def written_answers replies_def)
  have "serve_port ready p i s = (if 0 \<le> tty_fd (nm_ports s2 ! i) \<and> ready (tty_fd (nm_ports s2 ! i))
      then from_tty p i s2 else s2)"
    using assms(3) by (simp add: serve_port_def s2_def c_def Let_def)
  then have "serve_port ready p i s = (if ready t then from_tty p i s2 else s2)"
    using N(1) assms(4) by (simp add: t_def)
  with N from_tty_connected [of s2 i p] assms(3,5,6) show ?thesis
    by (auto simp: in_tty_def telnet_write_other written_telnet_write simp flip: c_def t_def)
qed

section \<open>The descriptors of a port are its own\<close>

lemma fds_upto_disjoint:
  assumes "distinct (fds_upto k s)" and "i < k" and "j < k" and "i \<noteq> j"
  shows "set (port_fds (nm_ports s ! i)) \<inter> set (port_fds (nm_ports s ! j)) = {}"
proof -
  have sub: "set (port_fds (nm_ports s ! m)) \<subseteq> set (fds_upto n s)" if "m < n" for m n
    using port_in_upto [OF that, of s] by (metis set_mset_mono set_mset_mset)
  show ?thesis
    using assms
  proof (induction k)
    case (Suc k)
    then have d: "distinct (fds_upto k s)" "set (fds_upto k s) \<inter> set (port_fds (nm_ports s ! k)) = {}" by simp_all
    show ?case
    proof (cases "i = k \<or> j = k")
      case True
      with Suc.prems(2-4) have "(i = k \<and> j < k) \<or> (j = k \<and> i < k)" by linarith
      with d(2) sub [of i k] sub [of j k] show ?thesis by blast
    next
      case False
      with Suc d(1) show ?thesis by simp
    qed
  qed simp
qed

lemma fds_upto_distinct: "distinct (fds_upto k s) \<Longrightarrow> i < k \<Longrightarrow> distinct (port_fds (nm_ports s ! i))"
  by (induction k) (auto simp: less_Suc_eq)

lemma accounted_all_fds: "accounted s \<Longrightarrow> distinct (all_fds s) \<and> set (held (nevs s)) = set (all_fds s)"
  unfolding accounted_def by (metis mset_eq_imp_distinct_iff mset_eq_setD)

text \<open>Port \<open>i\<close> has client \<open>c\<close> on tty \<open>t\<close>, in telnet mode.\<close>

definition on_line :: "nat \<Rightarrow> int \<Rightarrow> int \<Rightarrow> nmc \<Rightarrow> bool" where
  "on_line i c t s \<longleftrightarrow> i < nat (nports s) \<and> client_fd (nm_ports s ! i) = c \<and> tty_fd (nm_ports s ! i) = t \<and>
     0 \<le> c \<and> 0 \<le> t \<and> \<not> raw_mode s"

lemma on_line_own:
  assumes "on_line i c t s" and "accounted s"
  shows "c \<noteq> t" and "j < nat (nports s) \<Longrightarrow> j \<noteq> i \<Longrightarrow> c \<notin> set (port_fds (nm_ports s ! j)) \<and> t \<notin> set (port_fds (nm_ports s ! j))"
    and "c \<in> set (held (nevs s)) \<and> t \<in> set (held (nevs s))"
proof -
  have d: "distinct (fds_upto (nat (nports s)) s)" and h: "set (held (nevs s)) = set (all_fds s)"
    using accounted_all_fds [OF assms(2)] by (simp_all add: all_fds_def)
  have i: "i < nat (nports s)" using assms(1) by (simp add: on_line_def)
  have m: "c \<in> set (port_fds (nm_ports s ! i)) \<and> t \<in> set (port_fds (nm_ports s ! i))"
    using assms(1) by (auto simp: on_line_def port_fds_def)
  show "c \<noteq> t"
    using fds_upto_distinct [OF d i] assms(1) by (auto simp: on_line_def port_fds_def split: if_splits)
  show "j < nat (nports s) \<Longrightarrow> j \<noteq> i \<Longrightarrow> c \<notin> set (port_fds (nm_ports s ! j)) \<and> t \<notin> set (port_fds (nm_ports s ! j))"
    using fds_upto_disjoint [OF d i, of j] m by blast
  have "set (port_fds (nm_ports s ! i)) \<subseteq> set (all_fds s)"
    using port_in_upto [OF i, of s] unfolding all_fds_def by (metis set_mset_mono set_mset_mset)
  with m h show "c \<in> set (held (nevs s)) \<and> t \<in> set (held (nevs s))" by blast
qed

lemma fresh_other: "fresh p s \<Longrightarrow> f \<in> set (held (nevs s)) \<Longrightarrow> 0 \<le> f \<Longrightarrow> f \<noteq> accept_r p \<and> f \<noteq> open_r p"
  by (auto simp: fresh_def split: if_splits)

section \<open>One turn of the loop\<close>

lemma serve_one_session:
  assumes "paired s" and "accounted s" and "fresh p s" and "j < nat (nports s)"
    and "on_line i c t s" and "j = i \<Longrightarrow> stays_turn c ready p"
  shows "on_line i c t (serve_port ready p j s) \<and>
    sent_to t (nevs (serve_port ready p j s)) =
      (if j = i then sent_to t (rev (net_events c t (in_net c ready p))) else []) @ sent_to t (nevs s) \<and>
    written c (nevs (serve_port ready p j s)) = written c (nevs s) @
      (if j = i then replies (parse (in_net c ready p)) @ stuff IAC (in_tty t ready p) else [])"
proof (cases "j = i")
  case True
  with serve_connected [of s i ready p] on_line_own(1) [OF assms(5,2)] assms(5,6) show ?thesis
    by (simp add: on_line_def)
next
  case False
  have j: "j < length (nm_ports s)" "paired_port (nm_ports s ! j)" using assms(1,4) by (auto simp: paired_def)
  have p: "0 \<le> c" "0 \<le> t" using assms(5) by (simp_all add: on_line_def)
  note o = on_line_own(2) [OF assms(5,2,4) False] and h = on_line_own(3) [OF assms(5,2)]
  have "only_port j s (serve_port ready p j s)" using keeps_serve_port [OF j] by (simp add: keeps_port_def)
  then have "on_line i c t (serve_port ready p j s)" using False assms(5) by (auto simp: only_port_def on_line_def)
  moreover have e: "sent_to f (nevs (serve_port ready p j s)) = sent_to f (nevs s)" if "f = c \<or> f = t" for f
    using serve_port_others [OF j, of f] fresh_other [OF assms(3), of f] o h p that by blast
  moreover have "written c (nevs (serve_port ready p j s)) = written c (nevs s)"
    using arg_cong [OF e [of c], of "written c"] by simp
  ultimately show ?thesis using False by simp
qed

abbreviation (input) serve_all :: "(int \<Rightarrow> bool) \<Rightarrow> port_in list \<Rightarrow> nat list \<Rightarrow> nmc \<Rightarrow> nmc" where
  "serve_all ready ps ks s \<equiv> foldl (\<lambda>s i. serve_port ready (ps ! i) i s) s ks"

lemma serve_all_session:
  assumes "paired s" and "accounted s" and "fresh_ports ready ps ks s" and "set ks \<subseteq> {..<nat (nports s)}"
    and "distinct ks" and "on_line i c t s" and "stays_turn c ready (ps ! i)"
  shows "on_line i c t (serve_all ready ps ks s) \<and>
    sent_to t (nevs (serve_all ready ps ks s)) =
      (if i \<in> set ks then sent_to t (rev (net_events c t (in_net c ready (ps ! i)))) else []) @ sent_to t (nevs s) \<and>
    written c (nevs (serve_all ready ps ks s)) = written c (nevs s) @
      (if i \<in> set ks then replies (parse (in_net c ready (ps ! i))) @ stuff IAC (in_tty t ready (ps ! i)) else [])"
  using assms
proof (induction ks arbitrary: s)
  case (Cons k ks)
  let ?s1 = "serve_port ready (ps ! k) k s"
  have k: "k < nat (nports s)" and f: "fresh (ps ! k) s" "fresh_ports ready ps ks ?s1" using Cons.prems(3,4) by simp_all
  note S = serve_port_paired [OF Cons.prems(1) k, where ready = ready and p = "ps ! k"]
  have O: "on_line i c t ?s1"
      "sent_to t (nevs ?s1) = (if k = i then sent_to t (rev (net_events c t (in_net c ready (ps ! k)))) else []) @ sent_to t (nevs s)"
      "written c (nevs ?s1) = written c (nevs s) @
        (if k = i then replies (parse (in_net c ready (ps ! k))) @ stuff IAC (in_tty t ready (ps ! k)) else [])"
    using serve_one_session [OF Cons.prems(1,2) f(1) k Cons.prems(6), where ready = ready] Cons.prems(7) by simp_all
  have "set ks \<subseteq> {..<nat (nports ?s1)}" "distinct ks" "k \<notin> set ks" using Cons.prems(4,5) S(2) by simp_all
  from Cons.IH [OF S(1) S(3) [OF f(1) Cons.prems(2)] f(2) this(1,2) O(1) Cons.prems(7)] O(2,3) this(3)
  show ?case by (cases "k = i") simp_all
qed simp

section \<open>Any number of turns\<close>

type_synonym turn = "select_r \<times> port_in list"

text \<open>What the two ends say in each turn in which select returns, until it fails.\<close>

fun exchanged :: "int \<Rightarrow> int \<Rightarrow> nat \<Rightarrow> turn list \<Rightarrow> (u8 list \<times> u8 list) list" where
  "exchanged c t i [] = []"
| "exchanged c t i ((Ready ready, ps) # ts) =
     (in_net c ready (ps ! i), in_tty t ready (ps ! i)) # exchanged c t i ts"
| "exchanged c t i ((Interrupted, ps) # ts) = exchanged c t i ts"
| "exchanged c t i ((SelectFailed, ps) # ts) = []"

fun stays :: "int \<Rightarrow> nat \<Rightarrow> turn list \<Rightarrow> bool" where
  "stays c i [] = True"
| "stays c i ((Ready ready, ps) # ts) = (stays_turn c ready (ps ! i) \<and> stays c i ts)"
| "stays c i ((_, ps) # ts) = stays c i ts"

definition to_line :: "int \<Rightarrow> int \<Rightarrow> (u8 list \<times> u8 list) list \<Rightarrow> nev list" where
  "to_line c t xs = filter (on_fd t) (concat (map (\<lambda>(net, ser). net_events c t net) xs))"

definition to_client :: "(u8 list \<times> u8 list) list \<Rightarrow> u8 list" where
  "to_client xs = concat (map (\<lambda>(net, ser). replies (parse net) @ stuff IAC ser) xs)"

lemma to_simps [simp]:
  "to_line c t [] = []" "to_line c t ((n, y) # xs) = filter (on_fd t) (net_events c t n) @ to_line c t xs"
  "to_client [] = []" "to_client ((n, y) # xs) = replies (parse n) @ stuff IAC y @ to_client xs"
  by (simp_all add: to_line_def to_client_def)

lemma watched_on_line: "on_line i c t s \<Longrightarrow> watched s \<noteq> []"
  by (auto simp: on_line_def watched_def watched_port_def)

lemma nm_loop_session:
  assumes "paired s" and "accounted s" and "fresh_turns ts s" and "on_line i c t s" and "stays c i ts"
  shows "on_line i c t (snd (nm_loop ts s)) \<and>
    sent_to t (nevs (snd (nm_loop ts s))) = rev (to_line c t (exchanged c t i ts)) @ sent_to t (nevs s) \<and>
    written c (nevs (snd (nm_loop ts s))) = written c (nevs s) @ to_client (exchanged c t i ts)"
  using assms
proof (induction c t i ts arbitrary: s rule: exchanged.induct)
  case (2 c t i ready ps ts)
  let ?ks = "[0..<nat (nports s)]"
  let ?s1 = "foldl (\<lambda>s i. serve_port ready (ps ! i) i s) s ?ks"
  note w = watched_on_line [OF "2.prems"(4)]
  have T: "nm_turn (Ready ready, ps) s = (True, ?s1)" using w by (simp add: nm_turn_def)
  have f: "fresh_ports ready ps ?ks s" using "2.prems"(3) w by (simp add: fresh_turn_def)
  have i: "i \<in> set ?ks" "stays_turn c ready (ps ! i)" using "2.prems"(4,5) by (simp_all add: on_line_def)
  have "set ?ks \<subseteq> {..<nat (nports s)}" by auto
  note S = serve_all_session [OF "2.prems"(1,2) f this distinct_upt "2.prems"(4) i(2)]
  note P = nm_turn_paired [OF "2.prems"(1) T]
  have "paired ?s1" "accounted ?s1" "fresh_turns ts ?s1" using P T "2.prems"(2,3) by simp_all
  from "2.IH" [OF this] S i "2.prems"(5) T show ?case by (simp add: rev_filter)
next
  case (3 c t i ps ts)
  with watched_on_line [OF "3.prems"(4)] show ?case by (simp add: nm_turn_def)
next
  case (4 c t i ps ts)
  with watched_on_line [OF "4.prems"(4)] show ?case by (simp add: nm_turn_def)
qed simp

section \<open>Where the reads cut\<close>

text \<open>The client's bytes so far end outside every telnet sequence.\<close>

fun se_found :: "u8 list \<Rightarrow> bool" where
  "se_found (x # y # r) = (x = IAC \<and> y = SE \<or> se_found (y # r))"
| "se_found _ = False"

function complete :: "u8 list \<Rightarrow> bool" where
  "complete [] = True"
| "complete [x] = (x \<noteq> IAC)"
| "complete (x # c # r) =
     (if x \<noteq> IAC then complete (c # r)
      else if c = IAC then complete r
      else if is_negotiation c then (case r of [] \<Rightarrow> False | q # r \<Rightarrow> complete r)
      else if c = BRK \<or> c = IP then complete r
      else if c = SB then se_found (x # c # r) \<and> complete (after_se (x # c # r))
      else complete r)"
  by pat_completeness auto
termination
proof (relation "measure length", goal_cases)
  case (6 x c r)
  then show ?case using length_after_se [of "c # r"] by simp
qed auto

lemma after_se_append: "se_found xs \<Longrightarrow> after_se (xs @ ys) = after_se xs @ ys"
  by (induction xs rule: se_found.induct) auto

lemma parse_append: "complete xs \<Longrightarrow> parse (xs @ ys) = parse xs @ parse ys"
proof (induction xs rule: complete.induct)
  case (2 x)
  then show ?case by (simp add: parse_plain)
next
  case (3 x c r)
  show ?case
  proof (cases "x = IAC \<and> c \<noteq> IAC \<and> \<not> is_negotiation c \<and> \<not> (c = BRK \<or> c = IP) \<and> c = SB")
    case True
    have c: "se_found (x # c # r)" "complete (after_se (x # c # r))"
      using True "3.prems" by (simp_all add: is_negotiation_def)
    have "parse ((x # c # r) @ ys) = parse (after_se ((x # c # r) @ ys))" using True by (simp add: is_negotiation_def)
    also have "\<dots> = parse (after_se (x # c # r) @ ys)" by (simp only: after_se_append [OF c(1)])
    also have "\<dots> = parse (after_se (x # c # r)) @ parse ys" using "3.IH" True c(2) by blast
    also have "parse (after_se (x # c # r)) = parse (x # c # r)" using True by (simp add: is_negotiation_def)
    finally show ?thesis .
  next
    case False
    with 3 show ?thesis by (auto split: list.splits)
  qed
qed simp

lemma parse_reads: "list_all complete hs \<Longrightarrow> concat (map parse hs) = parse (concat hs)"
  by (induction hs) (simp_all add: parse_append)

text \<open>
  A read that ends inside a sequence loses its beginning and passes the rest of it on as data: the client's
  refusal of an option, cut after its first byte, puts two bytes on the console.
\<close>

lemma cut_sequence_leaks:
  "data_of (parse [IAC, DONT, OPT_ECHO]) = []"
  "data_of (parse [IAC] @ parse [DONT, OPT_ECHO]) = [DONT, OPT_ECHO]"
  "data_of (parse [IAC, DONT] @ parse [OPT_ECHO]) = [OPT_ECHO]"
  by (simp_all add: is_negotiation_def)

section \<open>A session\<close>

lemma data_of_append [simp]: "data_of (xs @ ys) = data_of xs @ data_of ys"
  by (simp add: data_of_def)

lemma replies_simps [simp]:
  "replies [] = []" "replies (Data c # xs) = replies xs" "replies (Break # xs) = replies xs"
  "replies (Asks c q # xs) = IAC # refusal c # q # replies xs"
  by (simp_all add: replies_def)

lemma refusal_negotiates: "is_negotiation (refusal c)" "refusal c \<noteq> IAC"
  by (simp_all add: refusal_def is_negotiation_def)

lemma data_of_replies: "data_of (parse (replies xs @ ys)) = data_of (parse ys)"
proof (induction xs)
  case (Cons x xs)
  then show ?case by (cases x) (simp_all add: refusal_negotiates)
qed simp

text \<open>A telnet client that frames what it receives as the server does reads the line's bytes back.\<close>

lemma client_reads: "data_of (parse (to_client xs)) = concat (map snd xs)"
proof (induction xs)
  case (Cons x xs)
  obtain n y where "x = (n, y)" by fastforce
  with Cons show ?case by (simp add: data_of_replies parse_stuff_append)
qed simp

lemma written_to_line:
  assumes "c \<noteq> t"
  shows "written t (rev (to_line c t xs)) = data_of (concat (map (parse \<circ> fst) xs))"
proof (induction xs)
  case (Cons x xs)
  obtain n y where x: "x = (n, y)" by fastforce
  have "written t (rev (filter (on_fd t) (net_events c t n))) = written t (rev (net_events c t n))"
    by (metis written_sent_to rev_filter)
  also have "\<dots> = data_of (parse n)" using assms by (simp add: net_events_def written_answers)
  finally show ?case using Cons x by simp
qed simp

text \<open>The states from which a session runs: any that the server can reach with a client on port \<open>i\<close>.\<close>

lemma session_start:
  assumes "fresh_start files args os" and "fresh_turns (before @ ts) (snd (nm_init files args os))"
    and "nm_loop before (snd (nm_init files args os)) = (True, s)"
    and "i < nat (nports s)" and "client_fd (nm_ports s ! i) = c" and "0 \<le> c" and "\<not> raw_mode s"
  shows "paired s" and "accounted s" and "fresh_turns ts s" and "on_line i c (tty_fd (nm_ports s ! i)) s"
proof -
  let ?u = "snd (nm_init files args os)"
  have split: "fresh_turns before u \<and> fresh_turns ts (snd (nm_loop before u))"
    if "fresh_turns (before @ ts) u" "fst (nm_loop before u)" for u
    using that by (induction before arbitrary: u) (auto split: prod.splits if_splits)
  have f: "fresh_turns before ?u" "fresh_turns ts s" using split [OF assms(2)] assms(3) by simp_all
  then show "fresh_turns ts s" by simp
  show a: "paired s" "accounted s"
    using nm_init_paired [of files args os] nm_loop_paired [of ?u before] assms(1,3) f(1) by auto
  then show "on_line i c (tty_fd (nm_ports s ! i)) s"
    using assms(4-7) by (auto simp: on_line_def paired_def paired_port_def)
qed

text \<open>C28. A session.  From any state that the server, in telnet mode and given descriptors that are not in use, can reach, as long as the client of a port stays, over any number of
  turns and whatever the other ports do: the port keeps its client and its tty; the tty is written exactly the
  data bytes of what was read from the client, in order, each read framed by itself, which is the data of the
  client's whole stream when no read ends inside a telnet sequence; and what the client was sent, framed as
  telnet, is exactly what was read from the tty.\<close>

theorem session_exact:
  assumes "fresh_start files args os" and "fresh_turns (before @ ts) (snd (nm_init files args os))"
    and "nm_loop before (snd (nm_init files args os)) = (True, s)"
    and "i < nat (nports s)" and "client_fd (nm_ports s ! i) = c" and "0 \<le> c" and "\<not> raw_mode s" and "stays c i ts"
    and "t = tty_fd (nm_ports s ! i)"
  shows "client_fd (nm_ports (snd (nm_loop ts s)) ! i) = c \<and> tty_fd (nm_ports (snd (nm_loop ts s)) ! i) = t \<and>
    written t (nevs (snd (nm_loop ts s))) =
      written t (nevs s) @ data_of (concat (map parse (map fst (exchanged c t i ts)))) \<and>
    (list_all complete (map fst (exchanged c t i ts)) \<longrightarrow>
      written t (nevs (snd (nm_loop ts s))) = written t (nevs s) @ data_of (parse (concat (map fst (exchanged c t i ts))))) \<and>
    (\<exists>new. written c (nevs (snd (nm_loop ts s))) = written c (nevs s) @ new \<and>
      data_of (parse new) = concat (map snd (exchanged c t i ts)))"
proof -
  note A = session_start [OF assms(1-7), folded assms(9)]
  note S = nm_loop_session [OF A assms(8)] and n = on_line_own(1) [OF A(4,2)]
  have "written t (nevs (snd (nm_loop ts s))) = written t (rev (to_line c t (exchanged c t i ts)) @ sent_to t (nevs s))"
    using S by (metis written_sent_to)
  also have "\<dots> = written t (nevs s) @ data_of (concat (map parse (map fst (exchanged c t i ts))))"
    by (simp add: written_to_line [OF n])
  finally show ?thesis
    using S client_reads parse_reads [of "map fst (exchanged c t i ts)"] by (auto simp: on_line_def)
qed

theorem session_exact_witness:
  "let s = snd (nm_loop [(Ready (\<lambda>fd. fd = 3), [demo_in None])] (snd (nm_init Map.empty [''--ports'', ''1''] [(3, True)])));
     ts = [(Ready (\<lambda>fd. fd = 4), [(demo_in (Some [0x61, IAC, DO, 1]))\<lparr>accept_r := -1, open_r := -1\<rparr>]), (Interrupted, []),
       (Ready (\<lambda>fd. True), [(demo_in (Some [0x62]))\<lparr>accept_r := -1, open_r := -1, tty_r := Some [0x63, IAC]\<rparr>])]
   in written 5 (nevs (snd (nm_loop ts s))) = written 5 (nevs s) @ [0x61, 0x62]"
proof -
  let ?u = "snd (nm_init Map.empty [''--ports'', ''1''] [(3, True)])"
  let ?b = "[(Ready (\<lambda>fd. fd = 3), [demo_in None])]"
  let ?ts = "[(Ready (\<lambda>fd. fd = 4), [(demo_in (Some [0x61, IAC, DO, 1]))\<lparr>accept_r := -1, open_r := -1\<rparr>]), (Interrupted, []),
       (Ready (\<lambda>fd. True), [(demo_in (Some [0x62]))\<lparr>accept_r := -1, open_r := -1, tty_r := Some [0x63, IAC]\<rparr>])]"
  have st: "fresh_start Map.empty [''--ports'', ''1''] [(3, True)]"
    by (simp add: fresh_start_def demo_atoi nm_start_def fresh_socket_def Let_def)
  obtain s where s: "nm_loop ?b ?u = (True, s)"
    and f: "nports s = 1" "client_fd (nm_ports s ! 0) = 4" "tty_fd (nm_ports s ! 0) = 5" "\<not> raw_mode s"
    unfolding demo_init by (simp add: demo_turn_defs Let_def)
  have n: "fresh_turns ?b ?u" "set (held (nevs s)) = {3, 4, 5}" "distinct (held (nevs s))"
    using s unfolding demo_init by (auto simp: demo_turn_defs Let_def)
  have fr: "fresh_turns (?b @ ?ts) ?u"
    unfolding demo_init
    by (simp add: demo_turn_defs Let_def from_tty_def telnet_filter_def filter_loop.simps is_negotiation_def
        telnet_write_def)
  have e: "exchanged 4 5 0 ?ts = [([0x61, IAC, DO, 1], []), ([0x62], [0x63, IAC])]"
    by (simp add: in_net_def in_tty_def read_bytes_def demo_in_def)
  have "stays 4 0 ?ts" by (simp add: stays_turn_def read_bytes_def demo_in_def)
  moreover have "0 < nat (nports s)" "5 = tty_fd (nm_ports s ! 0)" using f by simp_all
  ultimately have "written 5 (nevs (snd (nm_loop ?ts s))) =
      written 5 (nevs s) @ data_of (concat (map parse (map fst (exchanged 4 5 0 ?ts))))"
    using session_exact [OF st fr s _ f(2) _ f(4), where t = 5] by simp
  then have "written 5 (nevs (snd (nm_loop ?ts s))) = written 5 (nevs s) @ [0x61, 0x62]"
    unfolding e by (simp add: is_negotiation_def)
  then show ?thesis using s by simp
qed

end
