(* ===== verification/Nm32a_Console.thy ===== *)
theory Nm32a_Console
  imports Nm32a_Progress Nmconsole_Session
begin

text \<open>
  The console server on top of the driver: what one pass over a client's bytes does to the line.  Between
  them is the kernel's tty layer, of which the documented behaviour of a raw tty is used: a write of the
  server is a write of the driver, and \<open>tcsendbreak\<close> turns the break on and off.
\<close>

section \<open>From descriptors to driver calls\<close>

fun tty_op :: "nat \<Rightarrow> int \<Rightarrow> nev \<Rightarrow> drv_op list" where
  "tty_op i t (Wr fd bs) = (if fd = t then [Write i bs] else [])"
| "tty_op i t (SendBreak fd) = (if fd = t then [drv_op.Break i True, drv_op.Break i False] else [])"
| "tty_op i t _ = []"

text \<open>The events are newest first, the calls oldest first.\<close>

definition tty_ops :: "nat \<Rightarrow> int \<Rightarrow> nev list \<Rightarrow> drv_op list" where
  "tty_ops i t h = concat (map (tty_op i t) (rev h))"

lemma tty_ops_simps [simp]:
  "tty_ops i t [] = []" "tty_ops i t (e # h) = tty_ops i t h @ tty_op i t e"
  "tty_ops i t (h @ k) = tty_ops i t k @ tty_ops i t h"
  by (simp_all add: tty_ops_def)

section \<open>One pass over a client's bytes\<close>

fun breaks :: "said list \<Rightarrow> nat" where
  "breaks [] = 0"
| "breaks (said.Break # xs) = Suc (breaks xs)"
| "breaks (_ # xs) = breaks xs"

abbreviation (input) break_pair :: "u8 list" where "break_pair \<equiv> [0, 0x81, 0, 0x83]"

lemma fed_answers:
  assumes "0 \<le> t" and "fd \<noteq> t"
  shows "fed_all (tty_ops i t (rev (answers fd t xs))) = concat (replicate (breaks xs) break_pair) \<and>
    list_all (feeds i) (tty_ops i t (rev (answers fd t xs)))"
proof (induction xs)
  case (Cons x xs)
  with assms show ?case by (cases x) simp_all
qed simp

lemma pass_feeds:
  assumes "net_r p = Some net" and "net \<noteq> []" and "\<not> raw_mode u"
    and "0 \<le> tty_fd (nm_ports u ! i)" and "client_fd (nm_ports u ! i) \<noteq> tty_fd (nm_ports u ! i)"
    and "nevs (from_network p i u) = new @ nevs u"
  shows "fed_all (tty_ops i (tty_fd (nm_ports u ! i)) new) =
      concat (replicate (breaks (parse net)) break_pair) @ stuff 0 (data_of (parse net)) \<and>
    list_all (feeds i) (tty_ops i (tty_fd (nm_ports u ! i)) new)"
proof -
  let ?c = "client_fd (nm_ports u ! i)" and ?t = "tty_fd (nm_ports u ! i)"
  obtain d ds where n: "net = d # ds" using assms(2) by (cases net) simp_all
  obtain k b h where f: "telnet_filter ?c ?t net (length net) (ReadFd ?c # nevs u) = (k, b, h)"
    by (metis prod_cases3)
  from telnet_filter_parse [OF _ f] have F: "take k b = data_of (parse net)" "k \<le> length net"
      "h = rev (answers ?c ?t (parse net)) @ ReadFd ?c # nevs u" by simp_all
  have "nevs (from_network p i u) = (if 0 < k then [Wr ?t (take k b)] else []) @ h"
    using assms(1,3,4) f n by (cases "0 < k") (simp_all add: from_network_def Let_def nmev_def)
  with assms(6) F have "new @ nevs u = ((if 0 < k then [Wr ?t (take k b)] else []) @
      rev (answers ?c ?t (parse net)) @ [ReadFd ?c]) @ nevs u" by simp
  then have new: "new = (if 0 < k then [Wr ?t (take k b)] else []) @ rev (answers ?c ?t (parse net)) @ [ReadFd ?c]"
    by (simp only: append_same_eq)
  show ?thesis
    unfolding new using fed_answers [OF assms(4,5), of i "parse net"] F(1) by (cases "0 < k") auto
qed

section \<open>A whole session\<close>

text \<open>What the reads of a session put on the line: for each, the breaks and then the data, NULs as escape pairs.\<close>

definition on_the_line :: "u8 list list \<Rightarrow> u8 list" where
  "on_the_line reads = concat (map (\<lambda>h. concat (replicate (breaks (parse h)) break_pair) @ stuff 0 (data_of (parse h))) reads)"

lemma tty_ops_sent_to: "tty_ops i t (sent_to t h) = tty_ops i t h"
proof (induction h)
  case (Cons e h)
  then show ?case by (cases e) simp_all
qed simp

lemma net_events_feeds:
  assumes "0 \<le> t" and "c \<noteq> t"
  shows "fed_all (tty_ops i t (rev (net_events c t bs))) =
      concat (replicate (breaks (parse bs)) break_pair) @ stuff 0 (data_of (parse bs)) \<and>
    list_all (feeds i) (tty_ops i t (rev (net_events c t bs)))"
  using fed_answers [OF assms, of i "parse bs"] by (simp add: net_events_def)

lemma session_feeds:
  assumes "0 \<le> t" and "c \<noteq> t"
  shows "fed_all (tty_ops i t (rev (to_line c t xs))) = on_the_line (map fst xs)"
proof (induction xs)
  case (Cons x xs)
  obtain n y where x: "x = (n, y)" by fastforce
  have "tty_ops i t (rev (filter (on_fd t) (net_events c t n))) = tty_ops i t (rev (net_events c t n))"
    by (metis tty_ops_sent_to rev_filter)
  with Cons x net_events_feeds [OF assms, of i n] show ?case by (simp add: on_the_line_def)
qed (simp add: on_the_line_def)

lemma session_new:
  assumes "paired s" and "accounted s" and "fresh_turns ts s" and "on_line i c t s" and "stays c i ts"
    and "nevs (snd (nm_loop ts s)) = new @ nevs s"
  shows "fed_all (tty_ops i t new) = on_the_line (map fst (exchanged c t i ts))"
proof -
  have "sent_to t new = rev (to_line c t (exchanged c t i ts))"
    using nm_loop_session [OF assms(1-5)] by (simp add: assms(6))
  then have e: "tty_ops i t new = tty_ops i t (rev (to_line c t (exchanged c t i ts)))"
    using tty_ops_sent_to [of i t new] by simp
  show ?thesis
    unfolding e using session_feeds on_line_own(1) [OF assms(4,2)] assms(4) by (simp add: on_line_def)
qed

end
