(* ===== verification/Tool_Pciscan.thy ===== *)
theory Tool_Pciscan
  imports C2811_Pci Cstdlib
begin

text \<open>
  The user space scanner \<open>tools/nm32a/pciscan.c\<close>: config space of both PCI interfaces through the mapped
  registers, and its modes.  The mapped window is the bridge of \<open>C2811_Pci\<close>; \<open>FlushR\<close> is the dummy
  read of the CPLD.  What the tool prints is a list of reports, newest first.  Opening \<open>/dev/mem\<close> and mapping
  are not modelled beyond whether the flush mapping exists.
\<close>

datatype report =
    RBus int int
  | RRegs "u32 list"
  | RProbe nat int u32 u32 u32
  | RAbort bool
  | RDev int int int int u32 u32 string u32
  | RBar nat bool u32
  | RIrq u32
  | RFound int int u32
  | RSweep int int
  | RFind int u32 bool
  | RCfgr u32
  | RBefore u32
  | RCfgw u32 u32
  | RRma u32 u32 u32

text \<open>\<open>local_bus\<close> is an array of two entries; it is written at the index that the user gives.\<close>

record scan =
  br :: bridge
  flush_ok :: bool
  lbus :: "int \<Rightarrow> int"
  reports :: "report list"

abbreviation (input) PCI0_CONFIG_ADDR :: nat where "PCI0_CONFIG_ADDR \<equiv> 0xcf8"
abbreviation (input) PCI0_CONFIG_DATA :: nat where "PCI0_CONFIG_DATA \<equiv> 0xcfc"
abbreviation (input) MV_PCI0_CMD :: nat where "MV_PCI0_CMD \<equiv> 0xc00"
abbreviation (input) MV_PCI1_CMD :: nat where "MV_PCI1_CMD \<equiv> 0xc80"
abbreviation (input) MV_PCI0_P2P_CONFIG :: nat where "MV_PCI0_P2P_CONFIG \<equiv> 0x1d14"
abbreviation (input) MV_PCI1_P2P_CONFIG :: nat where "MV_PCI1_P2P_CONFIG \<equiv> 0x1d94"
abbreviation (input) MV_INT_CAUSE_LOW :: nat where "MV_INT_CAUSE_LOW \<equiv> 0x004"
abbreviation (input) MV_INT_CAUSE_HIGH :: nat where "MV_INT_CAUSE_HIGH \<equiv> 0x00c"

section \<open>Register and config access\<close>

definition swab :: "u32 \<Rightarrow> u32" where
  "swab v = drop_bit 24 v OR (drop_bit 8 v AND 0xff00) OR (push_bit 8 v AND 0xff0000) OR push_bit 24 v"

definition raw_rd :: "nat \<Rightarrow> scan \<Rightarrow> u32 \<times> scan" where
  "raw_rd off s =
     (let v = mvdev (br s) (pevs (br s)) off in (v, s\<lparr>br := (br s)\<lparr>pevs := RawR off v # pevs (br s)\<rparr>\<rparr>))"

definition rd :: "nat \<Rightarrow> scan \<Rightarrow> u32 \<times> scan" where
  "rd off s = (let (v, s) = raw_rd off s in (swab v, s))"

definition wr :: "nat \<Rightarrow> u32 \<Rightarrow> scan \<Rightarrow> scan" where
  "wr off v s = s\<lparr>br := (br s)\<lparr>pevs := RawW off (swab v) # pevs (br s)\<rparr>\<rparr>"

definition flush :: "scan \<Rightarrow> scan" where
  "flush s = (if flush_ok s then s\<lparr>br := (br s)\<lparr>pevs := FlushR # pevs (br s)\<rparr>\<rparr> else s)"

text \<open>\<open>0x80000000u | (bus << 16) | (dev << 11) | (fn << 8) | (reg & 0xfc)\<close>\<close>

definition cfg_word :: "int \<Rightarrow> int \<Rightarrow> int \<Rightarrow> int \<Rightarrow> u32" where
  "cfg_word bus dv fn reg =
     0x80000000 OR push_bit 16 (word_of_int bus) OR push_bit 11 (word_of_int dv) OR push_bit 8 (word_of_int fn) OR
     (word_of_int reg AND 0xfc)"

definition cfg_a :: "int \<Rightarrow> nat" where
  "cfg_a bif = (if bif \<noteq> 0 then PCI1_CONFIG_ADDR else PCI0_CONFIG_ADDR)"

definition cfg_d :: "int \<Rightarrow> nat" where
  "cfg_d bif = (if bif \<noteq> 0 then PCI1_CONFIG_DATA else PCI0_CONFIG_DATA)"

definition cfg_read :: "int \<Rightarrow> int \<Rightarrow> int \<Rightarrow> int \<Rightarrow> int \<Rightarrow> scan \<Rightarrow> u32 \<times> scan" where
  "cfg_read bif bus dv fn reg s =
     (let s = wr (cfg_a bif) (cfg_word bus dv fn reg) s;
          s = flush s;
          (_, s) = raw_rd (cfg_d bif) s;
          (v, s) = raw_rd (cfg_d bif) s
      in (swab v, s))"

definition cfg_write :: "int \<Rightarrow> int \<Rightarrow> int \<Rightarrow> int \<Rightarrow> int \<Rightarrow> u32 \<Rightarrow> scan \<Rightarrow> scan" where
  "cfg_write bif bus dv fn reg val s =
     wr (cfg_d bif) val (flush (wr (cfg_a bif) (cfg_word bus dv fn reg) s))"

definition took_abort :: "scan \<Rightarrow> bool \<times> scan" where
  "took_abort s = (let (lo, s) = rd MV_INT_CAUSE_LOW s in (lo AND 0x00300000 \<noteq> 0, s))"

definition report :: "report \<Rightarrow> scan \<Rightarrow> scan" where
  "report r s = s\<lparr>reports := r # reports s\<rparr>"

section \<open>One device\<close>

definition class_table :: "(u32 \<times> string) list" where
  "class_table =
     [(0x00, ''legacy''), (0x01, ''storage''), (0x02, ''network''), (0x03, ''display''), (0x04, ''multimedia''),
      (0x06, ''bridge''), (0x07, ''comm/serial''), (0x08, ''system peripheral''), (0x0b, ''processor''),
      (0x0c, ''serial bus''), (0x0f, ''encryption'')]"

definition class_name :: "u32 \<Rightarrow> string" where
  "class_name cls = (case map_of class_table (drop_bit 16 cls) of Some nm \<Rightarrow> nm | None \<Rightarrow> ''?'')"

definition show_bar :: "int \<Rightarrow> int \<Rightarrow> int \<Rightarrow> int \<Rightarrow> scan \<Rightarrow> nat \<Rightarrow> scan" where
  "show_bar bif bus dv fn s i =
     (let (bar, s) = cfg_read bif bus dv fn (0x10 + int i * 4) s
      in if bar = 0 \<or> bar = 0xffffffff then s
         else if bar AND 1 \<noteq> 0 then report (RBar i True (bar AND NOT 3)) s
         else report (RBar i False (bar AND NOT 0xf)) s)"

definition show_dev :: "int \<Rightarrow> int \<Rightarrow> int \<Rightarrow> int \<Rightarrow> scan \<Rightarrow> scan" where
  "show_dev bif bus dv fn s =
     (let (ident, s) = cfg_read bif bus dv fn 0x00 s
      in if ident = 0xffffffff \<or> ident = 0 then s
         else
           let (cls, s) = cfg_read bif bus dv fn 0x08 s;
               (hdr, s) = cfg_read bif bus dv fn 0x0c s;
               s = report (RDev bif bus dv fn ident (drop_bit 8 cls) (class_name (drop_bit 8 cls))
                            (drop_bit 16 hdr AND 0x7f)) s
           in if drop_bit 16 hdr AND 0x7f \<noteq> 0 then s
              else
                let s = foldl (show_bar bif bus dv fn) s [0..<6];
                    (irq, s) = cfg_read bif bus dv fn 0x3c s
                in report (RIrq irq) s)"

section \<open>The scan\<close>

fun scan_fns :: "int \<Rightarrow> int \<Rightarrow> int \<Rightarrow> int list \<Rightarrow> scan \<Rightarrow> scan" where
  "scan_fns bif bus dv [] s = s"
| "scan_fns bif bus dv (fn # fns) s =
     (let s = show_dev bif bus dv fn s
      in if fn = 0
         then let (h, s) = cfg_read bif bus dv 0 0x0c s
              in if drop_bit 16 h AND 0x80 = 0 then s else scan_fns bif bus dv fns s
         else scan_fns bif bus dv fns s)"

definition scan_all :: "int \<Rightarrow> scan \<Rightarrow> scan" where
  "scan_all maxbus s =
     foldl (\<lambda>s bif. foldl (\<lambda>s bus. foldl (\<lambda>s dv. scan_fns bif bus dv [0..7] s) s [0..31]) s [0..maxbus]) s [0, 1]"

section \<open>The modes\<close>

definition p2p_reg :: "int \<Rightarrow> nat" where
  "p2p_reg bif = (if bif \<noteq> 0 then MV_PCI1_P2P_CONFIG else MV_PCI0_P2P_CONFIG)"

definition bus_of :: "u32 \<Rightarrow> int" where
  "bus_of v = uint (drop_bit 16 v AND 0xff)"

definition sweep_dev :: "int \<Rightarrow> int \<Rightarrow> int \<times> scan \<Rightarrow> int \<Rightarrow> int \<times> scan" where
  "sweep_dev bif b = (\<lambda>(found, s) dv.
     let (v, s) = cfg_read bif b dv 0 0x00 s
     in if v \<noteq> 0xffffffff \<and> v \<noteq> 0 then (found + 1, report (RFound b dv v) s) else (found, s))"

definition sweep_one :: "int \<Rightarrow> u32 \<Rightarrow> int \<times> scan \<Rightarrow> int \<Rightarrow> int \<times> scan" where
  "sweep_one bif save = (\<lambda>(found, s) b.
     let s = wr (p2p_reg bif) ((save AND NOT 0x00ff0000) OR push_bit 16 (word_of_int b)) s;
         s = s\<lparr>lbus := (lbus s)(bif := b)\<rparr>
     in foldl (sweep_dev bif b) (found, s) [1..31])"

definition sweep_bus :: "int \<Rightarrow> scan \<Rightarrow> scan" where
  "sweep_bus bif s =
     (let (save, s) = rd (p2p_reg bif) s;
          s = s\<lparr>lbus := (lbus s)(bif := bus_of save)\<rparr>;
          s = cfg_write bif (lbus s bif) 0 0 0x04 0x02b00146 s;
          (found, s) = foldl (sweep_one bif save) (0, s) [0..255];
          s = wr (p2p_reg bif) save s;
          s = s\<lparr>lbus := (lbus s)(bif := bus_of save)\<rparr>
      in report (RSweep found (lbus s bif)) s)"

definition find_card :: "int \<Rightarrow> scan \<Rightarrow> int \<times> scan" where
  "find_card bif s =
     (let (p2p, s) = rd (p2p_reg bif) s;
          s = s\<lparr>lbus := (lbus s)(bif := bus_of p2p)\<rparr>;
          s = cfg_write bif (lbus s bif) 0 0 0x04 0x02b00146 s;
          (v, s) = cfg_read bif (lbus s bif) 1 0 0x00 s;
          s = report (RFind (lbus s bif) v (v = 0x401310ee)) s
      in (if v = 0x401310ee then 0 else 1, s))"

definition cfgr :: "string list \<Rightarrow> scan \<Rightarrow> scan" where
  "cfgr a s =
     (let (v, s) = cfg_read (atoi (a ! 1)) (atoi (a ! 2)) (atoi (a ! 3)) (atoi (a ! 4)) (sint (strtoul (a ! 5))) s
      in report (RCfgr v) s)"

definition cfgw :: "string list \<Rightarrow> scan \<Rightarrow> scan" where
  "cfgw a s =
     (let bif = atoi (a ! 1); bus = atoi (a ! 2); dv = atoi (a ! 3); fn = atoi (a ! 4);
          reg = sint (strtoul (a ! 5)); val = strtoul (a ! 6);
          (before, s) = cfg_read bif bus dv fn reg s;
          s = cfg_write bif bus dv fn reg val (report (RBefore before) s);
          (now, s) = cfg_read bif bus dv fn reg s
      in report (RCfgw val now) s)"

definition rma :: "string list \<Rightarrow> scan \<Rightarrow> scan" where
  "rma a s =
     (let bif = atoi (a ! 1); bus = atoi (a ! 2); dv = atoi (a ! 3);
          (before, s) = cfg_read bif bus 0 0 0x04 s;
          (ident, s) = cfg_read bif bus dv 0 0x00 s;
          (after, s) = cfg_read bif bus 0 0 0x04 s
      in report (RRma (drop_bit 16 before) ident (drop_bit 16 after)) s)"

section \<open>The program\<close>

text \<open>The state shown first, and one probe of an absent device on each interface.\<close>

fun rds :: "nat list \<Rightarrow> scan \<Rightarrow> u32 list \<times> scan" where
  "rds [] s = ([], s)"
| "rds (r # rs) s = (let (v, s) = rd r s; (vs, s) = rds rs s in (v # vs, s))"

definition probe_absent :: "scan \<Rightarrow> nat \<Rightarrow> scan" where
  "probe_absent s bif =
     (let lb = lbus s (int bif);
          (before, s) = cfg_read (int bif) lb 0 0 0x04 s;
          (v, s) = cfg_read (int bif) lb 5 0 0x00 s;
          (after, s) = cfg_read (int bif) lb 0 0 0x04 s
      in report (RProbe bif lb v (drop_bit 16 before) (drop_bit 16 after)) s)"

definition preamble :: "scan \<Rightarrow> scan" where
  "preamble s =
     (let (a, s) = rd MV_PCI0_P2P_CONFIG s;
          s = s\<lparr>lbus := (lbus s)(0 := bus_of a)\<rparr>;
          (b, s) = rd MV_PCI1_P2P_CONFIG s;
          s = s\<lparr>lbus := (lbus s)(1 := bus_of b)\<rparr>;
          s = report (RBus (lbus s 0) (lbus s 1)) s;
          (vs, s) = rds [MV_PCI0_CMD, MV_PCI0_P2P_CONFIG, MV_PCI1_CMD, MV_PCI1_P2P_CONFIG,
                         MV_INT_CAUSE_LOW, MV_INT_CAUSE_HIGH] s;
          s = report (RRegs vs) s;
          s = foldl probe_absent s [0, 1];
          (_, s) = cfg_read 0 0 5 0 0 s;
          (ab, s) = took_abort s
      in report (RAbort ab) s)"

text \<open>\<open>a\<close> holds the arguments after the program's name; the result is the exit code.\<close>

definition pciscan :: "string list \<Rightarrow> scan \<Rightarrow> int \<times> scan" where
  "pciscan a s =
     (let maxbus = (if a \<noteq> [] then atoi (hd a) else 4);
          s = preamble s
      in if length a \<ge> 2 \<and> hd a = ''--sweep-bus'' then (0, sweep_bus (atoi (a ! 1)) s)
         else if length a \<ge> 2 \<and> hd a = ''--find'' then find_card (atoi (a ! 1)) s
         else if length a \<ge> 6 \<and> hd a = ''--cfgr'' then (0, cfgr a s)
         else if length a \<ge> 7 \<and> hd a = ''--cfgw'' then (0, cfgw a s)
         else if length a \<ge> 4 \<and> hd a = ''--rma'' then (0, rma a s)
         else (0, scan_all maxbus s))"

section \<open>The same accesses as the kernel's\<close>

lemma bit_mask_third: "bit (0xff0000 :: u32) n \<longleftrightarrow> 16 \<le> n \<and> n < 24"
proof -
  have "(0xff0000 :: u32) = push_bit 16 (mask 8)" by (simp add: mask_eq_exp_minus_1 push_bit_eq_mult)
  then show ?thesis by (simp only: bit_push_bit_iff bit_mask_iff) auto
qed

lemma swab_is_swab32: "swab = swab32"
proof (rule ext, rule bit_word_eqI)
  fix v :: u32 and n
  assume n: "n < LENGTH(32)"
  have lt: "\<not> bit v (24 + n)" if "8 \<le> n" using that by (auto dest: bit_imp_le_length)
  have e: "bit (swab v) n = (bit v (24 + n) \<or> bit v (8 + n) \<and> 8 \<le> n \<and> n < 16 \<or>
      (8 \<le> n \<and> n < 32 \<and> bit v (n - 8)) \<and> 16 \<le> n \<and> n < 24 \<or> 24 \<le> n \<and> n < 32 \<and> bit v (n - 24))"
    "bit (swab32 v) n = ((24 \<le> n \<and> n < 32 \<and> bit v (n - 24) \<and> n - 24 < 8) \<or>
      (8 \<le> n \<and> n < 32 \<and> bit v (n - 8) \<and> 8 \<le> n - 8 \<and> n - 8 < 16) \<or>
      (bit v (8 + n) \<and> 8 \<le> n \<and> n < 16) \<or> (bit v (24 + n) \<and> n < 8))"
    using n unfolding swab_def swab32_def bit_or_iff bit_and_iff bit_push_bit_iff bit_drop_bit_eq comp_apply
      bit_mask_byte bit_mask_third by simp_all
  consider "n < 8" | "8 \<le> n" "n < 16" | "16 \<le> n" "n < 24" | "24 \<le> n" "n < 32" using n by force
  then show "bit (swab v) n = bit (swab32 v) n"
    unfolding e using lt by cases auto
qed

lemma devfn_fields:
  assumes "0 \<le> dv" and "dv < 32" and "0 \<le> fn" and "fn < 8"
  shows "drop_bit 3 (word_of_int (dv * 8 + fn)) AND 0x1f = (word_of_int dv :: u32)"
    and "word_of_int (dv * 8 + fn) AND 0x07 = (word_of_int fn :: u32)"
proof -
  define k where "k = dv * 8 + fn"
  have "k < 2 ^ 32" "0 \<le> k" using assms by (simp_all add: k_def)
  then have w: "uint (word_of_int k :: u32) = k" by (simp add: uint_word_of_int)
  have q: "k div 8 mod 32 = dv" "k mod 8 = fn" using assms by (simp_all add: k_def)
  have m: "(0x1f :: u32) = mask 5" "(0x07 :: u32) = mask 3" by (simp_all add: mask_eq_exp_minus_1)
  have u: "uint (word_of_int dv :: u32) = dv" "uint (word_of_int fn :: u32) = fn"
    using assms by (simp_all add: uint_word_of_int)
  have "uint (drop_bit 3 (word_of_int k :: u32) AND 0x1f) = k div 8 mod 32"
    unfolding m by (simp add: take_bit_eq_mask [symmetric] take_bit_eq_mod unsigned_take_bit_eq drop_bit_eq_div uint_div uint_mod w)
  then show "drop_bit 3 (word_of_int (dv * 8 + fn)) AND 0x1f = (word_of_int dv :: u32)"
    unfolding k_def [symmetric] by (intro word_uint_eqI) (simp only: q u)
  have "uint ((word_of_int k :: u32) AND 0x07) = k mod 8"
    unfolding m by (simp add: take_bit_eq_mask [symmetric] take_bit_eq_mod unsigned_take_bit_eq uint_mod w)
  then show "word_of_int (dv * 8 + fn) AND 0x07 = (word_of_int fn :: u32)"
    unfolding k_def [symmetric] by (intro word_uint_eqI) (simp only: q u)
qed

lemma cfg_word_addr:
  assumes "0 \<le> dv" and "dv < 32" and "0 \<le> fn" and "fn < 8"
  shows "cfg_word 0 dv fn reg = cfg_addr 0 (word_of_int (dv * 8 + fn)) (word_of_int reg)"
  by (simp only: cfg_word_def cfg_addr_def devfn_fields [OF assms] word_of_int_0 ucast_0)

lemma flush_log [simp]:
  "mvdev (br (flush s)) = mvdev (br s)" "cfg_sel (pevs (br (flush s))) = cfg_sel (pevs (br s))"
  "cfg cs0 (pevs (br (flush s))) a = cfg cs0 (pevs (br s)) a"
  by (simp_all add: flush_def cfg_sel_def)

lemma wr_log [simp]:
  "mvdev (br (wr off v s)) = mvdev (br s)" "pevs (br (wr off v s)) = RawW off (swab32 v) # pevs (br s)"
  by (simp_all add: wr_def swab_is_swab32)

text \<open>
  \<open>cfg_read\<close> drops the first read of the data register: "the first access evidently cannot be trusted on this
  controller".  The bridge that this speaks of: the first read of the data register after a write of the address register
  returns anything (\<open>first\<close>, a function of the accesses so far), the later ones what the documented bridge returns.
\<close>

fun unsettled :: "pev list \<Rightarrow> bool" where
  "unsettled [] = False"
| "unsettled (RawW off v # h) = (off = PCI1_CONFIG_ADDR \<or> unsettled h)"
| "unsettled (RawR off v # h) = (off \<noteq> PCI1_CONFIG_DATA \<and> unsettled h)"
| "unsettled (_ # h) = unsettled h"

definition mv_dev_late :: "(pev list \<Rightarrow> u32) \<Rightarrow> (u32 \<Rightarrow> u32) \<Rightarrow> (nat \<Rightarrow> u32) \<Rightarrow> pev list \<Rightarrow> nat \<Rightarrow> u32" where
  "mv_dev_late first cs0 r0 h off = (if off = PCI1_CONFIG_DATA \<and> unsettled h then first h else mv_dev cs0 r0 h off)"

lemma flush_unsettled [simp]: "unsettled (pevs (br (flush s))) = unsettled (pevs (br s))"
  by (simp add: flush_def)

lemma cfg_read_late:
  assumes "mvdev (br s) = mv_dev_late first cs0 r0"
  shows "fst (cfg_read 1 bus dv fn reg s) = cfg cs0 (pevs (br s)) (cfg_word bus dv fn reg)"
  by (simp add: cfg_read_def raw_rd_def Let_def cfg_a_def cfg_d_def assms mv_dev_late_def mv_dev_def swab_is_swab32)

text \<open>The log at the kernel's read of the data register.\<close>

definition kernel_looks :: "u32 \<Rightarrow> u32 \<Rightarrow> pev list \<Rightarrow> pev list" where
  "kernel_looks devfn wh h =
     RawR PCI1_CONFIG_ADDR (swab32 (cfg_addr 0 devfn wh)) # RawW PCI1_CONFIG_ADDR (swab32 (cfg_addr 0 devfn wh)) # h"

lemma pci_read_late:
  assumes "mvdev s = mv_dev_late first cs0 r0"
  shows "fst (snd (c2811_pci_read 0 devfn wh 4 s)) = swab32 (first (kernel_looks devfn wh (pevs s)))"
  using assms
  by (simp add: c2811_pci_read_def c2811_pci_addr_def Let_def mv_read_def mv_write_def mv_dev_late_def mv_dev_def
      kernel_looks_def field_of_def)

lemma pci_write4:
  "cfg cs0 (pevs (snd (c2811_pci_write 0 devfn wh 4 val s))) a =
     (if a = cfg_addr 0 devfn wh then val else cfg cs0 (pevs s) a)"
  by (simp add: c2811_pci_write_def c2811_pci_addr_def Let_def mv_read_def mv_write_def)

lemma cfg_write_cfg:
  "cfg cs0 (pevs (br (cfg_write 1 bus dv fn reg val s))) a =
     (if a = cfg_word bus dv fn reg then val else cfg cs0 (pevs (br s)) a)"
  by (simp add: cfg_write_def cfg_a_def cfg_d_def)

text \<open>C40. The scanner and the kernel on the second interface, for every device and function of bus 0 and every register.
  The scanner's read returns the config word even on a bridge whose first read of the data register after an address
  write returns anything at all, because it uses the second.  The kernel's read uses the first: it returns whatever that
  first read gave, so the two agree exactly when the first read happened to be right, and always on the documented
  bridge, where it is.  A word that the scanner writes leaves the config space of all devices as the kernel's
  four-byte config write does, on either bridge.\<close>

theorem scanner_matches_kernel:
  assumes "mvdev (br s) = mv_dev_late first cs0 r0" and "0 \<le> dv" and "dv < 32" and "0 \<le> fn" and "fn < 8"
    and "devfn = word_of_int (dv * 8 + fn)" and "wh = word_of_int reg"
    and "h = kernel_looks devfn wh (pevs (br s))"
  shows "fst (cfg_read 1 0 dv fn reg s) = cfg cs0 (pevs (br s)) (cfg_addr 0 devfn wh) \<and>
    fst (snd (c2811_pci_read 0 devfn wh 4 (br s))) = swab32 (first h) \<and>
    (fst (snd (c2811_pci_read 0 devfn wh 4 (br s))) = fst (cfg_read 1 0 dv fn reg s) \<longleftrightarrow>
       first h = mv_dev cs0 r0 h PCI1_CONFIG_DATA) \<and>
    (mvdev (br u) = mv_dev cs0 r0 \<longrightarrow>
       fst (snd (c2811_pci_read 0 devfn wh 4 (br u))) = fst (cfg_read 1 0 dv fn reg u)) \<and>
    cfg cs0 (pevs (br (cfg_write 1 0 dv fn reg val s))) = cfg cs0 (pevs (snd (c2811_pci_write 0 devfn wh 4 val (br s))))"
proof -
  have a: "cfg_word 0 dv fn reg = cfg_addr 0 devfn wh"
    unfolding assms(6,7) by (rule cfg_word_addr [OF assms(2-5)])
  have m: "mv_dev cs0 r0 h PCI1_CONFIG_DATA = swab32 (cfg cs0 (pevs (br s)) (cfg_addr 0 devfn wh))"
    by (simp add: assms(8) kernel_looks_def mv_dev_def)
  have j: "swab32 x = y \<longleftrightarrow> x = swab32 y" for x y by (metis swab32_swab32)
  have d: "fst (snd (c2811_pci_read 0 devfn wh 4 (br u))) = fst (cfg_read 1 0 dv fn reg u)" if "mvdev (br u) = mv_dev cs0 r0"
  proof -
    have "mv_dev cs0 r0 = mv_dev_late (\<lambda>h. mv_dev cs0 r0 h PCI1_CONFIG_DATA) cs0 r0" by (auto simp: mv_dev_late_def fun_eq_iff)
    with that have "fst (cfg_read 1 0 dv fn reg u) = cfg cs0 (pevs (br u)) (cfg_addr 0 devfn wh)"
      using cfg_read_late [of u _ cs0 r0 0 dv fn reg] a by simp
    with pci_read_run [OF that, of devfn wh 4] show ?thesis by (auto simp: field_of_def)
  qed
  show ?thesis
    using cfg_read_late [OF assms(1), of 0 dv fn reg] pci_read_late [OF assms(1), of devfn wh] d
    by (simp add: a m j assms(8) [symmetric] fun_eq_iff cfg_write_cfg pci_write4)
qed

text \<open>A bridge whose first read gives all ones.\<close>

definition late_scan :: scan where
  "late_scan = \<lparr>br = demo_bridge\<lparr>mvdev := mv_dev_late (\<lambda>h. 0xffffffff) (\<lambda>a. 0x12345678) (\<lambda>off. 0)\<rparr>,
     flush_ok = True, lbus = (\<lambda>i. 0), reports = []\<rparr>"

theorem scanner_matches_kernel_witness:
  "fst (cfg_read 1 0 3 2 0x10 late_scan) = 0x12345678 \<and>
   fst (snd (c2811_pci_read 0 26 0x10 4 (br late_scan))) = 0xffffffff \<and>
   fst (snd (c2811_pci_read 0 26 0x10 4 demo_bridge)) = fst (cfg_read 1 0 3 2 0x10 (late_scan\<lparr>br := demo_bridge\<rparr>))"
proof -
  have d: "mvdev (br late_scan) = mv_dev_late (\<lambda>h. 0xffffffff) (\<lambda>a. 0x12345678) (\<lambda>off. 0)" by (simp add: late_scan_def)
  have e: "pevs (br late_scan) = []" "mvdev demo_bridge = mv_dev (\<lambda>a. 0x12345678) (\<lambda>off. 0)"
    by (simp_all add: late_scan_def demo_bridge_def)
  have f: "swab32 0xffffffff = 0xffffffff" by (simp add: swab32_def)
  from scanner_matches_kernel [OF d _ _ _ _ refl refl refl, of 3 2 "0x10" "late_scan\<lparr>br := demo_bridge\<rparr>" 0] e f
  show ?thesis by simp
qed

section \<open>What a scan writes\<close>

definition adds :: "(pev \<Rightarrow> bool) \<Rightarrow> scan \<Rightarrow> scan \<Rightarrow> bool" where
  "adds P s t \<longleftrightarrow> (\<exists>pre. pevs (br t) = pre @ pevs (br s) \<and> list_all P pre)"

text \<open>Nothing is written but the address registers of the two interfaces.\<close>

fun addr_only :: "pev \<Rightarrow> bool" where
  "addr_only (RawW off v) = (off = PCI0_CONFIG_ADDR \<or> off = PCI1_CONFIG_ADDR)"
| "addr_only (CpldW off v) = False"
| "addr_only _ = True"

lemma adds_refl [simp]: "adds P s s"
  by (simp add: adds_def)

lemma adds_trans: "adds P s t \<Longrightarrow> adds P t u \<Longrightarrow> adds P s u"
  by (auto simp: adds_def)

lemma adds_same [simp]: "adds P s (report r t) = adds P s t" "adds P s (t\<lparr>lbus := l\<rparr>) = adds P s t"
  by (simp_all add: adds_def report_def)

lemma adds_cfg_read: "adds addr_only s t \<Longrightarrow> adds addr_only s (snd (cfg_read bif bus dv fn reg t))"
proof -
  have "adds addr_only t (snd (cfg_read bif bus dv fn reg t))"
    by (auto simp: adds_def cfg_read_def raw_rd_def wr_def flush_def Let_def cfg_a_def)
  then show "adds addr_only s t \<Longrightarrow> ?thesis" by (rule adds_trans [rotated])
qed

lemma adds_rd: "adds addr_only s t \<Longrightarrow> adds addr_only s (snd (rd r t))"
proof -
  have "adds addr_only t (snd (rd r t))" by (simp add: adds_def rd_def raw_rd_def Let_def)
  then show "adds addr_only s t \<Longrightarrow> ?thesis" by (rule adds_trans [rotated])
qed

lemma adds_foldl: "(\<And>t x. adds P s t \<Longrightarrow> adds P s (f t x)) \<Longrightarrow> adds P s t \<Longrightarrow> adds P s (foldl f t xs)"
  by (induction xs arbitrary: t) simp_all

lemma adds_show_dev: "adds addr_only s t \<Longrightarrow> adds addr_only s (show_dev bif bus dv fn t)"
  by (auto simp: show_dev_def show_bar_def Let_def case_prod_unfold intro!: adds_cfg_read adds_foldl)

lemma adds_scan_fns: "adds addr_only s t \<Longrightarrow> adds addr_only s (scan_fns bif bus dv fns t)"
proof (induction fns arbitrary: t)
  case (Cons fn fns)
  note g = adds_show_dev [OF Cons.prems, of bif bus dv fn]
  from Cons.IH [OF g] Cons.IH [OF adds_cfg_read [OF g, of bif bus dv 0 "0x0c"]] adds_cfg_read [OF g, of bif bus dv 0 "0x0c"]
  show ?case by (cases "fn = 0") (simp_all add: Let_def case_prod_unfold)
qed simp

lemma adds_scan_all: "adds addr_only s t \<Longrightarrow> adds addr_only s (scan_all n t)"
  unfolding scan_all_def by (intro adds_foldl adds_scan_fns)

lemma adds_rds: "adds addr_only s t \<Longrightarrow> adds addr_only s (snd (rds rs t))"
proof (induction rs arbitrary: t)
  case (Cons r rs)
  from Cons.IH [OF adds_rd [OF Cons.prems, of r]] show ?case by (simp add: Let_def case_prod_unfold)
qed simp

lemma adds_preamble: "adds addr_only s (preamble s)"
  unfolding preamble_def took_abort_def probe_absent_def Let_def case_prod_unfold snd_conv adds_same
  by (intro adds_rd adds_cfg_read adds_foldl; simp only: adds_same)
    (intro adds_rds adds_rd adds_cfg_read; simp only: adds_same; intro adds_rd; simp only: adds_same adds_refl adds_rd)+

text \<open>
  Only the modes \<open>--sweep-bus\<close>, \<open>--find\<close> and \<open>--cfgw\<close> write a config word or a register: any other run
  writes nothing but the two address registers.
\<close>

lemma adds_modes:
  "adds addr_only s t \<Longrightarrow> adds addr_only s (cfgr a t)" "adds addr_only s t \<Longrightarrow> adds addr_only s (rma a t)"
  by (simp_all add: cfgr_def rma_def Let_def case_prod_unfold adds_cfg_read)

lemma scan_reads_only:
  assumes "a = [] \<or> hd a \<notin> {''--sweep-bus'', ''--find'', ''--cfgw''}"
  shows "adds addr_only s (snd (pciscan a s))"
  using assms adds_preamble [of s]
  by (auto simp: pciscan_def Let_def adds_modes adds_scan_all)

text \<open>
  The sweep programs the bus number of the interface over and over; at its end the register holds
  again what it held, on any hardware, while bus mastering stays enabled.
\<close>

lemma sweep_restores:
  "last_raw (p2p_reg bif) (pevs (br (sweep_bus bif s))) = Some (mvdev (br s) (pevs (br s)) (p2p_reg bif))"
  "lbus (sweep_bus bif s) bif = bus_of (swab (mvdev (br s) (pevs (br s)) (p2p_reg bif)))"
  by (simp_all add: sweep_bus_def Let_def case_prod_unfold report_def rd_def raw_rd_def wr_def swab_is_swab32)

end
