(* ===== verification/Tool_Chan.thy ===== *)
theory Tool_Chan
  imports Cd2481 Cstdlib
begin

text \<open>
  Three small user space tools: \<open>tools/nm32a/chan.c\<close> brings up one channel and tries a byte in local
  loopback, \<open>peek.c\<close> and \<open>poke.c\<close> read and write physical memory through a mapping of two pages.
  What a read of the mapped memory returns is a function of the accesses made so far, newest first.
  Opening and mapping \<open>/dev/mem\<close> and the messages are left out; the reads in the arguments of one message,
  whose order C leaves open, go from left to right.
\<close>

section \<open>chan: registers\<close>

datatype wev = WRd u32 u8 | WWr u32 u8

record win =
  wmem :: "wev list \<Rightarrow> u32 \<Rightarrow> u8"
  whist :: "wev list"
  wbase :: u32

definition rd :: "nat \<Rightarrow> win \<Rightarrow> u8 \<times> win" where
  "rd r s = (let a = wbase s + word_of_nat r; v = wmem s (whist s) a in (v, s\<lparr>whist := WRd a v # whist s\<rparr>))"

definition wr :: "nat \<Rightarrow> u8 \<Rightarrow> win \<Rightarrow> win" where
  "wr r v s = snd (rd r (s\<lparr>whist := WWr (wbase s + word_of_nat r) v # whist s\<rparr>))"

definition wrs :: "(nat \<times> u8) list \<Rightarrow> win \<Rightarrow> win" where
  "wrs ws s = foldl (\<lambda>s (r, v). wr r v s) s ws"

fun rds :: "nat list \<Rightarrow> win \<Rightarrow> win" where
  "rds [] s = s"
| "rds (r # rs) s = rds rs (snd (rd r s))"

text \<open>The number of polls before CCR was 0, or nothing after \<open>n\<close> polls.\<close>

fun ccr_wait :: "nat \<Rightarrow> win \<Rightarrow> nat option \<times> win" where
  "ccr_wait 0 s = (None, s)"
| "ccr_wait (Suc n) s =
     (let (v, s) = rd CCR s
      in if v = 0 then (Some 0, s) else let (k, s) = ccr_wait n s in (map_option Suc k, s))"

section \<open>chan: options\<close>

record copts =
  obase :: u32
  ochip :: int
  ochan :: int
  odiv :: u32
  oloop :: bool
  obyte :: u8

definition chan_defaults :: copts where
  "chan_defaults = \<lparr>obase = 0x18000000, ochip = 0, ochan = 0, odiv = 0x81, oloop = True, obyte = 0x5A\<rparr>"

fun chan_args :: "string list \<Rightarrow> copts \<Rightarrow> copts" where
  "chan_args [] p = p"
| "chan_args [a] p = (if a = ''--noloop'' then p\<lparr>oloop := False\<rparr> else p)"
| "chan_args (a # v # as) p =
     (if a = ''--base'' then chan_args as (p\<lparr>obase := strtoul v\<rparr>)
      else if a = ''--chip'' then chan_args as (p\<lparr>ochip := atoi v\<rparr>)
      else if a = ''--chan'' then chan_args as (p\<lparr>ochan := atoi v\<rparr>)
      else if a = ''--div'' then chan_args as (p\<lparr>odiv := strtoul v\<rparr>)
      else if a = ''--byte'' then chan_args as (p\<lparr>obyte := ucast (strtoul v)\<rparr>)
      else if a = ''--noloop'' then chan_args (v # as) (p\<lparr>oloop := False\<rparr>)
      else chan_args (v # as) p)"

section \<open>chan: the test\<close>

definition TRIES :: nat where "TRIES = 500000"

definition chan_regs :: "copts \<Rightarrow> (nat \<times> u8) list" where
  "chan_regs p =
     [(TPR, 0x40), (CAR, word_of_int (ochan p) AND 3), (LIVR, 0x40), (RCOR, 0x00), (RBPR, ucast (odiv p)),
      (TCOR, if oloop p then 0x02 else 0x00), (TBPR, ucast (odiv p)), (CMR, 0x02), (COR1, 0x17), (COR2, 0x00),
      (COR3, 0x02), (COR4, 0x08), (COR5, 0x00), (CCR, CCR_INITCH OR CCR_ENTX OR CCR_ENRX)]"

text \<open>One transmit service: eight times the byte, the free space read before, after one and after eight.\<close>

definition tx_service :: "u8 \<Rightarrow> win \<Rightarrow> win" where
  "tx_service b s =
     (let s = rds [TFTC, TISR] s;
          s = wr TDR b s;
          (_, s) = rd TFTC s;
          s = wrs (replicate 7 (TDR, b)) s;
          (_, s) = rd TFTC s
      in wr TEOIR 0x00 s)"

fun tx_loop :: "nat \<Rightarrow> u8 \<Rightarrow> win \<Rightarrow> win" where
  "tx_loop 0 b s = rds [TIR, TISR, CSR] s"
| "tx_loop (Suc n) b s =
     (let (tir, s) = rd TIR s in if tir AND 0x80 \<noteq> 0 then tx_service b s else tx_loop n b s)"

text \<open>The wait for a receive service, and the exit code.\<close>

fun rx_loop :: "nat \<Rightarrow> u8 \<Rightarrow> win \<Rightarrow> int \<times> win" where
  "rx_loop 0 b s = (1, rds [RIR, RFOC, TIR, CSR, TFTC] s)"
| "rx_loop (Suc n) b s =
     (let (rir, s) = rd RIR s; (rfoc, s) = rd RFOC s
      in if rir AND 0x80 \<noteq> 0 \<or> rfoc \<noteq> 0
         then
           let s = rds [TIR, RISRl] s;
               (got, s) = rd RDR s;
               s = wr REOIR 0x00 s
           in (if got = b then 0 else 1, s)
         else rx_loop n b s)"

definition chan_run :: "copts \<Rightarrow> win \<Rightarrow> int \<times> win" where
  "chan_run p s =
     (let s = s\<lparr>wbase := word_of_nat (chip_off ! nat (ochip p mod 8))\<rparr>;
          s = rds [GFRCR, GFRCR] s;
          s = wrs (chan_regs p) s;
          (n, s) = ccr_wait TRIES s
      in case n of
           None \<Rightarrow> (1, s)
         | Some k \<Rightarrow>
             let s = wr IER 0x09 s;
                 s = rds [CSR, TFTC, RFOC, IER] s;
                 s = wrs [(MSVR_RTS, 0x01), (MSVR_DTR, 0x02)] s;
                 s = tx_loop TRIES (obyte p) s
             in rx_loop TRIES (obyte p) s)"

text \<open>The exit code 0 means that a byte read from RDR was the byte sent, followed by the end of the service.\<close>

lemma rx_loop_zero:
  "fst (rx_loop n b s) = 0 \<Longrightarrow>
     \<exists>v h. whist (snd (rx_loop n b s)) =
       WRd (wbase s + word_of_nat REOIR) v # WWr (wbase s + word_of_nat REOIR) 0 # WRd (wbase s + word_of_nat RDR) b # h"
proof (induction n arbitrary: s)
  case (Suc n)
  let ?s = "snd (rd RFOC (snd (rd RIR s)))"
  have b: "wbase ?s = wbase s" by (simp add: rd_def Let_def)
  show ?case
  proof (cases "fst (rd RIR s) AND 0x80 \<noteq> 0 \<or> fst (rd RFOC (snd (rd RIR s))) \<noteq> 0")
    case True
    then show ?thesis using Suc.prems
      by (simp add: Let_def case_prod_unfold split: if_splits) (simp add: wr_def rd_def Let_def)
  next
    case False
    then have "rx_loop (Suc n) b s = rx_loop n b ?s" by (simp add: Let_def case_prod_unfold)
    with Suc.IH [of ?s] Suc.prems b show ?thesis by simp
  qed
qed simp

lemma chan_success:
  assumes "fst (chan_run p s) = 0"
  shows "\<exists>a v h. whist (snd (chan_run p s)) = WRd (a + 0x84) v # WWr (a + 0x84) 0 # WRd (a + 0xF8) (obyte p) # h"
proof -
  have "\<exists>t. chan_run p s = (1, t) \<or> chan_run p s = rx_loop TRIES (obyte p) t"
    unfolding chan_run_def Let_def case_prod_unfold by (simp only: split: option.split) blast
  then obtain t where "chan_run p s = (1, t) \<or> chan_run p s = rx_loop TRIES (obyte p) t" ..
  with assms have "fst (rx_loop TRIES (obyte p) t) = 0" "chan_run p s = rx_loop TRIES (obyte p) t" by auto
  with rx_loop_zero [of TRIES "obyte p" t] show ?thesis by auto
qed

section \<open>peek and poke\<close>

datatype memev = MemR nat nat u32 | MemW nat nat u32

text \<open>Offset in the mapping, width in bytes, value.  The mapping has two pages.\<close>

abbreviation (input) MAP_LEN :: nat where "MAP_LEN \<equiv> 0x2000"

record pm =
  pmem :: "memev list \<Rightarrow> nat \<Rightarrow> nat \<Rightarrow> u32"
  phist :: "memev list"

definition mem_rd :: "nat \<Rightarrow> nat \<Rightarrow> pm \<Rightarrow> u32 \<times> pm" where
  "mem_rd a w s = (let v = pmem s (phist s) a w in (v, s\<lparr>phist := MemR a w v # phist s\<rparr>))"

fun width_args :: "string list \<Rightarrow> nat \<times> int \<Rightarrow> nat \<times> int" where
  "width_args [] r = r"
| "width_args (a # as) (w, n) =
     width_args as (if a = ''-b'' then (1, n) else if a = ''-w'' then (2, n) else if a = ''-l'' then (4, n) else (w, atoi a))"

text \<open>The values shown; \<open>n\<close> is the count, nothing is read when it is not positive.\<close>

fun peek_loop :: "nat \<Rightarrow> nat \<Rightarrow> nat \<Rightarrow> nat \<Rightarrow> pm \<Rightarrow> u32 list \<times> pm" where
  "peek_loop off w i 0 s = ([], s)"
| "peek_loop off w i (Suc n) s =
     (let (v, s) = mem_rd (off + i * w) w s; (vs, s) = peek_loop off w (Suc i) n s in (v # vs, s))"

definition peek :: "string list \<Rightarrow> pm \<Rightarrow> int \<times> u32 list \<times> pm" where
  "peek args s =
     (case args of
        [] \<Rightarrow> (2, [], s)
      | p # as \<Rightarrow>
          let phys = strtoul p;
              (w, n) = width_args as (4, 16);
              off = unat (phys AND 0xfff);
              (vs, s) = peek_loop off w 0 (nat n) s
          in (0, vs, s))"

fun poke_width :: "string list \<Rightarrow> nat \<Rightarrow> nat" where
  "poke_width [] w = w"
| "poke_width (a # as) w = poke_width as (if a = ''-b'' then 1 else if a = ''-w'' then 2 else if a = ''-l'' then 4 else w)"

text \<open>The value before, the write of the low bytes, the value after.\<close>

definition poke :: "string list \<Rightarrow> pm \<Rightarrow> int \<times> pm" where
  "poke args s =
     (case args of
        p # v # as \<Rightarrow>
          let off = unat (strtoul p AND 0xfff);
              w = poke_width as 4;
              (_, s) = mem_rd off w s;
              s = s\<lparr>phist := MemW off w (take_bit (8 * w) (strtoul v)) # phist s\<rparr>;
              (_, s) = mem_rd off w s
          in (0, s)
      | _ \<Rightarrow> (2, s))"

fun in_map :: "memev \<Rightarrow> bool" where
  "in_map (MemR a w v) = (a + w \<le> MAP_LEN)"
| "in_map (MemW a w v) = (a + w \<le> MAP_LEN)"

lemma poke_width_cases: "w \<in> {1, 2, 4} \<Longrightarrow> poke_width as w \<in> {1, 2, 4}"
  by (induction as arbitrary: w) auto

lemma page_offset: "unat (p AND 0xfff :: u32) < 0x1000"
proof -
  have "(0xfff :: u32) = mask 12" by (simp add: mask_eq_exp_minus_1)
  then have "unat (p AND 0xfff) = unat p mod 0x1000"
    by (simp only: take_bit_eq_mask [symmetric] unsigned_take_bit_eq) (simp add: take_bit_eq_mod)
  then show ?thesis by simp
qed

lemma poke_in_map:
  assumes "poke args s = (r, t)"
  shows "\<exists>pre. phist t = pre @ phist s \<and> list_all in_map pre"
proof -
  have "poke_width as 4 \<le> 4" for as using poke_width_cases [of 4 as] by auto
  moreover have "unat (p AND 0xfff :: u32) \<le> 0xfff" for p using page_offset [of p] by simp
  ultimately have "unat (p AND 0xfff :: u32) + poke_width as 4 \<le> MAP_LEN" for p as
    using add_mono [of "unat (p AND 0xfff)" "0xfff" "poke_width as 4" 4] by fastforce
  then show ?thesis
    using assms by (auto simp: poke_def mem_rd_def Let_def split: list.splits)
qed

text \<open>
  \<open>peek\<close> checks nothing: it stays inside the mapping exactly as long as the last value read ends before
  it, and reads past it otherwise.
\<close>

lemma peek_loop_hist:
  "phist (snd (peek_loop off w i n s)) =
     rev (map (\<lambda>(k, v). MemR (off + k * w) w v) (zip [i..<i + n] (fst (peek_loop off w i n s)))) @ phist s \<and>
   length (fst (peek_loop off w i n s)) = n"
proof (induction n arbitrary: i s)
  case (Suc n)
  have "[i..<i + Suc n] = i # [Suc i..<Suc i + n]" by (simp add: upt_conv_Cons del: upt_Suc)
  with Suc.IH [of "Suc i" "snd (mem_rd (off + i * w) w s)"] show ?case
    by (simp add: Let_def case_prod_unfold del: upt_Suc) (simp add: mem_rd_def Let_def)
qed simp

lemma peek_in_map:
  assumes "0 < n"
  shows "list_all in_map (take n (phist (snd (peek_loop off w 0 n s)))) \<longleftrightarrow> off + n * w \<le> MAP_LEN"
proof -
  let ?vs = "fst (peek_loop off w 0 n s)"
  have l: "length ?vs = n" and h: "phist (snd (peek_loop off w 0 n s)) =
      rev (map (\<lambda>(k, v). MemR (off + k * w) w v) (zip [0..<n] ?vs)) @ phist s"
    using peek_loop_hist [of off w 0 n s] by simp_all
  have "list_all in_map (take n (phist (snd (peek_loop off w 0 n s)))) \<longleftrightarrow>
      (\<forall>k < n. off + k * w + w \<le> MAP_LEN)"
    unfolding h using l by (auto simp: list_all_iff set_zip)
  also have "\<dots> \<longleftrightarrow> off + n * w \<le> MAP_LEN"
  proof
    assume "\<forall>k < n. off + k * w + w \<le> MAP_LEN"
    then have "off + (n - 1) * w + w \<le> MAP_LEN" using assms by simp
    then show "off + n * w \<le> MAP_LEN" using assms by (cases n) simp_all
  next
    assume le: "off + n * w \<le> MAP_LEN"
    show "\<forall>k < n. off + k * w + w \<le> MAP_LEN"
    proof (intro allI impI)
      fix k assume "k < n"
      then have "Suc k * w \<le> n * w" by (intro mult_le_mono1) simp
      with le show "off + k * w + w \<le> MAP_LEN" by simp
    qed
  qed
  finally show ?thesis .
qed

end
