(* ===== verification/Spec2Isabelle.thy ===== *)
theory Spec2Isabelle
  imports Prelude Interfaces Cd2481 Cd2481_Regs Nm32a_State Nm32a_Ring Nm32a_Chan Nm32a_Service Nm32a_Safety
    Nm32a_Frame Nm32a_Run Nm32a_Claims Nm32a_Grain Nm32a_Tty Nm32a_Sweep Nm32a_Progress Nm32a_Poll Nm32a_Lab Nm32a_Rates Nm32a_Selftest Nm32a_Probe Nm32a_Boot
    Cstdlib Ucode Tool_Ucode Mv64340_Irq C2811_Pci C2811_Pata C2811_Board C2811_Eth Nmconsole_Telnet Nmconsole
    Nmconsole_Session Nm32a_Console Tool_Pciscan Tool_Chan
begin

text \<open>
  A Linux port to the Cisco 2811 router (board code under \<open>src/kernel/cisco2811\<close>), the driver of its
  NM-32A card (32 asynchronous lines on eight Cirrus CD2481 controllers behind an FPGA), and the tools
  that belong to them (\<open>src/tools/nm32a\<close>).  All the C code of the repository is modelled.

  \<^bold>\<open>Conventions.\<close>  A C function \<open>f\<close> is the definition \<open>f\<close>; a piece of a long function has a name of
  its own, and the definition of the whole is composed of the pieces in the order of the code.  State is
  passed explicitly as a record.  Machine integers are words where the width matters (\<open>u8\<close>, \<open>u16\<close>,
  \<open>u32\<close>), \<open>int\<close> for a C \<open>int\<close> that cannot overflow, \<open>nat\<close> for counters and indices.  Hardware is not
  made up: each device is a parameter, a function from the log of accesses made so far (newest first) to
  the value that the next read returns, or to \<open>None\<close> when the read never retires.  A theorem that holds
  for every such function holds whatever the hardware does; a theorem that needs something of the
  hardware says so (\<open>responsive\<close>: reads retire; \<open>ticks\<close>: the clock advances; \<open>mv_dev\<close>: the config
  mechanism that the bridge documents, as plain memory; \<open>mv_dev_late\<close>: the same with an arbitrary first read).
  Programs that may not return are in the option monad, \<open>None\<close> being that they do not.

  \<^bold>\<open>Foundations.\<close>
  \<^item> \<open>Prelude\<close>: types, errno values, the fact collections \<open>bus_simps\<close>, \<open>mon_simps\<close>, \<open>frame_simps\<close>.
  \<^item> \<open>Interfaces\<close>: the contracts as locales.  \<open>bounded_queue\<close> is interpreted on the transmit ring
    (\<open>Nm32a_Ring\<close>), \<open>stuffing\<close> on the driver's NUL escapes and on telnet's IAC, \<open>maskable\<close> on the MV64340
    sources and on the CP0 lines (\<open>Mv64340_Irq\<close>), \<open>drained_service\<close> on the service routine in the poll
    thread's burst (\<open>Nm32a_Run\<close>).

  \<^bold>\<open>The driver \<open>nm32a.c\<close>.\<close>
  \<^item> \<open>Cd2481\<close>, \<open>Nm32a_State\<close>: register windows, addresses, the access log and the monitors that read it
    (the context that an acknowledge opened, the selected channel, the last value of a channel register);
    \<open>struct nm32a\<close>, \<open>struct nm32a_port\<close>, the module parameters, \<open>cwr\<close>, \<open>crd\<close>, \<open>cwr16\<close>.
  \<^item> \<open>Cd2481_Regs\<close>: the register tables of \<open>nm32a.c\<close>, \<open>chan.c\<close> and \<open>ucode.c\<close> agree, and every register of every chip
    has an address of its own in the BAR.
  \<^item> \<open>Nm32a_Ring\<close>: the 1024 byte ring, \<open>write\<close>, \<open>write_room\<close>, \<open>break_ctl\<close>; they refine a bounded FIFO
    and never split an escape pair.
  \<^item> \<open>Nm32a_Chan\<close>: \<open>ccr_wait\<close>, bit rates, channel set-up, arming, modem control, activate, shutdown,
    \<open>set_termios\<close>.
  \<^item> \<open>Nm32a_Service\<close>: \<open>nm32a_service\<close> on every branch, the end of interrupt with its retries, receive
    exceptions and the muting of a noisy line, a sweep of the poll thread and the thread.
  \<^item> \<open>Nm32a_Safety\<close>, \<open>Nm32a_Frame\<close>: what one service pass keeps (legality of the log, the transmit
    stream, received bytes) and what it cannot touch.
  \<^item> \<open>Nm32a_Run\<close>, \<open>Nm32a_Claims\<close>: the driver as operations in any order.  The grain of interleaving is
    one service pass or one tty call.  \<open>line\<close> is the specification of a port, a bounded queue
    with an open flag; the whole driver refines 32 of them.  The properties here hold of every state
    reachable from registration.
  \<^item> \<open>Nm32a_Grain\<close>: the finer grain that the locks allow.  A service is cut after each of its looks, after the
    acknowledge and at the release of \<open>hw_lock\<close>; the writers and \<open>break_ctl\<close>, which take only \<open>np->lock\<close>, come in at every
    cut, the calls that take \<open>hw_lock\<close> wherever it is free, also before the bytes that were read are handed to
    the tty.  \<open>service_atomic\<close> reduces such runs to runs of whole sections, and the properties of the coarse
    grain hold at every point of the fine one.  Three things stay whole: the fill of a transmit service, which holds
    \<open>np->lock\<close> as well; a tty call, which is one critical section; and arming, which for each port looks at
    the ring under \<open>np->lock\<close>, so a write of that port comes before or after.
  \<^item> \<open>Nm32a_Tty\<close>: a sweep returns, arming, silence after shutdown, the microcode check of activate.
  \<^item> \<open>Nm32a_Sweep\<close>: what a sweep costs at most, counted in the log: register accesses of each chip, acknowledges,
    critical sections, and when it sleeps.
  \<^item> \<open>Nm32a_Progress\<close>, \<open>Nm32a_Poll\<close>: on a card that keeps its side of the handshake what has arrived is taken
    (\<open>offers_rx\<close>) and the poll thread sends what is queued and takes the \<open>R\<close> bursts that arrive (\<open>works\<close>: the card
    shows a request after at most \<open>D\<close> looks, grants what was confirmed, and has room for a byte).  The properties above hold of a card that never grants
    anything, too; these say that the driver works.
  \<^item> \<open>Ucode\<close>: unpacking of the 18 bit instructions, \<open>nm32a_download\<close>, all eight chips.
  \<^item> \<open>Nm32a_Lab\<close>, \<open>Nm32a_Rates\<close>, \<open>Nm32a_Selftest\<close>: the tests behind the parameters \<open>selftest\<close> and
    \<open>sendbreak\<close>: they end, the staged DMA test never lets the card master the bus before both descriptors
    are armed inside the reserved region, the searches spare the chips' registers, and no count that the
    card announces makes a test run over its buffer.  These tests do not take \<open>hw_lock\<close>
    (\<open>selftest_unlocked\<close>), so they are models of a test run by itself.
  \<^item> \<open>Nm32a_Probe\<close>: probe, tty set-up, removal and the tty entry points, with the calls that acquire and
    release kernel objects as a log that a monitor of the object's life reads.
  \<^item> \<open>Nm32a_Boot\<close>: the two composed.  Every operation of the driver commutes with an older log beneath its own
    (\<open>later\<close>, by transfer), so the properties of runs, which start at \<open>card_start\<close> with an empty log, hold of the
    card that probe leaves with eight chips downloaded.

  \<^bold>\<open>The board.\<close>
  \<^item> \<open>Mv64340_Irq\<close>: \<open>mv64340_irq.c\<close> and \<open>irq.c\<close>.  Every source that keeps interrupting without a handler
    is masked, so interrupts cannot livelock the machine.
  \<^item> \<open>C2811_Pci\<close>: \<open>pci.c\<close>; config cycles of one, two and four bytes, bring-up, and the resources that the PCI core
    is handed against the windows that bring-up programs.
  \<^item> \<open>C2811_Pata\<close>: \<open>pata.c\<close>; taskfile, command, PIO transfer and its round trip, probe.
  \<^item> \<open>C2811_Board\<close>: \<open>setup.c\<close>, \<open>serial.c\<close>, \<open>time.c\<close>, \<open>eth.c\<close>, \<open>cisco2811.h\<close> and the device table of
    \<open>pata.c\<close>: what the boot hooks and the device tables hand to the kernel.
  \<^item> \<open>C2811_Eth\<close>: the devices of \<open>eth.c\<close> and the interrupt code together: each port's interrupt reaches the kernel under the
    number that its device names.

  \<^bold>\<open>The tools.\<close>
  \<^item> \<open>Cstdlib\<close>: \<open>atoi\<close>, \<open>strtoul\<close>, \<open>%d\<close> of \<open>sscanf\<close>, as the tools use them.
  \<^item> \<open>Tool_Ucode\<close> (\<open>ucode.c\<close>): the same register writes as the driver's download.
  \<^item> \<open>Tool_Pciscan\<close> (\<open>pciscan.c\<close>): its config accesses against the kernel's.  On the documented bridge they agree; on one whose
    first read of the data register is not to be trusted, as the tool's comment says of this controller, only the tool's
    read is right.
  \<^item> \<open>Tool_Chan\<close> (\<open>chan.c\<close>, \<open>peek.c\<close>, \<open>poke.c\<close>).
  \<^item> \<open>Nmconsole_Telnet\<close>, \<open>Nmconsole\<close> (\<open>nmconsole.c\<close>): the telnet filter against a parser, the speed table,
    the select loop with system calls as inputs; descriptors are accounted for, a port's tty is open
    exactly while it has a client.
  \<^item> \<open>Nmconsole_Session\<close>: a client's whole session, over any number of turns of the loop and whatever the other
    ports do: what the tty is written is the data of what the client sent, read by read, and what the client
    is sent is what the tty gave.
  \<^item> \<open>Nm32a_Console\<close>: the console server on top of the driver; between them the kernel's raw tty, of which
    only this is used: a write is a call of the driver's \<open>write\<close>, \<open>tcsendbreak\<close> two of its \<open>break_ctl\<close>.  The
    properties that span the two, from a client's bytes to the wire and back, stand at the end of this theory.

  \<^bold>\<open>Bounds.\<close>  The only fuel is the code's own: \<open>EOI_TRIES\<close> (100), \<open>GFRCR_TRIES\<close> (200000),
  \<open>STAGE_TRIES\<close> (200000), the counts of the polling loops of the tests and tools.  The exceptions are
  \<open>ccr_wait\<close>, whose loop ends by the clock (\<open>CCR_WAIT_MS\<close>, 250 ms): it is a \<open>partial_function\<close>, and
  \<open>ccr_wait_bounded\<close> shows that it returns when the clock advances; and nmconsole's endless select loop,
  which is a fold over any finite list of turns.  Termination of the others is theirs by
  construction, and \<open>poll_sweep_returns\<close>, \<open>selftest_returns\<close> show that reads that retire are enough; the former
  bounds a sweep by 8 + 241 \<open>burst\<close> register accesses on each chip with an open port.

  \<^bold>\<open>Not modelled.\<close>  The kernel's own functions (tty core, PCI core, libata, platform bus,
  \<open>request_firmware\<close>) are inputs, arguments or log entries; text that is printed is left out where it is
  not the result of a tool; where the order in which C evaluates the arguments of a message is unspecified,
  register reads are taken from left to right.  Opening and mapping \<open>/dev/mem\<close>; the Python programs
  and shell scripts; the firmware images.
\<close>

section \<open>Across the components\<close>

text \<open>C15. From a client to the wire.  For as long as the client of a port stays, over any number of turns of a
  server in telnet mode: when the driver's calls that the server makes on that port run among any services and any other
  calls but another activation of the port, in an order that keeps theirs, and each finds room in the ring, then what the line has sent and still
  holds grows by exactly what the client's reads ask for, one read after the other: of each, the breaks, and
  then its data bytes in order, each NUL as an escape pair.  And on a card that keeps its side of the handshake the
  poll thread then sends all of it, within (4097 + R) (2 D + 1) sweeps, if the port was open and is not shut down and
  the \<open>burst\<close> parameter is not 0.\<close>

theorem client_reaches_wire:
  assumes "fresh_start files args os" and "fresh_turns (before @ ts) (snd (nm_init files args os))"
    and "nm_loop before (snd (nm_init files args os)) = (True, u)"
    and "i < nat (nports u)" and "client_fd (nm_ports u ! i) = c" and "0 \<le> c" and "\<not> raw_mode u" and "stays c i ts"
    and "t = tty_fd (nm_ports u ! i)" and "nevs (snd (nm_loop ts u)) = new @ nevs u"
    and "drv_execs ops s = Some s'" and "good s" and "\<forall>baud. Activate i baud \<notin> set ops"
    and "filter (feeds i) ops = tty_ops i t new" and "finds_room i ops s"
  shows "tx_sent (i div 4) (i mod 4) (evs s') @ ring_content (port i s') =
      tx_sent (i div 4) (i mod 4) (evs s) @ ring_content (port i s) @ on_the_line (map fst (exchanged c t i ts)) \<and>
    (popen (port i s) \<and> Shutdown i \<notin> set ops \<and> (word_of_int (burst (par s)) :: u32) \<noteq> 0 \<and> all_work R D (hw s) \<and>
       (4097 + R) * Suc (2 * D) \<le> n \<longrightarrow>
     (\<exists>s''. nm32a_poll_thread n s' = Some s'' \<and> tx_sent (i div 4) (i mod 4) (evs s'') =
        tx_sent (i div 4) (i mod 4) (evs s) @ ring_content (port i s) @ on_the_line (map fst (exchanged c t i ts))))"
proof -
  note A = session_start [OF assms(1-7), folded assms(9)]
  have i: "i < NM32A_PORTS_N" using A(1) assms(4) by (auto simp: paired_def)
  from session_new [OF A assms(8,10)] run_feeds_room [OF assms(11,12) i assms(15)] run_stream [OF assms(11,12) i assms(13)]
  have e: "tx_sent (i div 4) (i mod 4) (evs s') @ ring_content (port i s') =
      tx_sent (i div 4) (i mod 4) (evs s) @ ring_content (port i s) @ on_the_line (map fst (exchanged c t i ts))"
    by (simp add: tx_total_def assms(14))
  note K = run_keeps [OF assms(11,12)] and O = run_stays_open [OF assms(11,12) i assms(13)]
  show ?thesis
    using e thread_does_all [OF run_good [OF assms(11,12)] _ _ i, of R D n] K O by auto
qed

text \<open>Two turns of a server with one port: its client sends 'A' and a break in one read, and 'B' in the next.\<close>

abbreviation (input) demo_boot :: nmc where
  "demo_boot \<equiv> snd (nm_init Map.empty [''--ports'', ''1''] [(3, True)])"

abbreviation (input) demo_connect :: "turn list" where
  "demo_connect \<equiv> [(Ready (\<lambda>fd. fd = 3), [demo_in None])]"

abbreviation (input) demo_turns :: "turn list" where
  "demo_turns \<equiv> [(Ready (\<lambda>fd. fd = 4), [(demo_in (Some [0x41, IAC, BRK]))\<lparr>accept_r := -1, open_r := -1\<rparr>]),
     (Ready (\<lambda>fd. fd = 4 \<or> fd = 5), [(demo_in (Some [0x42]))\<lparr>accept_r := -1, open_r := -1, tty_r := Some [0x43]\<rparr>])]"

definition demo_state :: nmc where
  "demo_state = nm_start\<lparr>nports := 1,
     nm_ports := (nm_ports nm_start)[0 := \<lparr>listen_fd = 3, client_fd = 4, tty_fd = 5, tcp_port = 2000\<rparr>],
     nevs := [Wr 4 hello, OpenTty 0 5, AcceptFd 3 4, SocketFd 3]\<rparr>"

lemma demo_connected: "nm_loop demo_connect demo_boot = (True, demo_state)"
  by (simp add: demo_init demo_turn_defs demo_state_def Let_def)

lemma demo_state_fields:
  "nports demo_state = 1" "client_fd (nm_ports demo_state ! 0) = 4" "5 = tty_fd (nm_ports demo_state ! 0)" "\<not> raw_mode demo_state"
  by (simp_all add: demo_state_def nm_start_def)

lemma demo_session:
  "fresh_start Map.empty [''--ports'', ''1''] [(3, True)]"
  "fresh_turns (demo_connect @ demo_turns) demo_boot"
  "stays 4 0 demo_turns"
  "exchanged 4 5 0 demo_turns = [([0x41, IAC, BRK], []), ([0x42], [0x43])]"
  "nevs (snd (nm_loop demo_turns demo_state)) =
     [Wr 4 [0x43], ReadFd 5, Wr 5 [0x42], ReadFd 4, Wr 5 [0x41], SendBreak 5, ReadFd 4] @ nevs demo_state"
proof -
  note E = telnet_filter_def filter_loop.simps is_negotiation_def from_tty_def telnet_write_def
  show "fresh_start Map.empty [''--ports'', ''1''] [(3, True)]"
    by (simp add: fresh_start_def demo_atoi nm_start_def fresh_socket_def Let_def)
  show "fresh_turns (demo_connect @ demo_turns) demo_boot"
    unfolding demo_init by (simp add: demo_turn_defs Let_def E)
  show "nevs (snd (nm_loop demo_turns demo_state)) =
      [Wr 4 [0x43], ReadFd 5, Wr 5 [0x42], ReadFd 4, Wr 5 [0x41], SendBreak 5, ReadFd 4] @ nevs demo_state"
    by (simp add: demo_turn_defs demo_state_def Let_def E)
qed (simp_all add: stays_turn_def read_bytes_def in_net_def in_tty_def demo_in_def)

theorem client_reaches_wire_witness:
  "\<exists>s s' s''. drv_exec (Activate 0 (Some 9600)) (card_start patient_hw default_params) = Some s \<and>
     drv_execs [drv_op.Break 0 True, Nap, drv_op.Break 0 False, Arm 0, Write 0 [0x41], Write 0 [0x42]] s = Some s' \<and>
     nm32a_poll_thread 12294 s' = Some s'' \<and> tx_sent 0 0 (evs s'') = [0, 0x81, 0, 0x83, 0x41, 0x42]"
proof -
  let ?ops = "[drv_op.Break 0 True, Nap, drv_op.Break 0 False, Arm 0, Write 0 [0x41], Write 0 [0x42]]"
  obtain s where x: "drv_exec (Activate 0 (Some 9600)) (card_start patient_hw default_params) = Some s" "good s"
    and s: "popen (port 0 s)" "ring_content (port 0 s) = []" "ring_used (port 0 s) = 0" "tx_sent 0 0 (evs s) = []"
      "all_work 1 1 (hw s)" "burst (par s) = 32"
    by (rule patient_opened [of 0]) simp_all
  obtain s' where r: "drv_execs ?ops s = Some s'" by simp
  have f: "finds_room 0 ?ops s" by (intro run_finds_room [OF r x(2)]) (simp_all add: s(3))
  have p: "0 < nat (nports demo_state)" by (simp add: demo_state_fields)
  have "\<exists>s''. nm32a_poll_thread 12294 s' = Some s'' \<and> tx_sent 0 0 (evs s'') = on_the_line (map fst (exchanged 4 5 0 demo_turns))"
    using client_reaches_wire [OF demo_session(1,2) demo_connected p demo_state_fields(2) _ demo_state_fields(4) demo_session(3)
        demo_state_fields(3) demo_session(5) r x(2) _ _ f, of 1 1 12294] s by simp
  then have "\<exists>s''. nm32a_poll_thread 12294 s' = Some s'' \<and> tx_sent 0 0 (evs s'') = [0, 0x81, 0, 0x83, 0x41, 0x42]"
    unfolding demo_session(4) by (simp add: on_the_line_def is_negotiation_def)
  with x(1) r show ?thesis by blast
qed

text \<open>C16. From the wire to a client.  For as long as the client of a port of a server in telnet mode stays: when the bytes that the server reads
  from the tty are consecutive bytes of what the driver has given that tty (which is what a raw tty does), the
  bytes the client is sent, framed as telnet, are exactly those, and they were all taken, in that order, from
  the receiver of that port's own channel: nothing is invented, repeated, reordered or another port's.\<close>

theorem wire_reaches_client:
  assumes "fresh_start files args os" and "fresh_turns (before @ ts) (snd (nm_init files args os))"
    and "nm_loop before (snd (nm_init files args os)) = (True, u)"
    and "i < nat (nports u)" and "client_fd (nm_ports u ! i) = c" and "0 \<le> c" and "\<not> raw_mode u" and "stays c i ts"
    and "t = tty_fd (nm_ports u ! i)"
    and "drv_execs ops (card_start h p) = Some s'"
    and "flipped i (evs s') = earlier @ concat (map snd (exchanged c t i ts)) @ rest"
  shows "\<exists>new. written c (nevs (snd (nm_loop ts u))) = written c (nevs u) @ new \<and>
    data_of (parse new) = concat (map snd (exchanged c t i ts)) \<and>
    subseq (data_of (parse new)) (rx_taken (i div 4) (i mod 4) (evs s'))"
proof -
  note A = session_start [OF assms(1-7), folded assms(9)]
  have i: "i < NM32A_PORTS_N" using A(1) assms(4) by (auto simp: paired_def)
  have "line_ok (line i (card_start h p))" using i by (simp add: line_card_start line_ok_def)
  from run_lines_ok [OF assms(10) good_card_start i this]
  have "subseq (earlier @ concat (map snd (exchanged c t i ts)) @ rest) (rx_taken (i div 4) (i mod 4) (evs s'))"
    by (simp add: line_ok_def line_def flip: assms(11))
  moreover have "subseq (concat (map snd (exchanged c t i ts))) (earlier @ concat (map snd (exchanged c t i ts)) @ rest)"
    by (intro subseq_drop_many subseq_rev_drop_many) simp
  ultimately have "subseq (concat (map snd (exchanged c t i ts))) (rx_taken (i div 4) (i mod 4) (evs s'))"
    using subseq_order.trans by blast
  with nm_loop_session [OF A assms(8)] client_reads show ?thesis by auto
qed

theorem wire_reaches_client_witness:
  "\<exists>s'. drv_execs [Activate 0 (Some 9600), Service 0] (card_start wire_hw default_params) = Some s' \<and>
     subseq [0x43] (rx_taken 0 0 (evs s'))"
proof -
  obtain s' where r: "drv_execs [Activate 0 (Some 9600), Service 0] (card_start wire_hw default_params) = Some s'"
    and f: "flipped 0 (evs s') = [0x43]" using wire_run by blast
  have p: "0 < nat (nports demo_state)" by (simp add: demo_state_fields)
  have "flipped 0 (evs s') = [] @ concat (map snd (exchanged 4 5 0 demo_turns)) @ []"
    unfolding demo_session(4) by (simp add: f)
  from wire_reaches_client [OF demo_session(1,2) demo_connected p demo_state_fields(2) _ demo_state_fields(4) demo_session(3)
      demo_state_fields(3) r this] r
  show ?thesis unfolding demo_session(4) by auto
qed

end
